(* ===== verification/Go_Prelude.thy ===== *)
theory Go_Prelude
  imports Main "HOL-Library.AList" "HOL-Library.Multiset"
begin

text \<open>
  The generic material every component shares: the outcome of a Go call (a value, an error or a
  panic), Go maps, and the small list functions that the Go code writes out as loops.

  A Go map is an association list with distinct keys (\<open>gm_wf\<close>); \<open>gm_get\<close>, \<open>gm_set\<close>, \<open>gm_del\<close> and
  \<open>gm_len\<close> are the map index, the map assignment, \<open>delete\<close> and \<open>len\<close>. The order in which a Go
  \<open>for range\<close> visits a map is not specified by the language, so every loop over a map takes the
  order of this run as an argument, and \<open>range_order\<close> says which lists are such orders.
\<close>

named_theorems gomap_simps \<open>lookup, length and well-formedness of Go maps after an update\<close>
named_theorems gomap_intros \<open>preservation of the well-formedness of Go maps\<close>

section \<open>Outcomes of a call\<close>

text \<open>A call returns a value, returns an error, or panics (a run-time panic carries no value here).\<close>

datatype ('e, 'a) outcome = Ret 'a | Err 'e | Panic

section \<open>Go maps\<close>

type_synonym ('k, 'v) gomap = "('k \<times> 'v) list"

definition gm_get :: "('k, 'v) gomap \<Rightarrow> 'k \<Rightarrow> 'v option" where
  "gm_get m k = map_of m k"

definition gm_set :: "('k, 'v) gomap \<Rightarrow> 'k \<Rightarrow> 'v \<Rightarrow> ('k, 'v) gomap" where
  "gm_set m k v = AList.update k v m"

definition gm_del :: "('k, 'v) gomap \<Rightarrow> 'k \<Rightarrow> ('k, 'v) gomap" where
  "gm_del m k = AList.delete k m"

definition gm_len :: "('k, 'v) gomap \<Rightarrow> nat" where
  "gm_len m = length m"

definition gm_keys :: "('k, 'v) gomap \<Rightarrow> 'k list" where
  "gm_keys m = map fst m"

definition gm_wf :: "('k, 'v) gomap \<Rightarrow> bool" where
  "gm_wf m \<longleftrightarrow> distinct (map fst m)"

text \<open>The orders a \<open>for range\<close> over the map may use: each key once.\<close>

definition range_order :: "('k, 'v) gomap \<Rightarrow> 'k list \<Rightarrow> bool" where
  "range_order m ord \<longleftrightarrow> distinct ord \<and> set ord = set (gm_keys m)"

lemma gm_get_Nil [gomap_simps, simp]: "gm_get [] k = None"
  by (simp add: gm_get_def)

lemma gm_get_set [gomap_simps, simp]:
  "gm_get (gm_set m k v) k' = (if k' = k then Some v else gm_get m k')"
  by (simp add: gm_get_def gm_set_def update_conv')

lemma gm_get_del [gomap_simps, simp]:
  "gm_get (gm_del m k) k' = (if k' = k then None else gm_get m k')"
  by (simp add: gm_get_def gm_del_def delete_conv')

lemma gm_wf_Nil [gomap_intros, simp]: "gm_wf []"
  by (simp add: gm_wf_def)

lemma gm_wf_set [gomap_intros, simp]: "gm_wf m \<Longrightarrow> gm_wf (gm_set m k v)"
  by (simp add: gm_wf_def gm_set_def distinct_update)

lemma gm_wf_del [gomap_intros, simp]: "gm_wf m \<Longrightarrow> gm_wf (gm_del m k)"
  by (simp add: gm_wf_def gm_del_def distinct_delete)

lemma gm_keys_iff: "k \<in> set (gm_keys m) \<longleftrightarrow> gm_get m k \<noteq> None"
  by (force simp: gm_keys_def gm_get_def map_of_eq_None_iff)

lemma gm_len_0_iff: "gm_len m = 0 \<longleftrightarrow> (\<forall>k. gm_get m k = None)"
proof
  assume "gm_len m = 0"
  then show "\<forall>k. gm_get m k = None" by (simp add: gm_len_def)
next
  assume all: "\<forall>k. gm_get m k = None"
  show "gm_len m = 0"
  proof (cases m)
    case Nil
    then show ?thesis by (simp add: gm_len_def)
  next
    case (Cons p m')
    from all have "gm_get m (fst p) = None" by blast
    with Cons show ?thesis by (cases p) (simp add: gm_get_def)
  qed
qed

lemma gm_len_keys: "gm_len m = length (gm_keys m)"
  by (simp add: gm_len_def gm_keys_def)

lemma gm_wf_keys: "gm_wf m \<longleftrightarrow> distinct (gm_keys m)"
  by (simp add: gm_wf_def gm_keys_def)

lemma gm_len_card: "gm_wf m \<Longrightarrow> gm_len m = card {k. gm_get m k \<noteq> None}"
  unfolding gm_len_keys gm_wf_keys
  by (simp only: gm_keys_iff [symmetric] Collect_mem_eq distinct_card)

lemma finite_gm_dom [simp]: "finite {k. \<exists>y. gm_get m k = Some y}"
proof -
  have "{k. \<exists>y. gm_get m k = Some y} = set (gm_keys m)"
    by (auto simp: gm_keys_iff)
  then show ?thesis by simp
qed

lemma gm_dom_del: "{k'. \<exists>y. gm_get (gm_del m k) k' = Some y} = {k'. \<exists>y. gm_get m k' = Some y} - {k}"
  by auto

lemma gm_dom_set: "{k'. \<exists>y. gm_get (gm_set m k v) k' = Some y} = insert k {k'. \<exists>y. gm_get m k' = Some y}"
  by auto

lemma gm_len_set [gomap_simps]:
  assumes "gm_wf m"
  shows "gm_len (gm_set m k v) = (if gm_get m k = None then Suc (gm_len m) else gm_len m)"
proof -
  have "gm_len (gm_set m k v) = card (insert k {k'. \<exists>y. gm_get m k' = Some y})"
    using assms by (simp add: gm_len_card gm_dom_set del: gm_get_set)
  then show ?thesis
    using assms by (auto simp: gm_len_card card_insert_if)
qed

lemma gm_len_del [gomap_simps]:
  assumes "gm_wf m"
  shows "gm_len (gm_del m k) = (if gm_get m k = None then gm_len m else gm_len m - 1)"
proof -
  have "gm_len (gm_del m k) = card ({k'. \<exists>y. gm_get m k' = Some y} - {k})"
    using assms by (simp add: gm_len_card gm_dom_del del: gm_get_del)
  then show ?thesis
    using assms by (auto simp: gm_len_card card_Diff_singleton_if)
qed

lemma gm_len_pos: "gm_get m k = Some v \<Longrightarrow> 0 < gm_len m"
  using gm_len_0_iff [of m] by (metis neq0_conv option.distinct(1))

lemma gm_get_pair: "gm_wf m \<Longrightarrow> (k, v) \<in> set m \<longleftrightarrow> gm_get m k = Some v"
  by (simp add: gm_wf_def gm_get_def)

lemma range_order_keys: "gm_wf m \<Longrightarrow> range_order m (gm_keys m)"
  by (simp add: range_order_def gm_wf_keys)

lemma range_orderD: "range_order m ord \<Longrightarrow> k \<in> set ord \<longleftrightarrow> gm_get m k \<noteq> None"
  by (simp add: range_order_def gm_keys_iff)

lemma range_order_distinct: "range_order m ord \<Longrightarrow> distinct ord"
  by (simp add: range_order_def)

lemma range_order_mset: "gm_wf m \<Longrightarrow> range_order m ord \<Longrightarrow> mset ord = mset (gm_keys m)"
  by (simp add: range_order_def gm_wf_keys set_eq_iff_mset_eq_distinct [symmetric])

text \<open>A choice of an order for every map.\<close>

definition orders_ok :: "(('a, 'b) gomap \<Rightarrow> 'a list) \<Rightarrow> bool" where
  "orders_ok ordf \<longleftrightarrow> (\<forall>m. gm_wf m \<longrightarrow> range_order m (ordf m))"

lemma orders_ok_keys: "orders_ok gm_keys"
  by (simp add: orders_ok_def range_order_keys)

section \<open>Slices\<close>

text \<open>The index of the first element with a property, as a \<open>for i, x := range xs\<close> with a \<open>break\<close> finds it.\<close>

fun index_of :: "('a \<Rightarrow> bool) \<Rightarrow> 'a list \<Rightarrow> nat option" where
  "index_of P [] = None"
| "index_of P (x # xs) = (if P x then Some 0 else map_option Suc (index_of P xs))"

lemma index_of_None: "index_of P xs = None \<longleftrightarrow> (\<forall>x \<in> set xs. \<not> P x)"
  by (induction xs) auto

lemma index_of_Some:
  "index_of P xs = Some i \<Longrightarrow> i < length xs \<and> P (xs ! i) \<and> (\<forall>j < i. \<not> P (xs ! j))"
proof (induction xs arbitrary: i)
  case Nil
  then show ?case by simp
next
  case (Cons x xs)
  then show ?case
    by (auto split: if_splits simp: less_Suc_eq_0_disj nth_Cons')
qed

text \<open>Deletion that fills the hole with the last element: \<open>xs[i] = xs[len-1]; xs = xs[:len-1]\<close>.\<close>

definition swap_delete :: "nat \<Rightarrow> 'a list \<Rightarrow> 'a list" where
  "swap_delete i xs = butlast (xs[i := last xs])"

lemma mset_butlast_last: "xs \<noteq> [] \<Longrightarrow> mset xs = add_mset (last xs) (mset (butlast xs))"
  by (metis append_butlast_last_id mset_append mset.simps add_mset_add_single)

lemma mset_swap_delete:
  assumes "i < length xs"
  shows "mset (swap_delete i xs) = mset xs - {#xs ! i#}"
proof -
  from assms have ne: "xs \<noteq> []" by auto
  show ?thesis
  proof (cases "i = length xs - 1")
    case True
    with ne have "swap_delete i xs = butlast xs" and "xs ! i = last xs"
      by (simp_all add: swap_delete_def last_conv_nth butlast_list_update)
    then show ?thesis using mset_butlast_last [OF ne] by simp
  next
    case False
    with assms have i: "i < length (butlast xs)" by simp
    have sd: "swap_delete i xs = (butlast xs)[i := last xs]"
      using False by (simp add: swap_delete_def butlast_list_update)
    have eq: "butlast xs ! i = xs ! i"
      using i by (simp add: nth_butlast)
    have "xs ! i \<in># mset (butlast xs)"
      using i eq by (metis nth_mem set_mset_mset)
    then show ?thesis
      using i sd eq mset_butlast_last [OF ne] by (simp add: mset_update)
  qed
qed

lemma length_swap_delete: "length (swap_delete i xs) = length xs - 1"
  by (simp add: swap_delete_def)

section \<open>Runs of operations\<close>

text \<open>A sequence of operations, each with the calls it makes; \<open>run_ok\<close> checks a side condition in every state.\<close>

fun run_ops :: "('s \<Rightarrow> 'op \<Rightarrow> 's \<times> 'e list) \<Rightarrow> 's \<Rightarrow> 'op list \<Rightarrow> 's \<times> 'e list" where
  "run_ops step s [] = (s, [])"
| "run_ops step s (x # xs) =
     (let (s', es) = step s x; (s'', es') = run_ops step s' xs in (s'', es @ es'))"

fun run_ok :: "('s \<Rightarrow> 'op \<Rightarrow> 's \<times> 'e list) \<Rightarrow> ('s \<Rightarrow> 'op \<Rightarrow> bool) \<Rightarrow> 's \<Rightarrow> 'op list \<Rightarrow> bool" where
  "run_ok step good s [] = True"
| "run_ok step good s (x # xs) = (good s x \<and> run_ok step good (fst (step s x)) xs)"

text \<open>
  \<open>toggles on off b es\<close>: reading the calls from the left with the switch at \<open>b\<close>, every \<open>on\<close> call
  finds it off and every \<open>off\<close> call finds it on; the result is the final position.
\<close>

fun toggles :: "('e \<Rightarrow> bool) \<Rightarrow> ('e \<Rightarrow> bool) \<Rightarrow> bool \<Rightarrow> 'e list \<Rightarrow> bool option" where
  "toggles on off b [] = Some b"
| "toggles on off b (e # es) =
     (if on e then (if b then None else toggles on off True es)
      else if off e then (if b then toggles on off False es else None)
      else toggles on off b es)"

lemma toggles_append:
  "toggles on off b (es @ es') = (case toggles on off b es of None \<Rightarrow> None | Some b' \<Rightarrow> toggles on off b' es')"
  by (induction es arbitrary: b) auto

lemma toggles_neither: "\<forall>e \<in> set es. \<not> on e \<and> \<not> off e \<Longrightarrow> toggles on off b es = Some b"
  by (induction es) auto

text \<open>Strict alternation bounds the counts: the on calls are as many as the off calls, or one more.\<close>

lemma toggles_count:
  assumes "\<forall>e. \<not> (on e \<and> off e)"
  shows "toggles on off b es = Some b' \<Longrightarrow>
    length (filter on es) + (if b then 1 else 0) = length (filter off es) + (if b' then 1 else 0)"
proof (induction es arbitrary: b)
  case (Cons e es)
  then show ?case
    using assms by (auto split: if_splits dest!: Cons.IH)
qed (simp split: if_splits)

section \<open>The interface of a component that reports when it becomes occupied and when empty\<close>

text \<open>
  A provider has states, operations and reported calls; \<open>occupied\<close> is what its clients want to follow.
  The law is about one operation: its \<open>on\<close> and \<open>off\<close> calls bring a switch from the occupancy before
  to the occupancy after. A client that keeps a resource exactly while the provider is occupied (open
  at an \<open>on\<close> call, release at an \<open>off\<close> call) then never opens twice and never releases what is not
  open, over any run.
\<close>

locale lifecycle =
  fixes step :: "'s \<Rightarrow> 'op \<Rightarrow> 's \<times> 'e list"
    and good :: "'s \<Rightarrow> 'op \<Rightarrow> bool"
    and invar :: "'s \<Rightarrow> bool"
    and occupied :: "'s \<Rightarrow> bool"
    and on :: "'e \<Rightarrow> bool"
    and off :: "'e \<Rightarrow> bool"
  assumes invar_step: "invar s \<Longrightarrow> good s x \<Longrightarrow> invar (fst (step s x))"
    and toggle_step: "invar s \<Longrightarrow> good s x \<Longrightarrow>
      toggles on off (occupied s) (snd (step s x)) = Some (occupied (fst (step s x)))"
begin

lemma run_invar: "invar s \<Longrightarrow> run_ok step good s xs \<Longrightarrow> invar (fst (run_ops step s xs))"
proof (induction xs arbitrary: s)
  case (Cons x xs)
  then have "invar (fst (run_ops step (fst (step s x)) xs))"
    using invar_step by simp
  then show ?case by (simp add: case_prod_unfold Let_def)
qed simp

lemma run_toggles:
  "invar s \<Longrightarrow> run_ok step good s xs \<Longrightarrow>
   toggles on off (occupied s) (snd (run_ops step s xs)) = Some (occupied (fst (run_ops step s xs)))"
proof (induction xs arbitrary: s)
  case (Cons x xs)
  let ?s = "fst (step s x)"
  have "invar ?s" using Cons.prems invar_step by simp
  then have "toggles on off (occupied ?s) (snd (run_ops step ?s xs)) = Some (occupied (fst (run_ops step ?s xs)))"
    using Cons by simp
  moreover have "toggles on off (occupied s) (snd (step s x)) = Some (occupied ?s)"
    using Cons.prems toggle_step by simp
  ultimately show ?case by (simp add: case_prod_unfold Let_def toggles_append)
qed simp

end

end
