(* ===== verification/Go_Strings.thy ===== *)
theory Go_Strings
  imports Go_Prelude
begin

text \<open>
  The functions of Go's package \<^verbatim>\<open>strings\<close> that the program calls. A Go string is a sequence of
  bytes, so it is a list of Isabelle's 8-bit characters; every separator the program splits at is
  one ASCII byte.
\<close>

section \<open>strings.Split and strings.Join\<close>

fun split_on :: "char \<Rightarrow> string \<Rightarrow> string list" where
  "split_on c [] = [[]]"
| "split_on c (x # xs) =
     (if x = c then [] # split_on c xs
      else (case split_on c xs of [] \<Rightarrow> [[x]] | w # ws \<Rightarrow> (x # w) # ws))"

fun join_with :: "string \<Rightarrow> string list \<Rightarrow> string" where
  "join_with sep [] = []"
| "join_with sep [w] = w"
| "join_with sep (w # v # ws) = w @ sep @ join_with sep (v # ws)"

lemma split_on_nonempty [simp]: "split_on c s \<noteq> []"
  by (cases s) (auto split: list.splits)

lemma split_on_Cons_other:
  "x \<noteq> c \<Longrightarrow> split_on c (x # xs) = (x # hd (split_on c xs)) # tl (split_on c xs)"
  by (cases "split_on c xs") auto

lemma join_with_Cons: "ws \<noteq> [] \<Longrightarrow> join_with sep (w # ws) = w @ sep @ join_with sep ws"
  by (cases ws) auto

lemma join_split [simp]: "join_with [c] (split_on c s) = s"
proof (induction s)
  case Nil
  then show ?case by simp
next
  case (Cons x xs)
  show ?case
  proof (cases "x = c")
    case True
    with Cons show ?thesis by (simp add: join_with_Cons)
  next
    case False
    obtain w ws where "split_on c xs = w # ws" by (cases "split_on c xs") auto
    with False Cons show ?thesis by (cases ws) auto
  qed
qed

lemma split_on_free [simp]: "c \<notin> set s \<Longrightarrow> split_on c s = [s]"
  by (induction s) auto

lemma split_on_at: "split_on c (a @ c # b) = split_on c a @ split_on c b"
proof (induction a)
  case (Cons x xs)
  obtain w ws where "split_on c xs = w # ws" by (cases "split_on c xs") auto
  with Cons show ?case by simp
qed simp

lemma split_on_append:
  "c \<notin> set a \<Longrightarrow> split_on c (a @ c # b) = a # split_on c b"
  by (induction a) auto

lemma split_on_join:
  "ws \<noteq> [] \<Longrightarrow> \<forall>w \<in> set ws. c \<notin> set w \<Longrightarrow> split_on c (join_with [c] ws) = ws"
proof (induction ws)
  case Nil
  then show ?case by simp
next
  case (Cons w ws)
  then show ?case
    by (cases "ws = []") (simp_all add: join_with_Cons split_on_append)
qed

lemma length_split_on: "length (split_on c s) = Suc (count_list s c)"
  by (induction s) (auto split: list.splits)

lemma set_split_on: "w \<in> set (split_on c s) \<Longrightarrow> set w \<subseteq> set s - {c}"
proof (induction s arbitrary: w)
  case Nil
  then show ?case by simp
next
  case (Cons x xs)
  show ?case
  proof (cases "x = c")
    case True
    with Cons show ?thesis by auto
  next
    case False
    obtain u us where u: "split_on c xs = u # us" by (cases "split_on c xs") auto
    with False Cons.prems have "w = x # u \<or> w \<in> set us" by auto
    then show ?thesis
    proof
      assume "w = x # u"
      moreover have "set u \<subseteq> set xs - {c}" using Cons.IH [of u] u by simp
      ultimately show ?thesis using False by auto
    next
      assume "w \<in> set us"
      then have "set w \<subseteq> set xs - {c}" using Cons.IH [of w] u by simp
      then show ?thesis by auto
    qed
  qed
qed

lemma set_join_with: "set (join_with sep ws) \<subseteq> \<Union> (set ` set ws) \<union> set sep"
  by (induction sep ws rule: join_with.induct) auto

section \<open>Prefixes, suffixes, substrings\<close>

fun has_prefix :: "string \<Rightarrow> string \<Rightarrow> bool" where
  "has_prefix s [] = True"
| "has_prefix [] (p # ps) = False"
| "has_prefix (x # xs) (p # ps) = (x = p \<and> has_prefix xs ps)"

definition has_suffix :: "string \<Rightarrow> string \<Rightarrow> bool" where
  "has_suffix s suf = has_prefix (rev s) (rev suf)"

definition trim_prefix :: "string \<Rightarrow> string \<Rightarrow> string" where
  "trim_prefix s p = (if has_prefix s p then drop (length p) s else s)"

definition trim_suffix :: "string \<Rightarrow> string \<Rightarrow> string" where
  "trim_suffix s suf = (if has_suffix s suf then take (length s - length suf) s else s)"

fun str_contains :: "string \<Rightarrow> string \<Rightarrow> bool" where
  "str_contains [] sub = (sub = [])"
| "str_contains (x # xs) sub = (has_prefix (x # xs) sub \<or> str_contains xs sub)"

lemma has_prefix_iff: "has_prefix s p \<longleftrightarrow> (\<exists>r. s = p @ r)"
  by (induction s p rule: has_prefix.induct) auto

lemma has_suffix_iff: "has_suffix s suf \<longleftrightarrow> (\<exists>r. s = r @ suf)"
proof -
  have "has_suffix s suf \<longleftrightarrow> (\<exists>r. rev s = rev suf @ r)"
    by (simp add: has_suffix_def has_prefix_iff)
  also have "\<dots> \<longleftrightarrow> (\<exists>r. s = r @ suf)"
    by (metis rev_append rev_rev_ident)
  finally show ?thesis .
qed

lemma str_contains_iff: "str_contains s sub \<longleftrightarrow> (\<exists>a b. s = a @ sub @ b)"
proof (induction s)
  case Nil
  then show ?case by auto
next
  case (Cons x xs)
  show ?case
  proof
    assume "str_contains (x # xs) sub"
    then show "\<exists>a b. x # xs = a @ sub @ b"
    proof (simp add: has_prefix_iff Cons.IH, elim disjE exE)
      fix r
      assume "x # xs = sub @ r"
      then show ?thesis by (intro exI [of _ "[]"] exI [of _ r]) simp
    next
      fix a b
      assume "xs = a @ sub @ b"
      then show ?thesis by (intro exI [of _ "x # a"] exI [of _ b]) simp
    qed
  next
    assume "\<exists>a b. x # xs = a @ sub @ b"
    then obtain a b where ab: "x # xs = a @ sub @ b" by blast
    show "str_contains (x # xs) sub"
    proof (cases a)
      case Nil
      with ab have "has_prefix (x # xs) sub" unfolding has_prefix_iff by simp
      then show ?thesis by simp
    next
      case (Cons y ys)
      with ab show ?thesis using Cons.IH by auto
    qed
  qed
qed

text \<open>A string wrapped in braces and its content, as the placeholder syntax of a topic pattern uses them.\<close>

lemma braces_wrapped:
  "has_prefix s ''{'' \<and> has_suffix s ''}'' \<longleftrightarrow> (\<exists>v. s = ''{'' @ v @ ''}'')"
proof
  assume "has_prefix s ''{'' \<and> has_suffix s ''}''"
  then obtain a b where ab: "s = ''{'' @ a" "s = b @ ''}''"
    unfolding has_prefix_iff has_suffix_iff by blast
  then obtain v where "b = CHR ''{'' # v"
    by (cases b) auto
  with ab show "\<exists>v. s = ''{'' @ v @ ''}''" by auto
next
  assume "\<exists>v. s = ''{'' @ v @ ''}''"
  then obtain v where "s = ''{'' @ v @ ''}''" by blast
  then have "s = ''{'' @ (v @ ''}'')" "s = (''{'' @ v) @ ''}''" by simp_all
  then show "has_prefix s ''{'' \<and> has_suffix s ''}''"
    unfolding has_prefix_iff has_suffix_iff by blast
qed

lemma trim_braces [simp]: "trim_suffix (trim_prefix (''{'' @ v @ ''}'') ''{'') ''}'' = v"
proof -
  have "has_suffix (v @ ''}'') ''}''" by (auto simp: has_suffix_iff)
  then show ?thesis by (simp add: trim_prefix_def trim_suffix_def)
qed

end
