(* ===== verification/Go_Regexp.thy ===== *)
theory Go_Regexp
  imports Go_Strings
begin

text \<open>
  The fragment of Go's package \<^verbatim>\<open>regexp\<close> that the topic pattern uses: classes, concatenation,
  alternation and repetition, matched against a whole string (the pattern is anchored with
  \<^verbatim>\<open>^\<close> and \<^verbatim>\<open>$\<close>, without the multi-line flag). \<open>in_re\<close> is the meaning, \<open>re_test\<close> an executable
  matcher by derivatives, and \<open>re_test_iff\<close> says that the two agree.
\<close>

datatype re = Nothing | Eps | Cls "char \<Rightarrow> bool" | Alt re re | Seq re re | Star re

inductive in_re :: "re \<Rightarrow> string \<Rightarrow> bool" where
  in_eps: "in_re Eps []"
| in_cls: "P c \<Longrightarrow> in_re (Cls P) [c]"
| in_altL: "in_re r s \<Longrightarrow> in_re (Alt r q) s"
| in_altR: "in_re q s \<Longrightarrow> in_re (Alt r q) s"
| in_seq: "in_re r u \<Longrightarrow> in_re q v \<Longrightarrow> in_re (Seq r q) (u @ v)"
| in_star0: "in_re (Star r) []"
| in_star1: "in_re r u \<Longrightarrow> in_re (Star r) v \<Longrightarrow> in_re (Star r) (u @ v)"

inductive_simps in_Nothing [simp]: "in_re Nothing s"
inductive_simps in_Eps [simp]: "in_re Eps s"
inductive_simps in_Cls: "in_re (Cls P) s"
inductive_simps in_Alt [simp]: "in_re (Alt r q) s"
inductive_simps in_Seq: "in_re (Seq r q) s"
inductive_cases in_StarE: "in_re (Star r) s"

definition re_char :: "char \<Rightarrow> re" where
  "re_char c = Cls (\<lambda>x. x = c)"

definition re_plus :: "re \<Rightarrow> re" where
  "re_plus r = Seq r (Star r)"

definition re_opt :: "re \<Rightarrow> re" where
  "re_opt r = Alt r Eps"

section \<open>The matcher\<close>

fun nullable :: "re \<Rightarrow> bool" where
  "nullable Nothing = False"
| "nullable Eps = True"
| "nullable (Cls P) = False"
| "nullable (Alt r q) = (nullable r \<or> nullable q)"
| "nullable (Seq r q) = (nullable r \<and> nullable q)"
| "nullable (Star r) = True"

text \<open>Constructors that drop the useless parts, so that a derivative stays small.\<close>

fun mk_alt :: "re \<Rightarrow> re \<Rightarrow> re" where
  "mk_alt Nothing q = q"
| "mk_alt r Nothing = r"
| "mk_alt r q = Alt r q"

fun mk_seq :: "re \<Rightarrow> re \<Rightarrow> re" where
  "mk_seq Nothing q = Nothing"
| "mk_seq Eps q = q"
| "mk_seq r q = Seq r q"

fun deriv :: "char \<Rightarrow> re \<Rightarrow> re" where
  "deriv c Nothing = Nothing"
| "deriv c Eps = Nothing"
| "deriv c (Cls P) = (if P c then Eps else Nothing)"
| "deriv c (Alt r q) = mk_alt (deriv c r) (deriv c q)"
| "deriv c (Seq r q) =
     (if nullable r then mk_alt (mk_seq (deriv c r) q) (deriv c q) else mk_seq (deriv c r) q)"
| "deriv c (Star r) = mk_seq (deriv c r) (Star r)"

fun re_test :: "re \<Rightarrow> string \<Rightarrow> bool" where
  "re_test r [] = nullable r"
| "re_test r (c # cs) = re_test (deriv c r) cs"

lemma in_mk_alt [simp]: "in_re (mk_alt r q) s \<longleftrightarrow> in_re r s \<or> in_re q s"
  by (cases "(r, q)" rule: mk_alt.cases) auto

lemma in_mk_seq [simp]: "in_re (mk_seq r q) s \<longleftrightarrow> (\<exists>u v. s = u @ v \<and> in_re r u \<and> in_re q v)"
  by (cases "(r, q)" rule: mk_seq.cases) (auto simp: in_Seq)

lemma nullable_iff: "nullable r \<longleftrightarrow> in_re r []"
  by (induction r) (auto simp: in_Cls in_Seq intro: in_re.intros)

lemma in_Star_Cons:
  "in_re (Star r) (c # w) \<longleftrightarrow> (\<exists>u v. w = u @ v \<and> in_re r (c # u) \<and> in_re (Star r) v)"
proof
  have "in_re q s \<Longrightarrow> q = Star r \<Longrightarrow> s = c # w \<Longrightarrow>
    \<exists>u v. w = u @ v \<and> in_re r (c # u) \<and> in_re (Star r) v" for q s
  proof (induction rule: in_re.induct)
    case (in_star1 r' u v)
    then show ?case by (cases u) auto
  qed auto
  then show "in_re (Star r) (c # w) \<Longrightarrow>
    \<exists>u v. w = u @ v \<and> in_re r (c # u) \<and> in_re (Star r) v" by blast
next
  assume "\<exists>u v. w = u @ v \<and> in_re r (c # u) \<and> in_re (Star r) v"
  then obtain u v where "w = u @ v" "in_re r (c # u)" "in_re (Star r) v" by blast
  then show "in_re (Star r) (c # w)"
    using in_star1 [of r "c # u" v] by simp
qed

lemma in_Seq_Cons:
  "in_re (Seq r q) (c # w) \<longleftrightarrow>
     (\<exists>u v. w = u @ v \<and> in_re r (c # u) \<and> in_re q v) \<or> (in_re r [] \<and> in_re q (c # w))"
  unfolding in_Seq by (auto simp: Cons_eq_append_conv)

lemma in_deriv: "in_re (deriv c r) w \<longleftrightarrow> in_re r (c # w)"
proof (induction r arbitrary: w)
  case (Cls P)
  then show ?case by (auto simp: in_Cls)
next
  case (Seq r q)
  then show ?case by (auto simp: in_Seq_Cons nullable_iff)
next
  case (Star r)
  then show ?case by (auto simp: in_Star_Cons)
qed simp_all

lemma re_test_iff: "re_test r s \<longleftrightarrow> in_re r s"
  by (induction s arbitrary: r) (simp_all add: nullable_iff in_deriv)

section \<open>Derived forms\<close>

lemma in_re_char [simp]: "in_re (re_char c) s \<longleftrightarrow> s = [c]"
  by (auto simp: re_char_def in_Cls)

lemma in_Seq_Cls: "in_re (Seq (Cls P) q) s \<longleftrightarrow> (\<exists>c v. s = c # v \<and> P c \<and> in_re q v)"
  by (cases s) (auto simp: in_Seq_Cons in_Cls, auto simp: in_Seq in_Cls)

lemma in_Seq_char: "in_re (Seq (re_char c) q) s \<longleftrightarrow> (\<exists>v. s = c # v \<and> in_re q v)"
  by (auto simp: re_char_def in_Seq_Cls)

lemma in_re_opt [simp]: "in_re (re_opt r) s \<longleftrightarrow> in_re r s \<or> s = []"
  by (simp add: re_opt_def)

lemma in_Star_Cls: "in_re (Star (Cls P)) s \<longleftrightarrow> list_all P s"
proof (induction s)
  case Nil
  show ?case by (simp add: in_star0)
next
  case (Cons c s)
  then show ?case by (auto simp: in_Star_Cons in_Cls)
qed

lemma in_re_plus_Cls: "in_re (re_plus (Cls P)) s \<longleftrightarrow> s \<noteq> [] \<and> list_all P s"
proof (cases s)
  case Nil
  then show ?thesis by (auto simp: re_plus_def in_Seq in_Cls)
next
  case (Cons c cs)
  then show ?thesis by (auto simp: re_plus_def in_Seq_Cons in_Cls in_Star_Cls)
qed

end
