(* ===== verification/Ws_Util.thy ===== *)
theory Ws_Util
  imports Go_Regexp
begin

text \<open>
  Topic names (\<^verbatim>\<open>wsutil/wsutil.go\<close>): the record \<open>Topic\<close>, \<open>topic_string\<close> (\<^verbatim>\<open>Topic.String\<close>), the
  regular expression \<open>topic_re\<close> and \<open>parse_topic\<close> (\<^verbatim>\<open>ParseTopic\<close>), with the shape of the strings that
  match, the round trips in both directions and the inputs on which the parser panics.
\<close>

section \<open>Topics and their strings\<close>

record Topic =
  Descriptor :: string
  Operation :: string
  Path :: "string list"

definition topic_string :: "Topic \<Rightarrow> string" where
  "topic_string t =
     (let str = Operation t @ ''@'' @ join_with ''.'' (Path t)
      in if Descriptor t \<noteq> '''' then Descriptor t @ ''~'' @ str else str)"

section \<open>The regular expression\<close>

text \<open>\<^verbatim>\<open>[a-zA-Z0-9-]\<close> and \<^verbatim>\<open>[a-zA-Z0-9-{}_]\<close>.\<close>

definition alnum :: "char \<Rightarrow> bool" where
  "alnum c = (let n = (of_char c :: nat) in
     (97 \<le> n \<and> n \<le> 122) \<or> (65 \<le> n \<and> n \<le> 90) \<or> (48 \<le> n \<and> n \<le> 57))"

definition name_char :: "char \<Rightarrow> bool" where
  "name_char c = (alnum c \<or> c = CHR ''-'')"

definition path_char :: "char \<Rightarrow> bool" where
  "path_char c = (alnum c \<or> c = CHR ''-'' \<or> c = CHR ''{'' \<or> c = CHR ''}'' \<or> c = CHR ''_'')"

definition byte_in :: "nat \<Rightarrow> nat \<Rightarrow> char \<Rightarrow> bool" where
  "byte_in lo hi c = (lo \<le> of_char c \<and> of_char c \<le> hi)"

text \<open>
  \<^verbatim>\<open>[^.]\<close> matches one code point other than a dot. Over the bytes of the string that is one byte
  other than the dot (a byte that starts no UTF-8 sequence is read as one invalid code point), or
  a well-formed UTF-8 sequence of two, three or four bytes.
\<close>

definition utf8_multi :: re where
  "utf8_multi =
     Alt (Seq (Cls (byte_in 0xC2 0xDF)) (Cls (byte_in 0x80 0xBF)))
    (Alt (Seq (Cls (byte_in 0xE0 0xE0)) (Seq (Cls (byte_in 0xA0 0xBF)) (Cls (byte_in 0x80 0xBF))))
    (Alt (Seq (Cls (byte_in 0xE1 0xEC)) (Seq (Cls (byte_in 0x80 0xBF)) (Cls (byte_in 0x80 0xBF))))
    (Alt (Seq (Cls (byte_in 0xED 0xED)) (Seq (Cls (byte_in 0x80 0x9F)) (Cls (byte_in 0x80 0xBF))))
    (Alt (Seq (Cls (byte_in 0xEE 0xEF)) (Seq (Cls (byte_in 0x80 0xBF)) (Cls (byte_in 0x80 0xBF))))
    (Alt (Seq (Cls (byte_in 0xF0 0xF0)) (Seq (Cls (byte_in 0x90 0xBF))
            (Seq (Cls (byte_in 0x80 0xBF)) (Cls (byte_in 0x80 0xBF)))))
    (Alt (Seq (Cls (byte_in 0xF1 0xF3)) (Seq (Cls (byte_in 0x80 0xBF))
            (Seq (Cls (byte_in 0x80 0xBF)) (Cls (byte_in 0x80 0xBF)))))
         (Seq (Cls (byte_in 0xF4 0xF4)) (Seq (Cls (byte_in 0x80 0x8F))
            (Seq (Cls (byte_in 0x80 0xBF)) (Cls (byte_in 0x80 0xBF)))))))))))"

definition not_dot :: re where
  "not_dot = Alt (Cls (\<lambda>c. c \<noteq> CHR ''.'')) utf8_multi"

text \<open>\<^verbatim>\<open>([a-zA-Z0-9-{}_]\.?)\<close>, the repeated group.\<close>

definition path_item :: re where
  "path_item = Seq (Cls path_char) (re_opt (re_char CHR ''.''))"

text \<open>\<^verbatim>\<open>^([a-zA-Z0-9-]+~|)[a-zA-Z0-9-]+@(([a-zA-Z0-9-{}_]\.?))+[^.]$\<close>\<close>

definition topic_re :: re where
  "topic_re =
     Seq (re_opt (Seq (re_plus (Cls name_char)) (re_char CHR ''~'')))
    (Seq (re_plus (Cls name_char))
    (Seq (re_char CHR ''@'')
    (Seq (re_plus path_item)
         not_dot)))"

section \<open>The parser\<close>

text \<open>
  \<open>ss[0]\<close> exists, since a split is never empty; \<open>ss[1]\<close> is an index out of range, a run-time panic,
  when the part holds no \<^verbatim>\<open>@\<close>.
\<close>

definition parse_topic :: "string \<Rightarrow> (string, Topic) outcome" where
  "parse_topic rawTopic =
     (if \<not> re_test topic_re rawTopic then Err ''invalid topic format''
      else
        let ss = split_on CHR ''~'' rawTopic;
            (d, ss) = (if length ss = 2 then (ss ! 0, drop 1 ss) else ('''', ss));
            ss = split_on CHR ''@'' (ss ! 0)
        in if length ss < 2 then Panic
           else Ret \<lparr>Descriptor = d, Operation = ss ! 0, Path = split_on CHR ''.'' (ss ! 1)\<rparr>)"

section \<open>The shape of a matching string\<close>

text \<open>The repeated group: no leading dot and no two dots in a row.\<close>

fun path_prefix :: "string \<Rightarrow> bool" where
  "path_prefix [] = False"
| "path_prefix [c] = path_char c"
| "path_prefix (c # d # cs) =
     (path_char c \<and> (if d = CHR ''.'' then cs = [] \<or> path_prefix cs else path_prefix (d # cs)))"

lemma not_path_char_dot [simp]: "\<not> path_char CHR ''.''"
  by (simp add: path_char_def alnum_def)

lemma name_char_seps [simp]:
  "\<not> name_char CHR ''~''" "\<not> name_char CHR ''@''" "\<not> name_char CHR ''.''"
  by (simp_all add: name_char_def alnum_def)

lemma path_char_seps [simp]: "\<not> path_char CHR ''~''" "\<not> path_char CHR ''@''"
  by (simp_all add: path_char_def alnum_def)

lemma in_path_item: "in_re path_item s \<longleftrightarrow>
    (\<exists>c. path_char c \<and> (s = [c] \<or> s = [c, CHR ''.'']))"
  by (auto simp: path_item_def in_Seq_Cls)

lemma in_path_star_Cons:
  "in_re (Star path_item) (c # w) \<longleftrightarrow>
     path_char c \<and> (in_re (Star path_item) w \<or> (\<exists>w'. w = CHR ''.'' # w' \<and> in_re (Star path_item) w'))"
proof
  assume "in_re (Star path_item) (c # w)"
  then show "path_char c \<and> (in_re (Star path_item) w \<or>
      (\<exists>w'. w = CHR ''.'' # w' \<and> in_re (Star path_item) w'))"
    by (auto simp: in_Star_Cons in_path_item)
next
  assume *: "path_char c \<and> (in_re (Star path_item) w \<or>
      (\<exists>w'. w = CHR ''.'' # w' \<and> in_re (Star path_item) w'))"
  then have "in_re path_item [c]" and "in_re path_item [c, CHR ''.'']"
    by (simp_all add: in_path_item)
  then show "in_re (Star path_item) (c # w)"
    using * in_star1 [of path_item "[c]"] in_star1 [of path_item "[c, CHR ''.'']"] by auto
qed

lemma in_path_star: "in_re (Star path_item) s \<longleftrightarrow> s = [] \<or> path_prefix s"
proof (induction s rule: path_prefix.induct)
  case 1
  then show ?case by (simp add: in_star0)
next
  case (2 c)
  then show ?case by (simp add: in_path_star_Cons in_star0)
next
  case (3 c d cs)
  have "\<not> path_prefix (CHR ''.'' # cs)" by (cases cs) auto
  moreover have "\<not> in_re (Star path_item) (CHR ''.'' # cs)" by (simp add: in_path_star_Cons)
  ultimately show ?case using 3 by (auto simp: in_path_star_Cons [of c])
qed

lemma in_path_plus: "in_re (re_plus path_item) s \<longleftrightarrow> path_prefix s"
proof -
  have "in_re (re_plus path_item) s \<longleftrightarrow> s \<noteq> [] \<and> in_re (Star path_item) s"
  proof (cases s)
    case Nil
    then show ?thesis by (auto simp: re_plus_def in_Seq in_path_item)
  next
    case (Cons c cs)
    then show ?thesis
      by (auto simp: re_plus_def in_Seq_Cons in_Star_Cons in_path_item)
  qed
  then show ?thesis using in_path_star [of s] by auto
qed

text \<open>The last code point is not empty, and holds no dot; it holds a separator only if it is that byte.\<close>

lemma byte_in_seps:
  "0x80 \<le> lo \<Longrightarrow> byte_in lo hi c \<Longrightarrow> c \<noteq> CHR ''.'' \<and> c \<noteq> CHR ''~'' \<and> c \<noteq> CHR ''@''"
  by (auto simp: byte_in_def)

lemma utf8_multiD:
  assumes "in_re utf8_multi r"
  shows "r \<noteq> [] \<and> CHR ''.'' \<notin> set r \<and> CHR ''~'' \<notin> set r \<and> CHR ''@'' \<notin> set r"
  using assms unfolding utf8_multi_def in_Alt in_Seq in_Cls
  by (elim disjE exE conjE) (auto dest!: byte_in_seps [rotated])

lemma not_dotD:
  assumes "in_re not_dot r"
  shows "r \<noteq> [] \<and> CHR ''.'' \<notin> set r \<and>
    (CHR ''~'' \<in> set r \<longrightarrow> r = ''~'') \<and> (CHR ''@'' \<in> set r \<longrightarrow> r = ''@'')"
  using assms utf8_multiD [of r] by (auto simp: not_dot_def in_Cls)

lemma not_dot_byte: "c \<noteq> CHR ''.'' \<Longrightarrow> in_re not_dot [c]"
  by (simp add: not_dot_def in_Cls)

text \<open>What \<open>ParseTopic\<close> lets through its first check.\<close>

definition topic_shape :: "string \<Rightarrow> string \<Rightarrow> string \<Rightarrow> string \<Rightarrow> bool" where
  "topic_shape d op p r \<longleftrightarrow>
     list_all name_char d \<and> op \<noteq> [] \<and> list_all name_char op \<and> path_prefix p \<and> in_re not_dot r"

definition with_descriptor :: "string \<Rightarrow> string \<Rightarrow> string" where
  "with_descriptor d s = (if d \<noteq> [] then d @ CHR ''~'' # s else s)"

lemma topic_re_iff:
  "re_test topic_re s \<longleftrightarrow>
     (\<exists>d op p r. topic_shape d op p r \<and> s = with_descriptor d (op @ CHR ''@'' # p @ r))"
proof
  assume "re_test topic_re s"
  then obtain a op p r where a: "in_re (re_opt (Seq (re_plus (Cls name_char)) (re_char CHR ''~''))) a"
    and rest: "op \<noteq> []" "list_all name_char op" "path_prefix p" "in_re not_dot r"
    and s: "s = a @ op @ CHR ''@'' # p @ r"
    unfolding re_test_iff topic_re_def in_Seq [of "re_opt _"] in_Seq [of "re_plus _"] in_Seq_char
      in_re_plus_Cls in_path_plus
    by (elim exE conjE) simp
  from a have "a = [] \<or> (\<exists>d. d \<noteq> [] \<and> list_all name_char d \<and> a = d @ ''~'')"
    by (auto simp: in_Seq [of "re_plus _"] in_re_plus_Cls)
  then show "\<exists>d op p r. topic_shape d op p r \<and> s = with_descriptor d (op @ CHR ''@'' # p @ r)"
  proof
    assume "a = []"
    with rest s have "topic_shape [] op p r \<and> s = with_descriptor [] (op @ CHR ''@'' # p @ r)"
      by (simp add: topic_shape_def with_descriptor_def)
    then show ?thesis by blast
  next
    assume "\<exists>d. d \<noteq> [] \<and> list_all name_char d \<and> a = d @ ''~''"
    then obtain d where "d \<noteq> []" "list_all name_char d" "a = d @ ''~''" by blast
    with rest s have "topic_shape d op p r \<and> s = with_descriptor d (op @ CHR ''@'' # p @ r)"
      by (simp add: topic_shape_def with_descriptor_def)
    then show ?thesis by blast
  qed
next
  assume "\<exists>d op p r. topic_shape d op p r \<and> s = with_descriptor d (op @ CHR ''@'' # p @ r)"
  then obtain d op p r where shape: "topic_shape d op p r"
    and s: "s = with_descriptor d (op @ CHR ''@'' # p @ r)" by blast
  let ?a = "if d \<noteq> [] then d @ ''~'' else []"
  have "in_re (re_opt (Seq (re_plus (Cls name_char)) (re_char CHR ''~''))) ?a"
    using shape by (auto simp: topic_shape_def in_Seq in_re_plus_Cls)
  moreover have "in_re (re_plus (Cls name_char)) op"
    using shape by (simp add: topic_shape_def in_re_plus_Cls)
  moreover have "in_re (re_plus path_item) p"
    using shape by (simp add: topic_shape_def in_path_plus)
  moreover have "in_re not_dot r" using shape by (simp add: topic_shape_def)
  ultimately have "in_re topic_re (?a @ op @ CHR ''@'' # p @ r)"
    unfolding topic_re_def
    using in_seq [of "re_char CHR ''@''" "[CHR ''@'']"] by (intro in_seq) (simp_all add: in_Seq_char in_seq)
  then show "re_test topic_re s"
    using s by (simp add: re_test_iff with_descriptor_def split: if_splits)
qed

section \<open>The parser on a string of that shape\<close>

lemma path_prefix_chars: "path_prefix p \<Longrightarrow> c \<in> set p \<Longrightarrow> path_char c \<or> c = CHR ''.''"
  by (induction p rule: path_prefix.induct) (auto split: if_splits)

lemma path_prefix_seps: "path_prefix p \<Longrightarrow> CHR ''~'' \<notin> set p \<and> CHR ''@'' \<notin> set p \<and> p \<noteq> []"
  using path_prefix_chars [of p "CHR ''~''"] path_prefix_chars [of p "CHR ''@''"] by auto

lemma name_seps:
  "list_all name_char d \<Longrightarrow> CHR ''~'' \<notin> set d \<and> CHR ''@'' \<notin> set d \<and> CHR ''.'' \<notin> set d"
  unfolding list_all_iff using name_char_seps by blast

lemma topic_shapeD:
  assumes "topic_shape d op p r"
  shows "CHR ''~'' \<notin> set d" "CHR ''@'' \<notin> set d" "CHR ''~'' \<notin> set op" "CHR ''@'' \<notin> set op"
    "CHR ''~'' \<notin> set p" "CHR ''@'' \<notin> set p" "op \<noteq> []" "p \<noteq> []" "r \<noteq> []"
  using assms name_seps [of d] name_seps [of op] path_prefix_seps [of p] not_dotD [of r]
  by (simp_all add: topic_shape_def)

lemma topic_shape_last:
  assumes "topic_shape d op p r"
  shows "r \<noteq> ''~'' \<Longrightarrow> CHR ''~'' \<notin> set r" "r \<noteq> ''@'' \<Longrightarrow> CHR ''@'' \<notin> set r" "CHR ''.'' \<notin> set r"
  using assms not_dotD [of r] by (auto simp: topic_shape_def)

lemma split_tilde_shape:
  assumes shape: "topic_shape d op p r"
  shows "split_on CHR ''~'' (with_descriptor d (op @ CHR ''@'' # p @ r)) =
    (if d = [] then [] else [d]) @ (if r = ''~'' then [op @ CHR ''@'' # p, []] else [op @ CHR ''@'' # p @ r])"
proof -
  note sh = topic_shapeD [OF shape]
  have "split_on CHR ''~'' (op @ CHR ''@'' # p @ r) =
      (if r = ''~'' then [op @ CHR ''@'' # p, []] else [op @ CHR ''@'' # p @ r])"
  proof (cases "r = ''~''")
    case True
    then show ?thesis
      using sh split_on_append [of "CHR ''~''" "op @ CHR ''@'' # p" "[]"] by simp
  next
    case False
    then have "CHR ''~'' \<notin> set (op @ CHR ''@'' # p @ r)"
      using sh topic_shape_last(1) [OF shape] by simp
    then show ?thesis using False by simp
  qed
  then show ?thesis using sh(1) by (auto simp: with_descriptor_def split_on_append)
qed

lemma split_at_shape:
  assumes shape: "topic_shape d op p r"
  shows "split_on CHR ''@'' (op @ CHR ''@'' # p @ r) = op # (if r = ''@'' then [p, []] else [p @ r])"
proof (cases "r = ''@''")
  case True
  then show ?thesis
    using topic_shapeD(4,6) [OF shape] split_on_append [of "CHR ''@''" p "[]"]
    by (simp add: split_on_append)
next
  case False
  then have "CHR ''@'' \<notin> set (p @ r)"
    using topic_shapeD(6) [OF shape] topic_shape_last(2) [OF shape] by simp
  then show ?thesis
    using False topic_shapeD(4) [OF shape] by (simp add: split_on_append)
qed

lemma parse_shape:
  assumes shape: "topic_shape d op p r"
  shows "parse_topic (with_descriptor d (op @ CHR ''@'' # p @ r)) =
    (if r = ''~'' then Panic
     else Ret \<lparr>Descriptor = d, Operation = op,
                Path = split_on CHR ''.'' (if r = ''@'' then p else p @ r)\<rparr>)"
proof -
  have re: "re_test topic_re (with_descriptor d (op @ CHR ''@'' # p @ r))"
    using shape topic_re_iff by blast
  show ?thesis
  proof (cases "r = ''~''")
    case True
    have "split_on CHR ''@'' d = [d]" using topic_shapeD(2) [OF shape] by simp
    then show ?thesis
      unfolding parse_topic_def split_tilde_shape [OF shape] Let_def using True re by simp
  next
    case False
    then show ?thesis
      unfolding parse_topic_def split_tilde_shape [OF shape] Let_def
      using re split_at_shape [OF shape] by auto
  qed
qed

lemma parse_topic_Err_iff: "(\<exists>e. parse_topic s = Err e) \<longleftrightarrow> \<not> re_test topic_re s"
proof
  assume "\<exists>e. parse_topic s = Err e"
  then show "\<not> re_test topic_re s"
    using parse_shape topic_re_iff [of s] by (metis outcome.distinct(1,5))
qed (simp add: parse_topic_def)

lemma topic_re_cases:
  assumes "re_test topic_re s"
  obtains d op p r where "topic_shape d op p r" "s = with_descriptor d (op @ CHR ''@'' # p @ r)"
  using assms topic_re_iff by blast

lemma last_shape:
  "topic_shape d op p r \<Longrightarrow> last (with_descriptor d (op @ CHR ''@'' # p @ r)) = last r"
  using topic_shapeD(9) [of d op p r] by (simp add: with_descriptor_def)

lemma last_sep_shape:
  assumes "topic_shape d op p r" and "c = CHR ''~'' \<or> c = CHR ''@''"
  shows "last r = c \<longleftrightarrow> r = [c]"
proof
  assume "last r = c"
  then have "c \<in> set r" using topic_shapeD(9) [OF assms(1)] last_in_set by blast
  then show "r = [c]" using assms(2) topic_shape_last [OF assms(1)] by blast
qed simp

lemma parse_topic_Ret_cases:
  assumes "parse_topic s = Ret t"
  obtains d op p r where "topic_shape d op p r" "s = with_descriptor d (op @ CHR ''@'' # p @ r)"
    "r \<noteq> ''~''" "t = \<lparr>Descriptor = d, Operation = op,
                Path = split_on CHR ''.'' (if r = ''@'' then p else p @ r)\<rparr>"
proof -
  have "re_test topic_re s"
    using assms by (simp add: parse_topic_def split: if_splits)
  then obtain d op p r where sh: "topic_shape d op p r" and s: "s = with_descriptor d (op @ CHR ''@'' # p @ r)"
    by (rule topic_re_cases)
  show thesis
    using that [OF sh s] assms parse_shape [OF sh] s by (simp split: if_splits)
qed

section \<open>Properties of the parser\<close>

text \<open>
  C1. \<open>ParseTopic\<close> panics (index out of range) on exactly the strings that pass the regular
  expression and end in a tilde: the last class \<^verbatim>\<open>[^.]\<close> admits the separator, and the split at the
  tilde then leaves a part without an \<^verbatim>\<open>@\<close>. On every other string it returns a topic or the format
  error, and it returns the error exactly when the regular expression does not match.
\<close>

theorem parse_topic_panics_iff:
  "(parse_topic s = Panic \<longleftrightarrow> re_test topic_re s \<and> last s = CHR ''~'') \<and>
   ((\<exists>e. parse_topic s = Err e) \<longleftrightarrow> \<not> re_test topic_re s)"
proof
  show "parse_topic s = Panic \<longleftrightarrow> re_test topic_re s \<and> last s = CHR ''~''"
  proof (cases "re_test topic_re s")
    case True
    then obtain d op p r where sh: "topic_shape d op p r"
      and s: "s = with_descriptor d (op @ CHR ''@'' # p @ r)" by (rule topic_re_cases)
    show ?thesis
      using True s parse_shape [OF sh] last_shape [OF sh] last_sep_shape [OF sh] by auto
  next
    case False
    then show ?thesis by (simp add: parse_topic_def)
  qed
qed (rule parse_topic_Err_iff)

text \<open>
  Printing what was parsed gives the string back, except that a trailing \<^verbatim>\<open>@\<close> (which the last
  class of the regular expression admits) is dropped by the second split.
\<close>

lemma parse_then_string:
  assumes "parse_topic s = Ret t"
  shows "topic_string t = (if last s = CHR ''@'' then butlast s else s)"
proof -
  from assms obtain d op p r where sh: "topic_shape d op p r"
    and s: "s = with_descriptor d (op @ CHR ''@'' # p @ r)"
    and t: "t = \<lparr>Descriptor = d, Operation = op,
                Path = split_on CHR ''.'' (if r = ''@'' then p else p @ r)\<rparr>"
    by (rule parse_topic_Ret_cases)
  have str: "topic_string t = with_descriptor d (op @ CHR ''@'' # (if r = ''@'' then p else p @ r))"
    by (simp add: t topic_string_def with_descriptor_def Let_def)
  show ?thesis
    using str s last_shape [OF sh] last_sep_shape [OF sh] topic_shapeD(8) [OF sh]
    by (auto simp: with_descriptor_def butlast_append)
qed

lemma parse_then_string_witness:
  "parse_topic ''sub~update@ab.{c}'' = Ret \<lparr>Descriptor = ''sub'', Operation = ''update'', Path = [''ab'', ''{c}'']\<rparr>
   \<and> topic_string \<lparr>Descriptor = ''sub'', Operation = ''update'', Path = [''ab'', ''{c}'']\<rparr> = ''sub~update@ab.{c}''"
proof -
  have p: "parse_topic ''sub~update@ab.{c}'' =
      Ret \<lparr>Descriptor = ''sub'', Operation = ''update'', Path = [''ab'', ''{c}'']\<rparr>"
    by code_simp
  show ?thesis using p parse_then_string [OF p] by simp
qed

text \<open>
  The topics a caller builds from values: names for the descriptor and the operation, at least one
  path element, none empty. The regular expression also asks for two bytes after the \<^verbatim>\<open>@\<close>, one for
  the repeated group and one for the last class, so a path of one byte is no valid topic.
\<close>

definition topic_wf :: "Topic \<Rightarrow> bool" where
  "topic_wf t \<longleftrightarrow> list_all name_char (Descriptor t) \<and> Operation t \<noteq> [] \<and> list_all name_char (Operation t) \<and>
     Path t \<noteq> [] \<and> list_all (\<lambda>w. w \<noteq> [] \<and> list_all path_char w) (Path t) \<and>
     2 \<le> length (join_with ''.'' (Path t))"

lemma path_prefix_butlast:
  assumes "list_all (\<lambda>c. path_char c \<or> c = CHR ''.'') b"
    and "\<forall>w \<in> set (split_on CHR ''.'' b). w \<noteq> []" and "2 \<le> length b"
  shows "path_prefix (butlast b)"
  using assms
proof (induction b rule: path_prefix.induct)
  case (3 c d cs)
  have c: "c \<noteq> CHR ''.''" using "3.prems"(2) by auto
  with "3.prems"(1) have pc: "path_char c" by simp
  show ?case
  proof (cases "cs = []")
    case True
    with pc show ?thesis by simp
  next
    case ne: False
    show ?thesis
    proof (cases "d = CHR ''.''")
      case True
      have "2 \<le> length cs \<Longrightarrow> path_prefix (butlast cs)"
        using "3.IH"(1) True ne "3.prems"(1,2) c by simp
      moreover have "\<not> 2 \<le> length cs \<Longrightarrow> butlast cs = []"
        using ne by (cases cs) (auto simp: not_less_eq_eq)
      ultimately show ?thesis using True ne pc by auto
    next
      case False
      obtain w ws where w: "split_on CHR ''.'' cs = w # ws"
        by (cases "split_on CHR ''.'' cs") auto
      have "path_prefix (butlast (d # cs))"
        using "3.IH"(2) False "3.prems"(1,2) c ne w by (cases cs) auto
      then show ?thesis using False ne pc by simp
    qed
  qed
qed simp_all

lemma join_path_chars:
  assumes "list_all (\<lambda>w. w \<noteq> [] \<and> list_all path_char w) ws"
  shows "list_all (\<lambda>c. path_char c \<or> c = CHR ''.'') (join_with ''.'' ws)"
  using assms
  by (induction "''.''" ws rule: join_with.induct) (auto simp: list_all_iff)

lemma topic_wf_body:
  assumes "topic_wf t"
  obtains p c where "join_with ''.'' (Path t) = p @ [c]"
    "topic_shape (Descriptor t) (Operation t) p [c]" "c \<noteq> CHR ''~''" "c \<noteq> CHR ''@''"
    "split_on CHR ''.'' (join_with ''.'' (Path t)) = Path t"
proof -
  let ?b = "join_with ''.'' (Path t)"
  have ws: "list_all (\<lambda>w. w \<noteq> [] \<and> list_all path_char w) (Path t)" and ne: "Path t \<noteq> []"
    and len: "2 \<le> length ?b"
    using assms by (simp_all add: topic_wf_def)
  have "\<forall>w \<in> set (Path t). CHR ''.'' \<notin> set w"
    using ws unfolding list_all_iff using not_path_char_dot by blast
  then have sp: "split_on CHR ''.'' ?b = Path t"
    using ne by (rule split_on_join [rotated])
  have chars: "list_all (\<lambda>c. path_char c \<or> c = CHR ''.'') ?b"
    using ws by (rule join_path_chars)
  have nonempty: "\<forall>w \<in> set (split_on CHR ''.'' ?b). w \<noteq> []"
    using ws by (simp add: sp list_all_iff)
  obtain p c where pc: "?b = p @ [c]" using len by (cases ?b rule: rev_cases) auto
  have "path_prefix p"
    using path_prefix_butlast [OF chars nonempty len] pc by simp
  moreover have cdot: "c \<noteq> CHR ''.''"
  proof
    assume "c = CHR ''.''"
    then have "?b = p @ CHR ''.'' # []" using pc by simp
    then have "[] \<in> set (split_on CHR ''.'' ?b)"
      by (simp only: split_on_at) simp
    then show False using nonempty by blast
  qed
  moreover have pathc: "path_char c" using chars pc cdot by simp
  moreover have "c \<noteq> CHR ''~''" "c \<noteq> CHR ''@''" using pathc path_char_seps by blast+
  ultimately show thesis
    using that [OF pc _ _ _ sp] assms not_dot_byte [OF cdot]
    by (auto simp: topic_shape_def topic_wf_def)
qed

text \<open>C2. A well-formed topic survives printing and parsing.\<close>

theorem string_then_parse:
  assumes "topic_wf t"
  shows "parse_topic (topic_string t) = Ret t"
proof -
  obtain p c where b: "join_with ''.'' (Path t) = p @ [c]"
    and sh: "topic_shape (Descriptor t) (Operation t) p [c]" and c: "c \<noteq> CHR ''~''" "c \<noteq> CHR ''@''"
    and sp: "split_on CHR ''.'' (join_with ''.'' (Path t)) = Path t"
    using assms by (rule topic_wf_body)
  have "topic_string t = with_descriptor (Descriptor t) (Operation t @ CHR ''@'' # p @ [c])"
    by (simp add: topic_string_def with_descriptor_def b Let_def)
  then show ?thesis
    using parse_shape [OF sh] c sp b by simp
qed

theorem string_then_parse_witness:
  "parse_topic (topic_string \<lparr>Descriptor = ''sub'', Operation = ''update'', Path = [''binance'', ''btc-usdt'']\<rparr>)
     = Ret \<lparr>Descriptor = ''sub'', Operation = ''update'', Path = [''binance'', ''btc-usdt'']\<rparr>"
proof -
  have wf: "topic_wf \<lparr>Descriptor = ''sub'', Operation = ''update'', Path = [''binance'', ''btc-usdt'']\<rparr>"
    by code_simp
  show ?thesis using string_then_parse [OF wf] by simp
qed

text \<open>
  A topic that was parsed can be given any other descriptor and printed, as the server does when
  it answers a \<^verbatim>\<open>sub~\<close> request with \<^verbatim>\<open>pub~\<close> and \<^verbatim>\<open>drop~\<close> events: the new string parses back to the
  same operation and path.
\<close>

lemma parse_redescribe:
  assumes "parse_topic s = Ret t" and "last s \<noteq> CHR ''@''" and "list_all name_char d"
  shows "parse_topic (topic_string (t\<lparr>Descriptor := d\<rparr>)) = Ret (t\<lparr>Descriptor := d\<rparr>)"
proof -
  from assms(1) obtain d0 op p r where sh: "topic_shape d0 op p r"
    and s: "s = with_descriptor d0 (op @ CHR ''@'' # p @ r)" and r: "r \<noteq> ''~''"
    and t: "t = \<lparr>Descriptor = d0, Operation = op,
                Path = split_on CHR ''.'' (if r = ''@'' then p else p @ r)\<rparr>"
    by (rule parse_topic_Ret_cases)
  have r': "r \<noteq> ''@''"
    using assms(2) s last_shape [OF sh] last_sep_shape [OF sh] by auto
  have sh': "topic_shape d op p r"
    using sh assms(3) by (simp add: topic_shape_def)
  have "topic_string (t\<lparr>Descriptor := d\<rparr>) = with_descriptor d (op @ CHR ''@'' # p @ r)"
    using r' by (simp add: t topic_string_def with_descriptor_def Let_def)
  then show ?thesis
    using parse_shape [OF sh'] r r' by (simp add: t)
qed

lemma parse_redescribe_witness:
  "parse_topic (topic_string (\<lparr>Descriptor = ''sub'', Operation = ''update'', Path = [''ab'', ''{c}'']\<rparr>\<lparr>Descriptor := ''pub''\<rparr>))
   = Ret \<lparr>Descriptor = ''pub'', Operation = ''update'', Path = [''ab'', ''{c}'']\<rparr>"
proof -
  have p: "parse_topic ''sub~update@ab.{c}'' =
      Ret \<lparr>Descriptor = ''sub'', Operation = ''update'', Path = [''ab'', ''{c}'']\<rparr>"
    by code_simp
  have l: "last ''sub~update@ab.{c}'' \<noteq> CHR ''@''" and n: "list_all name_char ''pub''"
    by (simp, code_simp)
  show ?thesis using parse_redescribe [OF p l n] by simp
qed

end
