(* ===== verification/Go_Errors.thy ===== *)
theory Go_Errors
  imports Go_Strings
begin

text \<open>
  Go errors as the program sees them: a chain of errors linked by \<open>Unwrap\<close>. A \<open>Plain\<close> error is a
  comparable value (the named errors of the standard library and of the program, or any other one by
  its text), \<open>WrapErr\<close> is \<^verbatim>\<open>fmt.Errorf("...: %w", err)\<close> with its prefix, and \<open>StatusError\<close> is the only
  error type the program declares (\<^verbatim>\<open>internal/errutil/status_error.go\<close>). \<open>err_is\<close> and \<open>as_status\<close>
  are \<^verbatim>\<open>errors.Is\<close> and \<^verbatim>\<open>errors.As\<close> with a \<^verbatim>\<open>*statusError\<close> target.
\<close>

datatype sentinel =
    Canceled | DeadlineExceeded | ConnReset | NetClosed | EOF
  | ErrConnOpen | ErrConnClosed | Other string

text \<open>\<open>StatusError Message InternalCode statusCode err\<close>\<close>

datatype go_error =
    Plain sentinel
  | WrapErr string go_error
  | StatusError string string int "go_error option"

fun err_is :: "go_error \<Rightarrow> sentinel \<Rightarrow> bool" where
  "err_is (Plain s) target = (s = target)"
| "err_is (WrapErr p e) target = err_is e target"
| "err_is (StatusError m c st None) target = False"
| "err_is (StatusError m c st (Some e)) target = err_is e target"

fun as_status :: "go_error \<Rightarrow> (string \<times> string \<times> int \<times> go_error option) option" where
  "as_status (Plain s) = None"
| "as_status (WrapErr p e) = as_status e"
| "as_status (StatusError m c st e) = Some (m, c, st, e)"

fun sentinel_text :: "sentinel \<Rightarrow> string" where
  "sentinel_text Canceled = ''context canceled''"
| "sentinel_text DeadlineExceeded = ''context deadline exceeded''"
| "sentinel_text ConnReset = ''connection reset by peer''"
| "sentinel_text NetClosed = ''use of closed network connection''"
| "sentinel_text EOF = ''EOF''"
| "sentinel_text ErrConnOpen = ''connection is already open''"
| "sentinel_text ErrConnClosed = ''connection is closed''"
| "sentinel_text (Other s) = s"

text \<open>
  \<^verbatim>\<open>fmt.Sprintf\<close> with string arguments, for the verbs \<^verbatim>\<open>%s\<close>, \<^verbatim>\<open>%v\<close> and \<^verbatim>\<open>%%\<close>. Another verb is rendered
  as a bad one (flags and the verbs that quote or hex-encode a string are outside this model).
\<close>

fun sprintf :: "string \<Rightarrow> string list \<Rightarrow> string" where
  "sprintf [] [] = []"
| "sprintf [] (a # as) = ''%!(EXTRA string='' @ join_with '', string='' (a # as) @ '')''"
| "sprintf [c] as = (if c = CHR ''%'' then ''%!(NOVERB)'' else [c]) @ sprintf [] as"
| "sprintf (c # v # f) as =
     (if c \<noteq> CHR ''%'' then c # sprintf (v # f) as
      else if v = CHR ''%'' then CHR ''%'' # sprintf f as
      else case as of
          [] \<Rightarrow> ''%!'' @ [v] @ ''(MISSING)'' @ sprintf f []
        | a # as' \<Rightarrow>
            (if v = CHR ''s'' \<or> v = CHR ''v'' then a
             else ''%!'' @ [v] @ ''(string='' @ a @ '')'') @ sprintf f as')"

lemma sprintf_literal: "CHR ''%'' \<notin> set f \<Longrightarrow> sprintf f [] = f"
  by (induction f "[] :: string list" rule: sprintf.induct) auto

text \<open>\<^verbatim>\<open>strings.ToLower\<close> on ASCII.\<close>

definition lower_char :: "char \<Rightarrow> char" where
  "lower_char c = (let n = (of_char c :: nat) in if 65 \<le> n \<and> n \<le> 90 then char_of (n + 32) else c)"

definition to_lower :: "string \<Rightarrow> string" where
  "to_lower s = map lower_char s"

text \<open>\<^verbatim>\<open>http.StatusText\<close>; a code that is not registered has no text.\<close>

definition status_texts :: "(int \<times> string) list" where
  "status_texts =
    [(100, ''Continue''), (101, ''Switching Protocols''), (102, ''Processing''), (103, ''Early Hints''),
     (200, ''OK''), (201, ''Created''), (202, ''Accepted''), (203, ''Non-Authoritative Information''),
     (204, ''No Content''), (205, ''Reset Content''), (206, ''Partial Content''), (207, ''Multi-Status''),
     (208, ''Already Reported''), (226, ''IM Used''),
     (300, ''Multiple Choices''), (301, ''Moved Permanently''), (302, ''Found''), (303, ''See Other''),
     (304, ''Not Modified''), (305, ''Use Proxy''), (307, ''Temporary Redirect''), (308, ''Permanent Redirect''),
     (400, ''Bad Request''), (401, ''Unauthorized''), (402, ''Payment Required''), (403, ''Forbidden''),
     (404, ''Not Found''), (405, ''Method Not Allowed''), (406, ''Not Acceptable''),
     (407, ''Proxy Authentication Required''), (408, ''Request Timeout''), (409, ''Conflict''), (410, ''Gone''),
     (411, ''Length Required''), (412, ''Precondition Failed''), (413, ''Request Entity Too Large''),
     (414, ''Request URI Too Long''), (415, ''Unsupported Media Type''),
     (416, ''Requested Range Not Satisfiable''), (417, ''Expectation Failed''), (418, ''I'm a teapot''),
     (421, ''Misdirected Request''), (422, ''Unprocessable Entity''), (423, ''Locked''),
     (424, ''Failed Dependency''), (425, ''Too Early''), (426, ''Upgrade Required''),
     (428, ''Precondition Required''), (429, ''Too Many Requests''),
     (431, ''Request Header Fields Too Large''), (451, ''Unavailable For Legal Reasons''),
     (500, ''Internal Server Error''), (501, ''Not Implemented''), (502, ''Bad Gateway''),
     (503, ''Service Unavailable''), (504, ''Gateway Timeout''), (505, ''HTTP Version Not Supported''),
     (506, ''Variant Also Negotiates''), (507, ''Insufficient Storage''), (508, ''Loop Detected''),
     (510, ''Not Extended''), (511, ''Network Authentication Required'')]"

definition status_text :: "int \<Rightarrow> string" where
  "status_text code = (case map_of status_texts code of None \<Rightarrow> '''' | Some t \<Rightarrow> t)"

text \<open>No status text holds a formatting verb, so \<^verbatim>\<open>Sprintf\<close> leaves it alone.\<close>

lemma lower_char_percent: "lower_char c = CHR ''%'' \<longleftrightarrow> c = CHR ''%''"
proof
  assume l: "lower_char c = CHR ''%''"
  show "c = CHR ''%''"
  proof (cases "65 \<le> (of_char c :: nat) \<and> of_char c \<le> (90 :: nat)")
    case True
    with l have "(of_char (char_of (of_char c + 32 :: nat)) :: nat) = of_char (CHR ''%'')"
      by (simp add: lower_char_def Let_def)
    with True show ?thesis by simp
  next
    case False
    with l show ?thesis by (simp add: lower_char_def Let_def)
  qed
qed (simp add: lower_char_def)

lemma status_texts_plain: "list_all (\<lambda>(c, t). CHR ''%'' \<notin> set t) status_texts"
  by (simp add: status_texts_def)

lemma status_text_plain: "CHR ''%'' \<notin> set (to_lower (status_text code))"
proof (cases "map_of status_texts code")
  case None
  then show ?thesis by (simp add: status_text_def to_lower_def)
next
  case (Some t)
  then have "(code, t) \<in> set status_texts" by (rule map_of_SomeD)
  with status_texts_plain have "CHR ''%'' \<notin> set t"
    by (auto simp: list_all_iff)
  with Some show ?thesis
    using lower_char_percent by (force simp: status_text_def to_lower_def)
qed

end
