(* ===== verification/Err_Util.thy ===== *)
theory Err_Util
  imports Go_Errors
begin

text \<open>
  Status errors (\<^verbatim>\<open>internal/errutil/status_error.go\<close>): wrapping, the text of an error, the detection
  that prepares an error for a client, and the status code of an error.
\<close>

section \<open>The operations\<close>

definition wrap :: "go_error option \<Rightarrow> int \<Rightarrow> string \<Rightarrow> string \<Rightarrow> string list \<Rightarrow> go_error" where
  "wrap err statusCode internalCode msg args =
     (let msg = (if msg = '''' then to_lower (status_text statusCode) else msg)
      in StatusError (sprintf msg args) internalCode statusCode err)"

text \<open>\<open>error_text\<close> is \<open>Error\<close> on any error; its \<open>StatusError\<close> equations are \<^verbatim>\<open>statusError.Error\<close>.\<close>

fun error_text :: "go_error \<Rightarrow> string" where
  "error_text (Plain s) = sentinel_text s"
| "error_text (WrapErr p e) = p @ '': '' @ error_text e"
| "error_text (StatusError msg c st (Some e)) = msg @ '': '' @ error_text e"
| "error_text (StatusError msg c st None) = msg"

text \<open>\<open>unwrap\<close> is \<open>Unwrap\<close>; its \<open>StatusError\<close> equation is \<^verbatim>\<open>statusError.Unwrap\<close>.\<close>

fun unwrap :: "go_error \<Rightarrow> go_error option" where
  "unwrap (Plain s) = None"
| "unwrap (WrapErr p e) = Some e"
| "unwrap (StatusError m c st err) = err"

text \<open>\<^verbatim>\<open>errors.Is\<close> and \<^verbatim>\<open>errors.As\<close> on an error that may be nil.\<close>

definition is_opt :: "go_error option \<Rightarrow> sentinel \<Rightarrow> bool" where
  "is_opt err s = (case err of None \<Rightarrow> False | Some e \<Rightarrow> err_is e s)"

definition as_status_opt :: "go_error option \<Rightarrow> (string \<times> string \<times> int \<times> go_error option) option" where
  "as_status_opt err = (case err of None \<Rightarrow> None | Some e \<Rightarrow> as_status e)"

definition detect :: "go_error option \<Rightarrow> go_error" where
  "detect err =
     (if is_opt err Canceled \<or> is_opt err DeadlineExceeded then wrap None 504 ''general'' '''' []
      else case as_status_opt err of
          Some (m, c, st, e) \<Rightarrow>
            if st < 500 then StatusError m c st e else wrap err st ''general'' '''' []
        | None \<Rightarrow> wrap err 500 ''general'' '''' [])"

definition status_code :: "go_error option \<Rightarrow> int" where
  "status_code err = (case as_status_opt err of None \<Rightarrow> 500 | Some (m, c, st, e) \<Rightarrow> st)"

section \<open>Lemmas\<close>

lemma wrap_default:
  "wrap err st c '''' [] = StatusError (to_lower (status_text st)) c st err"
  by (simp add: wrap_def sprintf_literal status_text_plain)

text \<open>\<^verbatim>\<open>errors.Is\<close> is the walk along \<open>Unwrap\<close> that the standard library documents.\<close>

lemma err_is_unwrap:
  "err_is e t \<longleftrightarrow> e = Plain t \<or> (\<exists>e'. unwrap e = Some e' \<and> err_is e' t)"
  by (cases "(e, t)" rule: err_is.cases) auto

text \<open>
  What \<open>Detect\<close> shows to a client: the result is always a status error; below 500 it is the
  status error found in the chain, unchanged, and the error was no cancellation; from 500 on its
  message is the lower-case status text and its code is \<open>general\<close>, so nothing of the wrapped error's
  own text is in the visible fields.
\<close>

lemma detect_hides_internals:
  "\<exists>m c st e. detect err = StatusError m c st e \<and>
     (if st < 500
      then as_status_opt err = Some (m, c, st, e) \<and> \<not> is_opt err Canceled \<and> \<not> is_opt err DeadlineExceeded
      else m = to_lower (status_text st) \<and> c = ''general'')"
  by (auto simp: detect_def wrap_default split: option.splits)

text \<open>
  The status code the server answers with: 504 for a cancelled or timed-out error, otherwise
  the code of the outermost status error of the chain, otherwise 500.
\<close>

lemma status_code_detect:
  "status_code (Some (detect err)) =
     (if is_opt err Canceled \<or> is_opt err DeadlineExceeded then 504 else status_code err)"
  by (auto simp: detect_def status_code_def wrap_default as_status_opt_def split: option.splits)

end
