(* ===== verification/Ctx_Util.thy ===== *)
theory Ctx_Util
  imports Err_Util
begin

text \<open>
  Contexts. The standard library's contexts that the program builds (\<open>Background\<close>, \<open>WithValue\<close>,
  \<open>WithCancel\<close>, \<open>WithDeadline\<close>) and the program's own combined context (\<open>Multi\<close>,
  \<^verbatim>\<open>internal/ctxutil/ctxutil.go\<close>) form one datatype; the lookups of a value and of a deadline
  recurse through it. The cancellation state of a combined context is the record \<open>multiCtx\<close>, its
  \<open>cancel\<close> an operation on it, and the goroutines of \<open>run\<close> a step relation.
\<close>

section \<open>Contexts, values and deadlines\<close>

text \<open>The keys of the program have types of their own, so no two are equal.\<close>

datatype ctx_key = WsCtxID | TopicParamsKey | RetryKey | UserKey string

datatype ctx_val = StrVal string | ParamsVal "(string, string) gomap" | OpaqueVal nat

datatype ctx =
    Background
  | WithValue ctx ctx_key ctx_val
  | WithCancel nat ctx
  | WithDeadline nat ctx
  | Multi "ctx list"

text \<open>\<open>multi_value\<close> is the loop of \<^verbatim>\<open>multiCtx.Value\<close>; \<open>None\<close> is Go's nil.\<close>

fun ctx_value :: "ctx \<Rightarrow> ctx_key \<Rightarrow> ctx_val option"
  and multi_value :: "ctx list \<Rightarrow> ctx_key \<Rightarrow> ctx_val option" where
  "ctx_value Background k = None"
| "ctx_value (WithValue c k v) k' = (if k' = k then Some v else ctx_value c k')"
| "ctx_value (WithCancel i c) k = ctx_value c k"
| "ctx_value (WithDeadline d c) k = ctx_value c k"
| "ctx_value (Multi cs) k = multi_value cs k"
| "multi_value [] k = None"
| "multi_value (c # cs) k = (case ctx_value c k of Some v \<Rightarrow> Some v | None \<Rightarrow> multi_value cs k)"

text \<open>
  \<open>multi_deadline\<close> is the loop of \<^verbatim>\<open>multiCtx.Deadline\<close>; its accumulator is the pair of the named
  results, \<open>None\<close> for \<^verbatim>\<open>ok == false\<close>.
\<close>

fun ctx_deadline :: "ctx \<Rightarrow> nat option"
  and multi_deadline :: "nat option \<Rightarrow> ctx list \<Rightarrow> nat option" where
  "ctx_deadline Background = None"
| "ctx_deadline (WithValue c k v) = ctx_deadline c"
| "ctx_deadline (WithCancel i c) = ctx_deadline c"
| "ctx_deadline (WithDeadline d c) =
     (case ctx_deadline c of None \<Rightarrow> Some d | Some d' \<Rightarrow> Some (min d' d))"
| "ctx_deadline (Multi cs) = multi_deadline None cs"
| "multi_deadline acc [] = acc"
| "multi_deadline None (c # cs) = multi_deadline (ctx_deadline c) cs"
| "multi_deadline (Some deadline) (c # cs) =
     (case ctx_deadline c of
        None \<Rightarrow> multi_deadline (Some deadline) cs
      | Some d \<Rightarrow> if \<not> d < deadline then multi_deadline (Some deadline) cs
                  else multi_deadline (Some d) cs)"

lemma multi_value_iff:
  "multi_value cs k = Some v \<longleftrightarrow>
     (\<exists>as c bs. cs = as @ c # bs \<and> ctx_value c k = Some v \<and> (\<forall>a \<in> set as. ctx_value a k = None))"
proof (induction cs)
  case Nil
  then show ?case by simp
next
  case (Cons c cs)
  show ?case
  proof (cases "ctx_value c k")
    case None
    have "(\<exists>as d bs. c # cs = as @ d # bs \<and> ctx_value d k = Some v \<and> (\<forall>a \<in> set as. ctx_value a k = None))
      \<longleftrightarrow> (\<exists>as d bs. cs = as @ d # bs \<and> ctx_value d k = Some v \<and> (\<forall>a \<in> set as. ctx_value a k = None))"
      (is "?L \<longleftrightarrow> ?R")
    proof
      assume ?L
      then obtain as d bs where "c # cs = as @ d # bs" "ctx_value d k = Some v"
        "\<forall>a \<in> set as. ctx_value a k = None" by blast
      with None show ?R by (cases as) auto
    next
      assume ?R
      then obtain as d bs where "cs = as @ d # bs" "ctx_value d k = Some v"
        "\<forall>a \<in> set as. ctx_value a k = None" by blast
      with None show ?L by (intro exI [of _ "c # as"] exI [of _ d] exI [of _ bs]) simp
    qed
    with None Cons show ?thesis by simp
  next
    case (Some w)
    show ?thesis
    proof
      assume "multi_value (c # cs) k = Some v"
      with Some show "\<exists>as d bs. c # cs = as @ d # bs \<and> ctx_value d k = Some v \<and>
          (\<forall>a \<in> set as. ctx_value a k = None)"
        by (intro exI [of _ "[]"] exI [of _ c] exI [of _ cs]) simp
    next
      assume "\<exists>as d bs. c # cs = as @ d # bs \<and> ctx_value d k = Some v \<and>
          (\<forall>a \<in> set as. ctx_value a k = None)"
      then obtain as d bs where "c # cs = as @ d # bs" "ctx_value d k = Some v"
        "\<forall>a \<in> set as. ctx_value a k = None" by blast
      with Some show "multi_value (c # cs) k = Some v" by (cases as) auto
    qed
  qed
qed

text \<open>The deadlines that the loop has to choose from.\<close>

definition deadlines :: "ctx list \<Rightarrow> nat set" where
  "deadlines cs = {d. \<exists>c \<in> set cs. ctx_deadline c = Some d}"

lemma deadlines_Nil [simp]: "deadlines [] = {}"
  by (simp add: deadlines_def)

lemma deadlines_Cons:
  "deadlines (c # cs) = (case ctx_deadline c of None \<Rightarrow> {} | Some d \<Rightarrow> {d}) \<union> deadlines cs"
  by (auto simp: deadlines_def split: option.splits)

lemma finite_deadlines [simp]: "finite (deadlines cs)"
  by (induction cs) (auto simp: deadlines_Cons split: option.splits)

lemma multi_deadline_Some:
  "multi_deadline (Some d) cs = Some (Min (insert d (deadlines cs)))"
proof (induction cs arbitrary: d)
  case Nil
  then show ?case by simp
next
  case (Cons c cs)
  show ?case
  proof (cases "ctx_deadline c")
    case None
    with Cons show ?thesis by (simp add: deadlines_Cons)
  next
    case (Some e)
    have "Min (insert d (insert e (deadlines cs))) = Min (insert (min d e) (deadlines cs))"
      by (cases "deadlines cs = {}") (simp_all add: min.assoc)
    with Some Cons show ?thesis
      by (auto simp: deadlines_Cons min_def)
  qed
qed

text \<open>
  The deadline of a combined context is the earliest of its parts' deadlines, and it has none
  exactly when no part has one.
\<close>

lemma multi_deadline_earliest:
  "multi_deadline None cs = (if deadlines cs = {} then None else Some (Min (deadlines cs)))"
proof (induction cs)
  case Nil
  then show ?case by simp
next
  case (Cons c cs)
  then show ?case
    by (cases "ctx_deadline c") (simp_all add: deadlines_Cons multi_deadline_Some)
qed

section \<open>Interrupted errors\<close>

definition is_interrupted :: "go_error \<Rightarrow> bool" where
  "is_interrupted err = (err_is err Canceled \<or> err_is err DeadlineExceeded)"

section \<open>Cancellation of a combined context\<close>

text \<open>
  \<open>m_closes\<close> counts how often the \<^verbatim>\<open>done\<close> channel was closed: closing it twice would be a panic, and
  \<^verbatim>\<open>Done\<close> is readable once it is positive.
\<close>

record multiCtx =
  m_ctxs :: "ctx list"
  m_err :: "sentinel option"
  m_closes :: nat

definition multi_context :: "ctx list \<Rightarrow> multiCtx" where
  "multi_context ctxs = \<lparr>m_ctxs = ctxs, m_err = None, m_closes = 0\<rparr>"

definition multi_err :: "multiCtx \<Rightarrow> sentinel option" where
  "multi_err m = m_err m"

definition multi_done :: "multiCtx \<Rightarrow> bool" where
  "multi_done m = (0 < m_closes m)"

definition multi_cancel :: "sentinel \<Rightarrow> multiCtx \<Rightarrow> multiCtx" where
  "multi_cancel err m =
     (if m_err m \<noteq> None then m else m\<lparr>m_err := Some err, m_closes := Suc (m_closes m)\<rparr>)"

text \<open>
  The steps of one combined context, with the errors of its parts as the environment (\<open>errs i\<close> is
  the error of part \<open>i\<close> once that part is done): the cancel function that the constructor returns,
  and the goroutine of \<^verbatim>\<open>run\<close> that watches part \<open>i\<close>. The other branch of that goroutine's \<^verbatim>\<open>select\<close>
  changes nothing.
\<close>

inductive multi_step :: "(nat \<Rightarrow> sentinel option) \<Rightarrow> multiCtx \<Rightarrow> multiCtx \<Rightarrow> bool"
  for errs :: "nat \<Rightarrow> sentinel option" where
  cancel_fn: "multi_step errs m (multi_cancel Canceled m)"
| watcher: "i < length (m_ctxs m) \<Longrightarrow> errs i = Some e \<Longrightarrow> multi_step errs m (multi_cancel e m)"

inductive multi_steps :: "(nat \<Rightarrow> sentinel option) \<Rightarrow> multiCtx \<Rightarrow> multiCtx \<Rightarrow> bool"
  for errs :: "nat \<Rightarrow> sentinel option" where
  multi_refl: "multi_steps errs m m"
| multi_trans: "multi_steps errs m m' \<Longrightarrow> multi_step errs m' m'' \<Longrightarrow> multi_steps errs m m''"

definition multi_inv :: "(nat \<Rightarrow> sentinel option) \<Rightarrow> multiCtx \<Rightarrow> bool" where
  "multi_inv errs m \<longleftrightarrow>
     m_closes m \<le> 1 \<and> (m_err m = None \<longleftrightarrow> m_closes m = 0) \<and>
     (\<forall>e. m_err m = Some e \<longrightarrow> e = Canceled \<or> (\<exists>i < length (m_ctxs m). errs i = Some e))"

lemma multi_step_inv: "multi_step errs m m' \<Longrightarrow> multi_inv errs m \<Longrightarrow> multi_inv errs m'"
  by (induction rule: multi_step.induct) (auto simp: multi_inv_def multi_cancel_def)

lemma multi_steps_inv: "multi_steps errs m m' \<Longrightarrow> multi_inv errs m \<Longrightarrow> multi_inv errs m'"
  by (induction rule: multi_steps.induct) (auto intro: multi_step_inv)

lemma multi_steps_err: "multi_steps errs m m' \<Longrightarrow> m_err m = Some e \<Longrightarrow> m_err m' = Some e"
  by (induction rule: multi_steps.induct) (auto elim!: multi_step.cases simp: multi_cancel_def)

text \<open>
  A combined context, whatever its watchers and its cancel function do and in whatever order:
  the done channel is closed at most once; \<open>Err\<close> is nil exactly while \<open>Done\<close> is open; the error is
  the cancellation error or the error of one of the parts; and once \<open>Err\<close> is not nil it never changes.
\<close>

lemma multi_context_cancellation:
  assumes "multi_steps errs (multi_context ctxs) m"
  shows "m_closes m \<le> 1 \<and> (multi_err m = None \<longleftrightarrow> \<not> multi_done m) \<and>
    (\<forall>e. multi_err m = Some e \<longrightarrow> (e = Canceled \<or> (\<exists>i < length (m_ctxs m). errs i = Some e)) \<and>
       (\<forall>m'. multi_steps errs m m' \<longrightarrow> multi_err m' = Some e))"
proof -
  have "multi_inv errs (multi_context ctxs)"
    by (simp add: multi_inv_def multi_context_def)
  with assms have "multi_inv errs m" by (rule multi_steps_inv)
  then show ?thesis
    by (auto simp: multi_inv_def multi_err_def multi_done_def intro: multi_steps_err)
qed

lemma multi_context_cancellation_witness:
  "m_closes (multi_cancel Canceled (multi_cancel DeadlineExceeded (multi_context [Background]))) \<le> 1"
proof -
  let ?errs = "\<lambda>i. if i = (0::nat) then Some DeadlineExceeded else None"
  have "multi_steps ?errs (multi_context [Background]) (multi_cancel DeadlineExceeded (multi_context [Background]))"
    by (rule multi_trans [OF multi_refl], rule watcher [of 0]) (simp_all add: multi_context_def)
  then have s: "multi_steps ?errs (multi_context [Background])
      (multi_cancel Canceled (multi_cancel DeadlineExceeded (multi_context [Background])))"
    by (rule multi_trans) (rule cancel_fn)
  show ?thesis using multi_context_cancellation [OF s] by simp
qed

end
