(* ===== verification/Ws_Topic.thy ===== *)
theory Ws_Topic
  imports Ws_Util Ctx_Util
begin

text \<open>
  One topic of the server (\<^verbatim>\<open>wsserver/topic.go\<close> from \<^verbatim>\<open>type topic\<close> on): patterns with placeholders,
  topic parameters in contexts, the subscriber list with its four kinds of event functions, and
  publishing and dropping. Every exported and unexported method of \<^verbatim>\<open>topic\<close> is a function that takes
  the topic and returns the new one with the calls it makes, in order.

  A connection is its pointer and its context, which no code of the program assigns after
  \<^verbatim>\<open>newConn\<close>. A function registered for an event is known by a number. Starting a goroutine on the
  third-party supervisor is recorded as the call it makes (\<open>event_call\<close>). The methods hold the
  topic's lock, so each is one step.
\<close>

section \<open>Patterns\<close>

type_synonym params = "(string, string) gomap"

record pathElem =
  pe_placeholder :: bool
  pe_value :: string

record pattern =
  p_topic :: Topic
  p_path :: "pathElem list"
  p_hasPlaceholders :: bool

text \<open>The body of the loop of \<^verbatim>\<open>newPattern\<close>.\<close>

definition new_path_elem :: "string \<Rightarrow> pathElem" where
  "new_path_elem elem =
     (if has_prefix elem ''{'' \<and> has_suffix elem ''}''
      then \<lparr>pe_placeholder = True, pe_value = trim_suffix (trim_prefix elem ''{'') ''}''\<rparr>
      else \<lparr>pe_placeholder = False, pe_value = elem\<rparr>)"

fun new_pattern_loop :: "pattern \<Rightarrow> string list \<Rightarrow> pattern" where
  "new_pattern_loop p [] = p"
| "new_pattern_loop p (elem # elems) =
     (let pElem = new_path_elem elem
      in new_pattern_loop
           (p\<lparr>p_path := p_path p @ [pElem],
              p_hasPlaceholders := p_hasPlaceholders p \<or> pe_placeholder pElem\<rparr>) elems)"

definition new_pattern :: "Topic \<Rightarrow> pattern" where
  "new_pattern tpc =
     new_pattern_loop \<lparr>p_topic = tpc, p_path = [], p_hasPlaceholders = False\<rparr> (Path tpc)"

text \<open>Indexing a parameter map: the empty string for a missing key.\<close>

definition param_get :: "params \<Rightarrow> string \<Rightarrow> string" where
  "param_get params k = (case gm_get params k of None \<Rightarrow> '''' | Some v \<Rightarrow> v)"

definition pattern_format :: "pattern \<Rightarrow> params \<Rightarrow> string" where
  "pattern_format p params =
     topic_string ((p_topic p)\<lparr>Path :=
       map (\<lambda>elem. if pe_placeholder elem then param_get params (pe_value elem) else pe_value elem)
         (p_path p)\<rparr>)"

section \<open>Topic parameters\<close>

definition new_topic_params_context :: "ctx \<Rightarrow> params \<Rightarrow> ctx" where
  "new_topic_params_context c params =
     (if gm_len params = 0 then c else WithValue c TopicParamsKey (ParamsVal params))"

definition topic_param_from_context :: "ctx \<Rightarrow> string \<Rightarrow> string" where
  "topic_param_from_context c key =
     (case ctx_value c TopicParamsKey of
        Some (ParamsVal params) \<Rightarrow> if gm_len params = 0 then '''' else param_get params key
      | _ \<Rightarrow> '''')"

definition are_topic_params_equal :: "params \<Rightarrow> params \<Rightarrow> bool" where
  "are_topic_params_equal params1 params2 =
     list_all (\<lambda>(k1, v1). case gm_get params2 k1 of None \<Rightarrow> False | Some v2 \<Rightarrow> v2 = v1) params1"

section \<open>Topics\<close>

record conn =
  c_ptr :: nat
  c_ctx :: ctx

type_synonym middleware = "ctx \<Rightarrow> string \<Rightarrow> bool"

record topic =
  t_pattern :: pattern
  t_middlewares :: "middleware list"
  t_supv :: ctx
  t_subs :: "(conn, params list) gomap"
  t_sub_fns :: "nat list"
  t_unsub_fns :: "nat list"
  t_first_sub_fns :: "nat list"
  t_last_unsub_fns :: "nat list"

datatype event_call =
    CallSub nat ctx | CallUnsub nat ctx | CallFirstSub nat ctx | CallLastUnsub nat ctx

text \<open>The context of the topic's supervisor is \<open>supv\<close>.\<close>

definition new_topic :: "ctx \<Rightarrow> Topic \<Rightarrow> middleware list \<Rightarrow> topic" where
  "new_topic supv tpc middlewares =
     \<lparr>t_pattern = new_pattern tpc, t_middlewares = middlewares, t_supv = supv, t_subs = [],
      t_sub_fns = [], t_unsub_fns = [], t_first_sub_fns = [], t_last_unsub_fns = []\<rparr>"

definition on_sub :: "nat \<Rightarrow> topic \<Rightarrow> topic" where
  "on_sub fn t = t\<lparr>t_sub_fns := t_sub_fns t @ [fn]\<rparr>"

definition on_unsub :: "nat \<Rightarrow> topic \<Rightarrow> topic" where
  "on_unsub fn t = t\<lparr>t_unsub_fns := t_unsub_fns t @ [fn]\<rparr>"

definition on_first_sub :: "nat \<Rightarrow> topic \<Rightarrow> topic" where
  "on_first_sub fn t = t\<lparr>t_first_sub_fns := t_first_sub_fns t @ [fn]\<rparr>"

definition on_last_unsub :: "nat \<Rightarrow> topic \<Rightarrow> topic" where
  "on_last_unsub fn t = t\<lparr>t_last_unsub_fns := t_last_unsub_fns t @ [fn]\<rparr>"

definition exec_sub_fns :: "topic \<Rightarrow> ctx \<Rightarrow> event_call list" where
  "exec_sub_fns t c = map (\<lambda>fn. CallSub fn (Multi [c, t_supv t])) (t_sub_fns t)"

definition exec_unsub_fns :: "topic \<Rightarrow> ctx \<Rightarrow> event_call list" where
  "exec_unsub_fns t c = map (\<lambda>fn. CallUnsub fn (Multi [c, t_supv t])) (t_unsub_fns t)"

definition exec_first_sub_fns :: "topic \<Rightarrow> event_call list" where
  "exec_first_sub_fns t = map (\<lambda>fn. CallFirstSub fn (t_supv t)) (t_first_sub_fns t)"

definition exec_last_unsub_fns :: "topic \<Rightarrow> event_call list" where
  "exec_last_unsub_fns t = map (\<lambda>fn. CallLastUnsub fn (t_supv t)) (t_last_unsub_fns t)"

subsection \<open>Subscribing and unsubscribing\<close>

definition add_sub :: "topic \<Rightarrow> conn \<Rightarrow> params \<Rightarrow> topic \<times> event_call list" where
  "add_sub t sub params =
     (let found = gm_get (t_subs t) sub;
          pp = (case found of None \<Rightarrow> [] | Some pp \<Rightarrow> pp)
      in if found \<noteq> None \<and>
            (\<not> p_hasPlaceholders (t_pattern t) \<or> list_ex (are_topic_params_equal params) pp)
         then (t, [])
         else
           let first = (if gm_len (t_subs t) = 0 then exec_first_sub_fns t else []);
               t' = t\<lparr>t_subs := gm_set (t_subs t) sub (pp @ [params])\<rparr>
           in (t', first @ exec_sub_fns t' (new_topic_params_context (c_ctx sub) params)))"

definition remove_sub :: "topic \<Rightarrow> conn \<Rightarrow> params \<Rightarrow> topic \<times> event_call list" where
  "remove_sub t sub params =
     (case gm_get (t_subs t) sub of
        None \<Rightarrow> (t, [])
      | Some pp \<Rightarrow>
          let subs' =
                (if p_hasPlaceholders (t_pattern t)
                 then
                   let pp' = (case index_of (are_topic_params_equal params) pp of
                                None \<Rightarrow> pp | Some i \<Rightarrow> swap_delete i pp)
                   in if length pp' = 0 then gm_del (t_subs t) sub else gm_set (t_subs t) sub pp'
                 else gm_del (t_subs t) sub);
              t' = t\<lparr>t_subs := subs'\<rparr>;
              unsub = exec_unsub_fns t' (new_topic_params_context (c_ctx sub) params)
          in (t', unsub @ (if gm_len (t_subs t') = 0 then exec_last_unsub_fns t' else [])))"

definition remove_conn :: "topic \<Rightarrow> conn \<Rightarrow> topic \<times> event_call list" where
  "remove_conn t c =
     (case gm_get (t_subs t) c of
        None \<Rightarrow> (t, [])
      | Some pp \<Rightarrow>
          let unsub = concat (map (\<lambda>params. exec_unsub_fns t (new_topic_params_context (c_ctx c) params)) pp);
              t' = t\<lparr>t_subs := gm_del (t_subs t) c\<rparr>
          in (t', unsub @ (if gm_len (t_subs t') = 0 then exec_last_unsub_fns t' else [])))"

subsection \<open>Publishing\<close>

text \<open>
  The payload is any Go value ('p), and what \<^verbatim>\<open>json.Marshal\<close> makes of it is up to its type, so the
  encoder is the parameter \<open>marshal\<close> of the data map. \<open>accept c\<close> says which branch the \<^verbatim>\<open>select\<close> of
  \<^verbatim>\<open>conn.publish\<close> takes: the writer of \<open>c\<close> received the bytes, or a context was done.
\<close>

datatype 'p json = JStr string | JPayload 'p

type_synonym 'p data = "(string, 'p json) gomap"
type_synonym 'p marshal = "'p data \<Rightarrow> go_error + string"

datatype pub_call = Sent conn string | Skipped conn | EncodeFailed conn go_error

definition conn_publish :: "(conn \<Rightarrow> bool) \<Rightarrow> conn \<Rightarrow> go_error + string \<Rightarrow> pub_call" where
  "conn_publish accept c data =
     (case data of
        Inl err \<Rightarrow> EncodeFailed c err
      | Inr bb \<Rightarrow> if accept c then Sent c bb else Skipped c)"

text \<open>
  The closure that encodes at most once per raw topic: the event, the presets, and the raw topics
  that were really encoded in this call.
\<close>

definition preset_data ::
  "'p marshal \<Rightarrow> 'p data \<Rightarrow> (string, go_error + string) gomap \<Rightarrow> string \<Rightarrow>
   (go_error + string) \<times> (string, go_error + string) gomap \<times> string list" where
  "preset_data marshal data presets rawTopic =
     (case gm_get presets rawTopic of
        Some preset \<Rightarrow> (preset, presets, [])
      | None \<Rightarrow>
          let topicData = gm_set data ''topic'' (JStr rawTopic);
              preset = marshal topicData
          in (preset, gm_set presets rawTopic preset, [rawTopic]))"

text \<open>
  The goroutines of \<^verbatim>\<open>topic.publish\<close>, one per connection and parameter map, in the order in which
  they reach the lock of the presets.
\<close>

fun publish_jobs ::
  "'p marshal \<Rightarrow> (conn \<Rightarrow> bool) \<Rightarrow> pattern \<Rightarrow> 'p data \<Rightarrow> middleware list \<Rightarrow>
   (string, go_error + string) gomap \<Rightarrow> (conn \<times> params) list \<Rightarrow> pub_call list \<times> string list" where
  "publish_jobs marshal accept ptrn data middlewares presets [] = ([], [])"
| "publish_jobs marshal accept ptrn data middlewares presets ((sub, params) # jobs) =
     (let subCtx = new_topic_params_context (c_ctx sub) params;
          rawTopic = pattern_format ptrn params
      in if \<not> list_all (\<lambda>mfn. mfn subCtx rawTopic) middlewares
         then publish_jobs marshal accept ptrn data middlewares presets jobs
         else
           let (ev, presets', enc) = preset_data marshal data presets rawTopic;
               (calls, encs) = publish_jobs marshal accept ptrn data middlewares presets' jobs
           in (conn_publish accept sub ev # calls, enc @ encs))"

definition jobs_of :: "(conn, params list) gomap \<Rightarrow> (conn \<times> params) list" where
  "jobs_of subs = concat (map (\<lambda>(sub, pp). map (Pair sub) pp) subs)"

text \<open>\<open>sched\<close> is the order in which the scheduler runs the goroutines.\<close>

definition publish ::
  "'p marshal \<Rightarrow> (conn \<Rightarrow> bool) \<Rightarrow> ((conn \<times> params) list \<Rightarrow> (conn \<times> params) list) \<Rightarrow> pattern \<Rightarrow>
   (conn, params list) gomap \<Rightarrow> 'p data \<Rightarrow> middleware list \<Rightarrow> pub_call list \<times> string list" where
  "publish marshal accept sched ptrn subs data middlewares =
     publish_jobs marshal accept ptrn data middlewares [] (sched (jobs_of subs))"

definition descriptor_pub :: string where "descriptor_pub = ''pub''"

definition descriptor_drop :: string where "descriptor_drop = ''drop''"

definition descriptor_sub :: string where "descriptor_sub = ''sub''"

definition descriptor_unsub :: string where "descriptor_unsub = ''unsub''"

definition with_topic_descriptor :: "pattern \<Rightarrow> string \<Rightarrow> pattern" where
  "with_topic_descriptor p d = p\<lparr>p_topic := (p_topic p)\<lparr>Descriptor := d\<rparr>\<rparr>"

definition publish_many ::
  "'p marshal \<Rightarrow> (conn \<Rightarrow> bool) \<Rightarrow> ((conn \<times> params) list \<Rightarrow> (conn \<times> params) list) \<Rightarrow> topic \<Rightarrow>
   'p \<Rightarrow> middleware option \<Rightarrow> pub_call list \<times> string list" where
  "publish_many marshal accept sched t payload filt =
     (let middlewares = t_middlewares t @ (case filt of None \<Rightarrow> [] | Some f \<Rightarrow> [f]);
          ptrn = with_topic_descriptor (t_pattern t) descriptor_pub;
          data = [(''payload'', JPayload payload)]
      in publish marshal accept sched ptrn (t_subs t) data middlewares)"

definition publish_one ::
  "'p marshal \<Rightarrow> (conn \<Rightarrow> bool) \<Rightarrow> ((conn \<times> params) list \<Rightarrow> (conn \<times> params) list) \<Rightarrow> topic \<Rightarrow>
   ctx \<Rightarrow> 'p \<Rightarrow> pub_call list \<times> string list" where
  "publish_one marshal accept sched t c payload =
     (case ctx_value c WsCtxID of
        None \<Rightarrow> ([], [])
      | Some i \<Rightarrow> publish_many marshal accept sched t payload (Some (\<lambda>c' _. ctx_value c' WsCtxID = Some i)))"

subsection \<open>Dropping\<close>

text \<open>The inner loop of \<^verbatim>\<open>DropMany\<close>: dropped and retained parameter maps of one connection.\<close>

fun drop_params ::
  "topic \<Rightarrow> middleware option \<Rightarrow> conn \<Rightarrow> params list \<Rightarrow> params list \<times> params list \<times> event_call list" where
  "drop_params t filt sub [] = ([], [], [])"
| "drop_params t filt sub (params # pp) =
     (let subCtx = new_topic_params_context (c_ctx sub) params;
          rawTopic = pattern_format (t_pattern t) params;
          (dropped, retained, calls) = drop_params t filt sub pp
      in if (case filt of None \<Rightarrow> True | Some f \<Rightarrow> f subCtx rawTopic)
         then (params # dropped, retained, exec_unsub_fns t subCtx @ calls)
         else (dropped, params # retained, calls))"

text \<open>The outer loop, over the subscribers in the order of this run.\<close>

fun drop_conns ::
  "topic \<Rightarrow> middleware option \<Rightarrow> (conn, params list) gomap \<Rightarrow> (conn, params list) gomap \<Rightarrow> conn list \<Rightarrow>
   (conn, params list) gomap \<times> (conn, params list) gomap \<times> event_call list" where
  "drop_conns t filt subs droppedSubs [] = (subs, droppedSubs, [])"
| "drop_conns t filt subs droppedSubs (sub # ord) =
     (let pp = (case gm_get (t_subs t) sub of None \<Rightarrow> [] | Some pp \<Rightarrow> pp);
          (dropped, retained, calls) = drop_params t filt sub pp;
          droppedSubs' = (if length dropped > 0 then gm_set droppedSubs sub dropped else droppedSubs);
          subs' = (if length retained = 0 then gm_del subs sub else gm_set subs sub retained);
          (subs'', droppedSubs'', calls') = drop_conns t filt subs' droppedSubs' ord
      in (subs'', droppedSubs'', calls @ calls'))"

definition drop_many ::
  "'p marshal \<Rightarrow> (conn \<Rightarrow> bool) \<Rightarrow> ((conn \<times> params) list \<Rightarrow> (conn \<times> params) list) \<Rightarrow> conn list \<Rightarrow>
   topic \<Rightarrow> string \<Rightarrow> middleware option \<Rightarrow> topic \<times> event_call list \<times> pub_call list" where
  "drop_many marshal accept sched ord t reason filt =
     (let (subs', droppedSubs, calls) = drop_conns t filt (t_subs t) [] ord;
          t' = t\<lparr>t_subs := subs'\<rparr>;
          last = (if gm_len subs' = 0 \<and> gm_len droppedSubs > 0 then exec_last_unsub_fns t' else []);
          ptrn = with_topic_descriptor (t_pattern t) descriptor_drop;
          data = (if reason \<noteq> '''' then [(''reason'', JStr reason)] else [])
      in (t', calls @ last, fst (publish marshal accept sched ptrn droppedSubs data [])))"

definition drop_one ::
  "'p marshal \<Rightarrow> (conn \<Rightarrow> bool) \<Rightarrow> ((conn \<times> params) list \<Rightarrow> (conn \<times> params) list) \<Rightarrow> conn list \<Rightarrow>
   topic \<Rightarrow> ctx \<Rightarrow> string \<Rightarrow> topic \<times> event_call list \<times> pub_call list" where
  "drop_one marshal accept sched ord t c reason =
     (case ctx_value c WsCtxID of
        None \<Rightarrow> (t, [], [])
      | Some i \<Rightarrow> drop_many marshal accept sched ord t reason (Some (\<lambda>c' _. ctx_value c' WsCtxID = Some i)))"

end
