(* ===== verification/Ws_Topic_Subs.thy ===== *)
theory Ws_Topic_Subs
  imports Ws_Topic
begin

text \<open>
  The subscriber list of a topic. The specification of the component is a set of pairs of a
  connection and the values of the topic parameters (\<open>subscriptions\<close>); \<open>topic_inv\<close> is the invariant
  of the representation. Each operation is shown to keep the invariant, to be the expected operation
  on the set, and to make the expected calls of event functions. The interface \<open>topic_events\<close> states
  what makes the first/last callbacks usable as a resource counter; it is proved for the model's
  operations, and its consequence over any sequence of operations is drawn once.
\<close>

named_theorems topic_simps \<open>rewriting the operations of a topic\<close>

lemma exec_fns_subs_update [simp]:
  "exec_sub_fns (t\<lparr>t_subs := s\<rparr>) c = exec_sub_fns t c"
  "exec_unsub_fns (t\<lparr>t_subs := s\<rparr>) c = exec_unsub_fns t c"
  "exec_first_sub_fns (t\<lparr>t_subs := s\<rparr>) = exec_first_sub_fns t"
  "exec_last_unsub_fns (t\<lparr>t_subs := s\<rparr>) = exec_last_unsub_fns t"
  by (simp_all add: exec_sub_fns_def exec_unsub_fns_def exec_first_sub_fns_def exec_last_unsub_fns_def)

section \<open>Patterns and parameter maps\<close>

definition placeholder_names :: "pattern \<Rightarrow> string list" where
  "placeholder_names p = map pe_value (filter pe_placeholder (p_path p))"

definition pattern_ok :: "pattern \<Rightarrow> bool" where
  "pattern_ok p \<longleftrightarrow> (p_hasPlaceholders p \<longleftrightarrow> placeholder_names p \<noteq> [])"

definition params_ok :: "pattern \<Rightarrow> params \<Rightarrow> bool" where
  "params_ok p params \<longleftrightarrow> gm_wf params \<and> set (gm_keys params) = set (placeholder_names p)"

lemma new_pattern_loop_eq:
  "new_pattern_loop p elems =
     p\<lparr>p_path := p_path p @ map new_path_elem elems,
       p_hasPlaceholders := p_hasPlaceholders p \<or> list_ex (pe_placeholder \<circ> new_path_elem) elems\<rparr>"
  by (induction elems arbitrary: p) (simp_all add: Let_def)

lemma new_pattern_eq [topic_simps]:
  "new_pattern tpc = \<lparr>p_topic = tpc, p_path = map new_path_elem (Path tpc),
     p_hasPlaceholders = list_ex (pe_placeholder \<circ> new_path_elem) (Path tpc)\<rparr>"
  by (simp add: new_pattern_def new_pattern_loop_eq)

lemma pattern_ok_new [simp, intro]: "pattern_ok (new_pattern tpc)"
  by (auto simp: pattern_ok_def new_pattern_eq placeholder_names_def list_ex_iff filter_empty_conv)

lemma params_ok_no_placeholders:
  "pattern_ok p \<Longrightarrow> \<not> p_hasPlaceholders p \<Longrightarrow> params_ok p params \<Longrightarrow> params = []"
  by (simp add: pattern_ok_def params_ok_def gm_keys_def)

lemma params_dom: "params_ok p a \<Longrightarrow> params_ok p b \<Longrightarrow> gm_get a k = None \<longleftrightarrow> gm_get b k = None"
  unfolding params_ok_def using gm_keys_iff [of k a] gm_keys_iff [of k b] by auto

lemma are_topic_params_equal_iff:
  assumes "params_ok p a" and "params_ok p b"
  shows "are_topic_params_equal a b \<longleftrightarrow> gm_get a = gm_get b"
proof -
  have wf: "gm_wf a" using assms(1) by (simp add: params_ok_def)
  have "are_topic_params_equal a b \<longleftrightarrow> (\<forall>(k, v) \<in> set a. gm_get b k = Some v)"
    by (auto simp: are_topic_params_equal_def list_all_iff split: option.splits)
  also have "\<dots> \<longleftrightarrow> (\<forall>k v. gm_get a k = Some v \<longrightarrow> gm_get b k = Some v)"
    using gm_get_pair [OF wf] by fastforce
  also have "\<dots> \<longleftrightarrow> gm_get a = gm_get b"
  proof
    assume *: "\<forall>k v. gm_get a k = Some v \<longrightarrow> gm_get b k = Some v"
    show "gm_get a = gm_get b"
    proof
      fix k
      show "gm_get a k = gm_get b k"
        using * params_dom [OF assms, of k] by (cases "gm_get a k") auto
    qed
  qed simp
  finally show ?thesis .
qed

section \<open>The abstract subscriber set and the invariant\<close>

definition raw_subs :: "(conn, params list) gomap \<Rightarrow> (conn \<times> params) set" where
  "raw_subs subs = {(c, ps). \<exists>pp. gm_get subs c = Some pp \<and> ps \<in> set pp}"

definition subscriptions :: "topic \<Rightarrow> (conn \<times> (string \<Rightarrow> string option)) set" where
  "subscriptions t = (\<lambda>(c, ps). (c, gm_get ps)) ` raw_subs (t_subs t)"

definition entry_ok :: "pattern \<Rightarrow> params list \<Rightarrow> bool" where
  "entry_ok p pp \<longleftrightarrow> pp \<noteq> [] \<and> (\<forall>ps \<in> set pp. params_ok p ps) \<and> distinct (map gm_get pp)"

definition topic_inv :: "topic \<Rightarrow> bool" where
  "topic_inv t \<longleftrightarrow> pattern_ok (t_pattern t) \<and> gm_wf (t_subs t) \<and>
     (\<forall>c pp. gm_get (t_subs t) c = Some pp \<longrightarrow> entry_ok (t_pattern t) pp)"

lemma topic_invI:
  "pattern_ok (t_pattern t) \<Longrightarrow> gm_wf (t_subs t) \<Longrightarrow>
   (\<And>c pp. gm_get (t_subs t) c = Some pp \<Longrightarrow> entry_ok (t_pattern t) pp) \<Longrightarrow> topic_inv t"
  by (simp add: topic_inv_def)

lemma topic_invD:
  assumes "topic_inv t"
  shows "pattern_ok (t_pattern t)" "gm_wf (t_subs t)"
    "gm_get (t_subs t) c = Some pp \<Longrightarrow> entry_ok (t_pattern t) pp"
  using assms by (simp_all add: topic_inv_def)

lemma topic_inv_new: "topic_inv (new_topic supv tpc mws)"
  by (simp add: topic_inv_def new_topic_def pattern_ok_new)

lemma subscriptions_new: "subscriptions (new_topic supv tpc mws) = {}"
  by (simp add: subscriptions_def raw_subs_def new_topic_def)

lemma entry_no_placeholders:
  assumes "pattern_ok p" and "\<not> p_hasPlaceholders p" and "entry_ok p pp"
  shows "pp = [[]]"
proof -
  have "\<forall>ps \<in> set pp. ps = []"
    using assms params_ok_no_placeholders by (auto simp: entry_ok_def)
  then have "set (map gm_get pp) \<subseteq> {gm_get ([] :: params)}" by auto
  then have "card (set (map gm_get pp)) \<le> card {gm_get ([] :: params)}" by (intro card_mono) simp_all
  then have "length pp \<le> 1"
    using assms(3) distinct_card [of "map gm_get pp"] by (simp add: entry_ok_def)
  with assms(3) \<open>\<forall>ps \<in> set pp. ps = []\<close> show ?thesis
    by (cases pp) (auto simp: entry_ok_def)
qed

lemma raw_subs_set:
  "raw_subs (gm_set subs c pp) = {(c', ps) \<in> raw_subs subs. c' \<noteq> c} \<union> Pair c ` set pp"
  by (auto simp: raw_subs_def split: if_splits)

lemma raw_subs_del: "raw_subs (gm_del subs c) = {(c', ps) \<in> raw_subs subs. c' \<noteq> c}"
  by (auto simp: raw_subs_def split: if_splits)

lemma subscriptions_iff:
  "(c, m) \<in> subscriptions t \<longleftrightarrow> (\<exists>pp. gm_get (t_subs t) c = Some pp \<and> m \<in> gm_get ` set pp)"
  by (force simp: subscriptions_def raw_subs_def)

lemma no_subscriptions:
  assumes "topic_inv t"
  shows "gm_len (t_subs t) = 0 \<longleftrightarrow> subscriptions t = {}"
proof
  assume "gm_len (t_subs t) = 0"
  then show "subscriptions t = {}"
    by (simp add: gm_len_0_iff subscriptions_def raw_subs_def)
next
  assume e: "subscriptions t = {}"
  show "gm_len (t_subs t) = 0"
    unfolding gm_len_0_iff
  proof
    fix c
    show "gm_get (t_subs t) c = None"
    proof (cases "gm_get (t_subs t) c")
      case (Some pp)
      with assms have "pp \<noteq> []" by (auto simp: topic_inv_def entry_ok_def)
      then obtain ps where "ps \<in> set pp" by (cases pp) auto
      with Some have "(c, gm_get ps) \<in> subscriptions t" by (auto simp: subscriptions_iff)
      with e show ?thesis by simp
    qed
  qed
qed

lemma connected_iff:
  assumes "topic_inv t"
  shows "gm_get (t_subs t) c = None \<longleftrightarrow> c \<notin> fst ` subscriptions t"
proof (cases "gm_get (t_subs t) c")
  case None
  then show ?thesis by (auto simp: subscriptions_def raw_subs_def)
next
  case (Some pp)
  with assms have "pp \<noteq> []" by (auto simp: topic_inv_def entry_ok_def)
  then obtain ps where "ps \<in> set pp" by (cases pp) auto
  with Some have "(c, gm_get ps) \<in> subscriptions t" by (auto simp: subscriptions_iff)
  then have "c \<in> fst ` subscriptions t" by force
  with Some show ?thesis by simp
qed

lemma found_iff:
  assumes "topic_inv t" and "params_ok (t_pattern t) ps"
  shows "(\<exists>pp. gm_get (t_subs t) c = Some pp \<and>
            (\<not> p_hasPlaceholders (t_pattern t) \<or> list_ex (are_topic_params_equal ps) pp)) \<longleftrightarrow>
         (c, gm_get ps) \<in> subscriptions t"
proof -
  have "\<not> p_hasPlaceholders (t_pattern t) \<or> list_ex (are_topic_params_equal ps) pp \<longleftrightarrow>
      gm_get ps \<in> gm_get ` set pp" if "gm_get (t_subs t) c = Some pp" for pp
  proof (cases "p_hasPlaceholders (t_pattern t)")
    case True
    have ok: "\<forall>qs \<in> set pp. params_ok (t_pattern t) qs"
      using assms(1) that by (auto simp: topic_inv_def entry_ok_def)
    have "list_ex (are_topic_params_equal ps) pp \<longleftrightarrow> (\<exists>qs \<in> set pp. gm_get ps = gm_get qs)"
      unfolding list_ex_iff
      using ok by (intro bex_cong) (simp_all add: are_topic_params_equal_iff [OF assms(2)])
    with True show ?thesis by auto
  next
    case False
    with assms that have "pp = [[]]" "ps = []"
      using entry_no_placeholders params_ok_no_placeholders topic_invD by blast+
    with False show ?thesis by simp
  qed
  then show ?thesis by (auto simp: subscriptions_iff)
qed

section \<open>Subscribing\<close>

lemma add_sub_correct:
  assumes inv: "topic_inv t" and ok: "params_ok (t_pattern t) ps"
    and add: "add_sub t c ps = (t', calls)"
  shows "topic_inv t' \<and> subscriptions t' = insert (c, gm_get ps) (subscriptions t) \<and>
    t_pattern t' = t_pattern t \<and>
    calls = (if (c, gm_get ps) \<in> subscriptions t then []
             else (if subscriptions t = {} then exec_first_sub_fns t else []) @
                  exec_sub_fns t (new_topic_params_context (c_ctx c) ps))"
proof -
  define found where "found = gm_get (t_subs t) c"
  define pp where "pp = (case found of None \<Rightarrow> [] | Some pp \<Rightarrow> pp)"
  define guard where "guard \<longleftrightarrow> found \<noteq> None \<and>
    (\<not> p_hasPlaceholders (t_pattern t) \<or> list_ex (are_topic_params_equal ps) pp)"
  have g: "guard \<longleftrightarrow> (c, gm_get ps) \<in> subscriptions t"
    unfolding found_iff [OF inv ok, symmetric] guard_def pp_def found_def
    by (auto split: option.splits)
  have eq: "add_sub t c ps = (if guard then (t, [])
      else (t\<lparr>t_subs := gm_set (t_subs t) c (pp @ [ps])\<rparr>,
        (if gm_len (t_subs t) = 0 then exec_first_sub_fns t else []) @
        exec_sub_fns t (new_topic_params_context (c_ctx c) ps)))"
    by (simp add: add_sub_def Let_def guard_def pp_def found_def exec_sub_fns_def)
  show ?thesis
  proof (cases guard)
    case True
    with add eq have "t' = t" "calls = []" by simp_all
    with True g inv show ?thesis by auto
  next
    case False
    with add eq have t': "t' = t\<lparr>t_subs := gm_set (t_subs t) c (pp @ [ps])\<rparr>"
      and calls: "calls = (if gm_len (t_subs t) = 0 then exec_first_sub_fns t else []) @
        exec_sub_fns t (new_topic_params_context (c_ctx c) ps)"
      by simp_all
    have new: "(c, gm_get ps) \<notin> subscriptions t" using False g by simp
    have "(\<forall>qs \<in> set pp. params_ok (t_pattern t) qs) \<and> distinct (map gm_get pp)"
      using topic_invD(3) [OF inv, of c] by (auto simp: pp_def found_def entry_ok_def split: option.splits)
    moreover have "gm_get ps \<notin> gm_get ` set pp"
      using new unfolding subscriptions_iff pp_def found_def
      by (cases "gm_get (t_subs t) c") auto
    ultimately have "entry_ok (t_pattern t) (pp @ [ps])"
      using ok by (auto simp: entry_ok_def)
    then have "topic_inv t'"
      using inv by (auto simp: t' topic_inv_def)
    moreover have "subscriptions t' = insert (c, gm_get ps) (subscriptions t)"
      by (auto simp: t' subscriptions_iff pp_def found_def split: if_splits option.splits)
    ultimately show ?thesis
      using new calls no_subscriptions [OF inv] by (auto simp: t')
  qed
qed

text \<open>
  C3. Subscribing adds the pair of connection and parameter values to the subscriber set, and keeps
  the invariant. A pair that is there already changes nothing and calls nothing; a new one calls the
  sub functions with the subscriber's context, after the first-sub functions if the set was empty.
\<close>

theorem add_sub_refines:
  assumes "topic_inv t" and "params_ok (t_pattern t) ps" and "add_sub t c ps = (t', calls)"
  shows "topic_inv t' \<and> subscriptions t' = insert (c, gm_get ps) (subscriptions t) \<and>
    calls = (if (c, gm_get ps) \<in> subscriptions t then []
             else (if subscriptions t = {} then exec_first_sub_fns t else []) @
                  exec_sub_fns t (new_topic_params_context (c_ctx c) ps))"
  using add_sub_correct [OF assms] by blast

text \<open>Sample data for the instances of the theorems.\<close>

definition sample_conn :: "nat \<Rightarrow> string \<Rightarrow> conn" where
  "sample_conn n ident = \<lparr>c_ptr = n, c_ctx = WithValue Background WsCtxID (StrVal ident)\<rparr>"

definition sample_topic :: topic where
  "sample_topic = on_last_unsub 4 (on_first_sub 3 (on_unsub 2 (on_sub 1
     (new_topic Background \<lparr>Descriptor = '''', Operation = ''update'', Path = [''{ex}'', ''tick'']\<rparr> []))))"

definition sample_params :: "string \<Rightarrow> params" where
  "sample_params v = [(''ex'', v)]"

lemma sample_topic_simps:
  "t_pattern sample_topic = new_pattern \<lparr>Descriptor = '''', Operation = ''update'', Path = [''{ex}'', ''tick'']\<rparr>"
  "t_subs sample_topic = []" "t_supv sample_topic = Background"
  "t_sub_fns sample_topic = [1]" "t_unsub_fns sample_topic = [2]"
  "t_first_sub_fns sample_topic = [3]" "t_last_unsub_fns sample_topic = [4]"
  by (simp_all add: sample_topic_def on_last_unsub_def on_first_sub_def on_unsub_def on_sub_def new_topic_def)

lemma sample_placeholders: "placeholder_names (t_pattern sample_topic) = [''ex'']"
  "p_hasPlaceholders (t_pattern sample_topic)"
  by (simp_all add: sample_topic_simps, code_simp, code_simp)

lemma sample_inv: "topic_inv sample_topic"
  by (simp add: topic_inv_def sample_topic_simps pattern_ok_new)

lemma sample_params_ok: "params_ok (t_pattern sample_topic) (sample_params v)"
  by (simp add: params_ok_def sample_placeholders sample_params_def gm_wf_def gm_keys_def)

lemma sample_subscriptions: "subscriptions sample_topic = {}"
  by (simp add: subscriptions_def raw_subs_def sample_topic_simps)

text \<open>The sample topic with one subscriber.\<close>

definition sample_topic1 :: topic where
  "sample_topic1 = fst (add_sub sample_topic (sample_conn 1 ''a'') (sample_params ''btc''))"

theorem add_sub_refines_witness:
  "topic_inv sample_topic1 \<and>
   subscriptions sample_topic1 = {(sample_conn 1 ''a'', gm_get (sample_params ''btc''))} \<and>
   snd (add_sub sample_topic (sample_conn 1 ''a'') (sample_params ''btc'')) =
     [CallFirstSub 3 Background,
      CallSub 1 (Multi [WithValue (WithValue Background WsCtxID (StrVal ''a'')) TopicParamsKey
                          (ParamsVal [(''ex'', ''btc'')]), Background])]"
  using add_sub_refines [OF sample_inv sample_params_ok surjective_pairing,
      of "sample_conn 1 ''a''" "''btc''"]
  by (simp add: sample_topic1_def sample_subscriptions exec_first_sub_fns_def exec_sub_fns_def
      sample_topic_simps sample_conn_def sample_params_def new_topic_params_context_def gm_len_def)

lemma sample_topic1_facts:
  "topic_inv sample_topic1" "t_pattern sample_topic1 = t_pattern sample_topic"
  "subscriptions sample_topic1 = {(sample_conn 1 ''a'', gm_get (sample_params ''btc''))}"
  using add_sub_correct [OF sample_inv sample_params_ok surjective_pairing,
      of "sample_conn 1 ''a''" "''btc''"]
  by (simp_all add: sample_topic1_def sample_subscriptions)

lemma sample_params_neq: "v \<noteq> w \<Longrightarrow> gm_get (sample_params v) \<noteq> gm_get (sample_params w)"
  by (auto simp: sample_params_def gm_get_def fun_upd_def dest!: fun_cong [of _ _ "''ex''"])

section \<open>Unsubscribing\<close>

lemma distinct_swap_delete:
  assumes "distinct (map f pp)" and "i < length pp"
  shows "distinct (map f (swap_delete i pp))" "f ` set (swap_delete i pp) = f ` set pp - {f (pp ! i)}"
    "set (swap_delete i pp) \<subseteq> set pp"
proof -
  have m: "mset pp = mset (pp ! i # swap_delete i pp)"
    using assms(2) mset_swap_delete [OF assms(2)] by simp
  then have "mset (map f pp) = mset (f (pp ! i) # map f (swap_delete i pp))"
    by (metis list.simps(9) mset_map)
  then have d: "distinct (f (pp ! i) # map f (swap_delete i pp))"
    using assms(1) mset_eq_imp_distinct_iff by blast
  then show "distinct (map f (swap_delete i pp))" by simp
  have s: "set pp = insert (pp ! i) (set (swap_delete i pp))"
    using m by (metis list.simps(15) mset_eq_setD)
  then show "f ` set (swap_delete i pp) = f ` set pp - {f (pp ! i)}"
    using d by auto
  show "set (swap_delete i pp) \<subseteq> set pp" using s by auto
qed

text \<open>What the search and the swap do to the parameter maps of one subscriber.\<close>

definition delete_params :: "params \<Rightarrow> params list \<Rightarrow> params list" where
  "delete_params params pp =
     (case index_of (are_topic_params_equal params) pp of None \<Rightarrow> pp | Some i \<Rightarrow> swap_delete i pp)"

lemma delete_params_correct:
  assumes "entry_ok p pp" and "params_ok p ps"
  shows "gm_get ` set (delete_params ps pp) = gm_get ` set pp - {gm_get ps}"
    "delete_params ps pp \<noteq> [] \<Longrightarrow> entry_ok p (delete_params ps pp)"
proof -
  have ok: "\<forall>qs \<in> set pp. params_ok p qs" and d: "distinct (map gm_get pp)"
    using assms(1) by (simp_all add: entry_ok_def)
  have iff: "are_topic_params_equal ps qs \<longleftrightarrow> gm_get ps = gm_get qs" if "qs \<in> set pp" for qs
    using ok that are_topic_params_equal_iff [OF assms(2)] by blast
  show "gm_get ` set (delete_params ps pp) = gm_get ` set pp - {gm_get ps}"
    and "delete_params ps pp \<noteq> [] \<Longrightarrow> entry_ok p (delete_params ps pp)"
  proof (atomize (full), cases "index_of (are_topic_params_equal ps) pp")
    case None
    then have "gm_get ps \<notin> gm_get ` set pp"
      using iff by (auto simp: index_of_None)
    with None assms(1) show "gm_get ` set (delete_params ps pp) = gm_get ` set pp - {gm_get ps} \<and>
        (delete_params ps pp \<noteq> [] \<longrightarrow> entry_ok p (delete_params ps pp))"
      by (simp add: delete_params_def)
  next
    case (Some i)
    then have i: "i < length pp" and "are_topic_params_equal ps (pp ! i)"
      using index_of_Some [OF Some] by simp_all
    then have "gm_get (pp ! i) = gm_get ps" using iff [of "pp ! i"] by simp
    with distinct_swap_delete [OF d i] Some ok
    show "gm_get ` set (delete_params ps pp) = gm_get ` set pp - {gm_get ps} \<and>
        (delete_params ps pp \<noteq> [] \<longrightarrow> entry_ok p (delete_params ps pp))"
      by (auto simp: delete_params_def entry_ok_def)
  qed
qed

text \<open>The new subscriber list of \<open>remove_sub\<close>, for a connection that has an entry.\<close>

lemma remove_sub_connected:
  assumes inv: "topic_inv t" and ok: "params_ok (t_pattern t) ps"
    and pp: "gm_get (t_subs t) c = Some pp"
  obtains t' where
    "remove_sub t c ps = (t', exec_unsub_fns t (new_topic_params_context (c_ctx c) ps) @
        (if subscriptions t' = {} then exec_last_unsub_fns t else []))"
    "topic_inv t'" "subscriptions t' = subscriptions t - {(c, gm_get ps)}" "t_pattern t' = t_pattern t"
proof -
  define subs' where "subs' =
     (if p_hasPlaceholders (t_pattern t)
      then if length (delete_params ps pp) = 0 then gm_del (t_subs t) c
           else gm_set (t_subs t) c (delete_params ps pp)
      else gm_del (t_subs t) c)"
  define t' where "t' = t\<lparr>t_subs := subs'\<rparr>"
  have entry: "entry_ok (t_pattern t) pp" using inv pp by (rule topic_invD)
  note del = delete_params_correct [OF entry ok]
  have np: "\<not> p_hasPlaceholders (t_pattern t) \<Longrightarrow> gm_get ` set pp - {gm_get ps} = {}"
    using entry_no_placeholders params_ok_no_placeholders topic_invD(1) [OF inv] entry ok by fastforce
  have inv': "topic_inv t'"
    using inv del(2) by (auto simp: t'_def subs'_def topic_inv_def)
  have subs: "subscriptions t' = subscriptions t - {(c, gm_get ps)}"
  proof -
    have "(c', m) \<in> subscriptions t' \<longleftrightarrow> (c', m) \<in> subscriptions t - {(c, gm_get ps)}" for c' m
    proof (cases "c' = c")
      case True
      have "m \<in> gm_get ` set (delete_params ps pp) \<longleftrightarrow> m \<in> gm_get ` set pp \<and> m \<noteq> gm_get ps"
        using del(1) by auto
      with True pp np show ?thesis
        by (auto simp: subscriptions_iff t'_def subs'_def)
    next
      case False
      then show ?thesis by (auto simp: subscriptions_iff t'_def subs'_def)
    qed
    then show ?thesis by auto
  qed
  have "remove_sub t c ps = (t', exec_unsub_fns t (new_topic_params_context (c_ctx c) ps) @
        (if gm_len (t_subs t') = 0 then exec_last_unsub_fns t else []))"
    by (simp add: remove_sub_def pp t'_def subs'_def delete_params_def Let_def exec_unsub_fns_def
        exec_last_unsub_fns_def)
  then show thesis
    using that inv' subs no_subscriptions [OF inv'] by (simp add: t'_def)
qed

lemma remove_sub_correct:
  assumes inv: "topic_inv t" and ok: "params_ok (t_pattern t) ps"
    and rem: "remove_sub t c ps = (t', calls)"
  shows "topic_inv t' \<and> subscriptions t' = subscriptions t - {(c, gm_get ps)} \<and>
    t_pattern t' = t_pattern t \<and>
    calls = (if c \<in> fst ` subscriptions t
             then exec_unsub_fns t (new_topic_params_context (c_ctx c) ps) @
                  (if subscriptions t' = {} then exec_last_unsub_fns t else [])
             else [])"
proof (cases "gm_get (t_subs t) c")
  case None
  then have c: "c \<notin> fst ` subscriptions t" using connected_iff [OF inv] by blast
  then have "(c, gm_get ps) \<notin> subscriptions t" by force
  with None c rem inv show ?thesis by (auto simp: remove_sub_def)
next
  case (Some pp)
  then have c: "c \<in> fst ` subscriptions t" using connected_iff [OF inv, of c] by simp
  obtain t'' where "remove_sub t c ps = (t'', exec_unsub_fns t (new_topic_params_context (c_ctx c) ps) @
        (if subscriptions t'' = {} then exec_last_unsub_fns t else []))"
    "topic_inv t''" "subscriptions t'' = subscriptions t - {(c, gm_get ps)}" "t_pattern t'' = t_pattern t"
    using remove_sub_connected [OF inv ok Some] by blast
  with rem c show ?thesis by simp
qed

text \<open>
  C4. Unsubscribing removes exactly the pair of connection and parameter values, keeps the
  invariant, and calls the last-unsub functions exactly when the set becomes empty. The unsub
  functions are called for every connection that has some subscription to the topic, also when the
  pair to remove was not there and nothing is removed.
\<close>

theorem remove_sub_refines:
  assumes "topic_inv t" and "params_ok (t_pattern t) ps" and "remove_sub t c ps = (t', calls)"
  shows "topic_inv t' \<and> subscriptions t' = subscriptions t - {(c, gm_get ps)} \<and>
    calls = (if c \<in> fst ` subscriptions t
             then exec_unsub_fns t (new_topic_params_context (c_ctx c) ps) @
                  (if subscriptions t' = {} then exec_last_unsub_fns t else [])
             else [])"
  using remove_sub_correct [OF assms] by blast

theorem remove_sub_refines_witness:
  "subscriptions (fst (remove_sub sample_topic1 (sample_conn 1 ''a'') (sample_params ''eth''))) =
     {(sample_conn 1 ''a'', gm_get (sample_params ''btc''))}"
proof -
  have ok: "params_ok (t_pattern sample_topic1) (sample_params ''eth'')"
    using sample_topic1_facts(2) sample_params_ok by simp
  show ?thesis
    using remove_sub_refines [OF sample_topic1_facts(1) ok surjective_pairing, of "sample_conn 1 ''a''"]
      sample_topic1_facts(3) sample_params_neq [of "''eth''" "''btc''"] by auto
qed

section \<open>A connection that goes away\<close>

definition entry_of :: "topic \<Rightarrow> conn \<Rightarrow> params list" where
  "entry_of t c = (case gm_get (t_subs t) c of None \<Rightarrow> [] | Some pp \<Rightarrow> pp)"

lemma subscriptions_entry_of: "(c, m) \<in> subscriptions t \<longleftrightarrow> m \<in> gm_get ` set (entry_of t c)"
  by (cases "gm_get (t_subs t) c") (simp_all add: subscriptions_iff entry_of_def)

text \<open>The calls for one connection and a list of its parameter maps.\<close>

definition unsub_calls :: "topic \<Rightarrow> conn \<Rightarrow> params list \<Rightarrow> event_call list" where
  "unsub_calls t c pp =
     concat (map (\<lambda>params. exec_unsub_fns t (new_topic_params_context (c_ctx c) params)) pp)"

lemma remove_conn_correct:
  assumes inv: "topic_inv t" and rem: "remove_conn t c = (t', calls)"
  shows "topic_inv t' \<and> subscriptions t' = {s \<in> subscriptions t. fst s \<noteq> c} \<and>
    t_pattern t' = t_pattern t \<and>
    calls = unsub_calls t c (entry_of t c) @
      (if subscriptions t \<noteq> {} \<and> subscriptions t' = {} then exec_last_unsub_fns t else [])"
proof (cases "gm_get (t_subs t) c")
  case None
  with rem have "t' = t" "calls = []" by (simp_all add: remove_conn_def)
  moreover have "c \<notin> fst ` subscriptions t" using None connected_iff [OF inv] by blast
  ultimately show ?thesis using None inv by (auto simp: entry_of_def unsub_calls_def)
next
  case (Some pp)
  have t': "t' = t\<lparr>t_subs := gm_del (t_subs t) c\<rparr>"
    using rem Some by (simp add: remove_conn_def Let_def)
  have inv': "topic_inv t'" using inv by (auto simp: t' topic_inv_def)
  have "entry_of t' a = (if a = c then [] else entry_of t a)" for a
    by (simp add: t' entry_of_def)
  then have subs: "subscriptions t' = {s \<in> subscriptions t. fst s \<noteq> c}"
    by (auto simp: subscriptions_entry_of split: if_splits)
  have "c \<in> fst ` subscriptions t" using Some connected_iff [OF inv, of c] by simp
  then have ne: "subscriptions t \<noteq> {}" by auto
  have "gm_len (gm_del (t_subs t) c) = 0 \<longleftrightarrow> subscriptions t' = {}"
    using no_subscriptions [OF inv'] by (simp add: t')
  then have "calls = unsub_calls t c (entry_of t c) @
      (if subscriptions t' = {} then exec_last_unsub_fns t else [])"
    using rem Some by (simp add: remove_conn_def entry_of_def unsub_calls_def Let_def split: if_splits)
  then show ?thesis
    using inv' subs ne by (simp add: t')
qed

section \<open>Dropping\<close>

definition selected :: "topic \<Rightarrow> middleware option \<Rightarrow> conn \<Rightarrow> params \<Rightarrow> bool" where
  "selected t filt c params =
     (case filt of None \<Rightarrow> True
      | Some f \<Rightarrow> f (new_topic_params_context (c_ctx c) params) (pattern_format (t_pattern t) params))"

lemma drop_params_eq:
  "drop_params t filt c pp =
     (filter (selected t filt c) pp, filter (\<lambda>ps. \<not> selected t filt c ps) pp,
      unsub_calls t c (filter (selected t filt c) pp))"
  by (induction pp) (auto simp: selected_def unsub_calls_def Let_def split: option.splits)

definition dropped_of :: "topic \<Rightarrow> middleware option \<Rightarrow> conn \<Rightarrow> params list" where
  "dropped_of t filt c = filter (selected t filt c) (entry_of t c)"

definition retained_of :: "topic \<Rightarrow> middleware option \<Rightarrow> conn \<Rightarrow> params list" where
  "retained_of t filt c = filter (\<lambda>ps. \<not> selected t filt c ps) (entry_of t c)"

lemma drop_conns_Cons:
  "drop_conns t filt subs dropped (c # ord) =
     (let (s, d, calls) = drop_conns t filt
            (if retained_of t filt c = [] then gm_del subs c else gm_set subs c (retained_of t filt c))
            (if dropped_of t filt c = [] then dropped else gm_set dropped c (dropped_of t filt c)) ord
      in (s, d, unsub_calls t c (dropped_of t filt c) @ calls))"
  by (simp add: drop_params_eq entry_of_def dropped_of_def retained_of_def Let_def split: prod.splits)

declare drop_conns.simps(2) [simp del]

lemma drop_conns_correct:
  assumes "distinct ord" and "gm_wf subs" and "gm_wf dropped"
    and "drop_conns t filt subs dropped ord = (subs', dropped', calls)"
  shows "gm_wf subs' \<and> gm_wf dropped' \<and>
    (\<forall>c. gm_get subs' c = (if c \<in> set ord
        then (if retained_of t filt c = [] then None else Some (retained_of t filt c)) else gm_get subs c)) \<and>
    (\<forall>c. gm_get dropped' c = (if c \<in> set ord \<and> dropped_of t filt c \<noteq> []
        then Some (dropped_of t filt c) else gm_get dropped c)) \<and>
    calls = concat (map (\<lambda>c. unsub_calls t c (dropped_of t filt c)) ord)"
  using assms
proof (induction ord arbitrary: subs dropped subs' dropped' calls)
  case Nil
  then show ?case by simp
next
  case (Cons c ord)
  let ?s = "if retained_of t filt c = [] then gm_del subs c else gm_set subs c (retained_of t filt c)"
  let ?d = "if dropped_of t filt c = [] then dropped else gm_set dropped c (dropped_of t filt c)"
  obtain s d cs where sdc: "drop_conns t filt ?s ?d ord = (s, d, cs)"
    by (metis prod_cases3)
  with Cons.prems(4) have r: "subs' = s" "dropped' = d" "calls = unsub_calls t c (dropped_of t filt c) @ cs"
    by (simp_all add: drop_conns_Cons)
  have "distinct ord" and c: "c \<notin> set ord" and "gm_wf ?s" "gm_wf ?d"
    using Cons.prems(1-3) by simp_all
  note IH = Cons.IH [OF this(1) this(3) this(4) sdc]
  show ?case
    unfolding r using IH c by auto
qed

lemma drop_loop_correct:
  assumes inv: "topic_inv t" and ord: "range_order (t_subs t) ord"
    and loop: "drop_conns t filt (t_subs t) [] ord = (subs', dropped, calls)"
  shows "topic_inv (t\<lparr>t_subs := subs'\<rparr>)" "gm_wf dropped"
    "\<And>c. entry_of (t\<lparr>t_subs := subs'\<rparr>) c = retained_of t filt c"
    "\<And>c. gm_get dropped c = (if dropped_of t filt c = [] then None else Some (dropped_of t filt c))"
    "calls = concat (map (\<lambda>c. unsub_calls t c (dropped_of t filt c)) ord)"
proof -
  have wf: "gm_wf (t_subs t)" using inv by (rule topic_invD)
  note res = drop_conns_correct [OF range_order_distinct [OF ord] wf gm_wf_Nil loop]
  have out: "c \<notin> set ord \<Longrightarrow> gm_get (t_subs t) c = None \<and> entry_of t c = []" for c
    using range_orderD [OF ord] by (auto simp: entry_of_def)
  show "calls = concat (map (\<lambda>c. unsub_calls t c (dropped_of t filt c)) ord)" and "gm_wf dropped"
    using res by blast+
  show "gm_get dropped c = (if dropped_of t filt c = [] then None else Some (dropped_of t filt c))" for c
    using res out [of c] by (auto simp: dropped_of_def)
  have get: "gm_get subs' c = (if retained_of t filt c = [] then None else Some (retained_of t filt c))" for c
    using res out [of c] by (auto simp: retained_of_def)
  then show "entry_of (t\<lparr>t_subs := subs'\<rparr>) c = retained_of t filt c" for c
    by (simp add: entry_of_def)
  show "topic_inv (t\<lparr>t_subs := subs'\<rparr>)"
  proof (rule topic_invI)
    fix c pp
    assume "gm_get (t_subs (t\<lparr>t_subs := subs'\<rparr>)) c = Some pp"
    with get [of c] have pp: "pp = retained_of t filt c" "pp \<noteq> []" by (auto split: if_splits)
    then have "entry_of t c \<noteq> []" by (auto simp: retained_of_def)
    then have "entry_ok (t_pattern t) (entry_of t c)"
      using inv by (auto simp: entry_of_def topic_inv_def split: option.splits)
    with pp show "entry_ok (t_pattern (t\<lparr>t_subs := subs'\<rparr>)) pp"
      by (auto simp: entry_ok_def retained_of_def distinct_map_filter)
  qed (use inv res topic_invD(1) in auto)
qed

lemma jobs_of_dropped:
  assumes "gm_wf dropped"
  shows "set (jobs_of dropped) = {(c, ps). \<exists>pp. gm_get dropped c = Some pp \<and> ps \<in> set pp}"
  using gm_get_pair [OF assms] by (auto simp: jobs_of_def)

text \<open>The subscriptions that a filter selects.\<close>

definition drop_set :: "topic \<Rightarrow> middleware option \<Rightarrow> (conn \<times> params) set" where
  "drop_set t filt = {(c, ps). ps \<in> set (entry_of t c) \<and> selected t filt c ps}"

lemma drop_many_correct:
  assumes inv: "topic_inv t" and ord: "range_order (t_subs t) ord"
    and drop: "drop_many marshal accept sched ord t reason filt = (t', calls, pubs)"
  shows "topic_inv t' \<and> t_pattern t' = t_pattern t \<and>
    (\<forall>c. entry_of t' c = filter (\<lambda>ps. \<not> selected t filt c ps) (entry_of t c)) \<and>
    calls = concat (map (\<lambda>c. unsub_calls t c (filter (selected t filt c) (entry_of t c))) ord) @
      (if subscriptions t \<noteq> {} \<and> subscriptions t' = {} then exec_last_unsub_fns t else [])"
proof -
  obtain subs' dropped cs where loop: "drop_conns t filt (t_subs t) [] ord = (subs', dropped, cs)"
    by (metis prod_cases3)
  note l = drop_loop_correct [OF inv ord loop]
  have t': "t' = t\<lparr>t_subs := subs'\<rparr>"
    and calls: "calls = cs @ (if gm_len subs' = 0 \<and> gm_len dropped > 0 then exec_last_unsub_fns t else [])"
    using drop by (auto simp: drop_many_def loop Let_def exec_last_unsub_fns_def)
  have empty': "gm_len subs' = 0 \<longleftrightarrow> subscriptions t' = {}"
    using no_subscriptions [OF l(1)] by (simp add: t')
  have some: "0 < gm_len dropped \<longleftrightarrow> (\<exists>c. dropped_of t filt c \<noteq> [])"
    using gm_len_0_iff [of dropped] l(4) by (metis neq0_conv option.distinct(1))
  have nonempty: "(\<exists>c. dropped_of t filt c \<noteq> []) \<longleftrightarrow> subscriptions t \<noteq> {}" if "subscriptions t' = {}"
  proof -
    have "retained_of t filt c = []" for c
      using that l(3) [of c] unfolding t' [symmetric]
      by (metis empty_iff image_eqI last_in_set subscriptions_entry_of)
    then have "dropped_of t filt c = entry_of t c" for c
      by (auto simp: retained_of_def dropped_of_def filter_empty_conv filter_id_conv)
    then show ?thesis
      by (metis equals0I image_is_empty set_empty subscriptions_entry_of surj_pair ex_in_conv)
  qed
  show ?thesis
    using l(1,3,5) calls empty' some nonempty
    by (auto simp: t' retained_of_def dropped_of_def)
qed

text \<open>
  C5. Dropping: for every filter and in whatever order the subscribers are visited, the retained
  subscribers are exactly those that the filter does not select (all are dropped without a filter);
  the invariant holds; the unsub functions are called once for every selected subscription; and the
  last-unsub functions are called exactly when a non-empty set becomes empty.
\<close>

theorem drop_many_refines:
  assumes inv: "topic_inv t" and ord: "range_order (t_subs t) ord"
    and drop: "drop_many marshal accept sched ord t reason filt = (t', calls, pubs)"
  shows "topic_inv t' \<and>
    (\<forall>c. entry_of t' c = filter (\<lambda>ps. \<not> selected t filt c ps) (entry_of t c)) \<and>
    calls = concat (map (\<lambda>c. unsub_calls t c (filter (selected t filt c) (entry_of t c))) ord) @
      (if subscriptions t \<noteq> {} \<and> subscriptions t' = {} then exec_last_unsub_fns t else [])"
  using drop_many_correct [OF assms] by blast

theorem drop_many_refines_witness:
  "entry_of (fst (drop_many (\<lambda>_ :: unit data. Inr '''') (\<lambda>_. True) id [sample_conn 1 ''a''] sample_topic1 ''why'' None))
     (sample_conn 1 ''a'') = []"
proof -
  have "range_order (t_subs sample_topic1) [sample_conn 1 ''a'']"
    by (simp add: range_order_def sample_topic1_def add_sub_def sample_topic_simps gm_keys_def gm_set_def Let_def)
  moreover obtain t' calls pubs where d: "drop_many (\<lambda>_ :: unit data. Inr '''') (\<lambda>_. True) id [sample_conn 1 ''a'']
      sample_topic1 ''why'' None = (t', calls, pubs)"
    by (metis prod_cases3)
  ultimately show ?thesis
    using drop_many_refines [OF sample_topic1_facts(1) _ d] by (simp add: selected_def)
qed

section \<open>The first/last events over any run\<close>

text \<open>
  The operations that change the subscriber list. A drop carries its filter, its reason and the order
  in which this run visits the subscribers.
\<close>

datatype topic_op =
    OpSub conn params | OpUnsub conn params | OpConnGone conn | OpDrop string "middleware option" "conn list"

fun topic_step :: "topic \<Rightarrow> topic_op \<Rightarrow> topic \<times> event_call list" where
  "topic_step t (OpSub c params) = add_sub t c params"
| "topic_step t (OpUnsub c params) = remove_sub t c params"
| "topic_step t (OpConnGone c) = remove_conn t c"
| "topic_step t (OpDrop reason filt ord) =
     (let (t', calls, pubs) = drop_many (\<lambda>_ :: unit data. Inr '''') (\<lambda>_. True) id ord t reason filt in (t', calls))"

fun topic_good :: "topic \<Rightarrow> topic_op \<Rightarrow> bool" where
  "topic_good t (OpSub c params) = params_ok (t_pattern t) params"
| "topic_good t (OpUnsub c params) = params_ok (t_pattern t) params"
| "topic_good t (OpConnGone c) = True"
| "topic_good t (OpDrop reason filt ord) = range_order (t_subs t) ord"


text \<open>A function registered once for the first subscription, and one for the last unsubscription.\<close>

fun is_first_call :: "nat \<Rightarrow> event_call \<Rightarrow> bool" where
  "is_first_call f (CallFirstSub fn c) = (fn = f)"
| "is_first_call f e = False"

fun is_last_call :: "nat \<Rightarrow> event_call \<Rightarrow> bool" where
  "is_last_call g (CallLastUnsub fn c) = (fn = g)"
| "is_last_call g e = False"

lemma toggles_first:
  "toggles (is_first_call f) (is_last_call g) b (map (\<lambda>fn. CallFirstSub fn c) fns) =
     (if count_list fns f = 0 then Some b
      else if count_list fns f = 1 \<and> \<not> b then Some True else None)"
  by (induction fns arbitrary: b) auto

lemma toggles_last:
  "toggles (is_first_call f) (is_last_call g) b (map (\<lambda>fn. CallLastUnsub fn c) fns) =
     (if count_list fns g = 0 then Some b
      else if count_list fns g = 1 \<and> b then Some False else None)"
  by (induction fns arbitrary: b) auto

lemma toggles_sub_unsub:
  "toggles (is_first_call f) (is_last_call g) b (exec_sub_fns t c @ es) =
     toggles (is_first_call f) (is_last_call g) b es"
  "toggles (is_first_call f) (is_last_call g) b (exec_unsub_fns t c @ es) =
     toggles (is_first_call f) (is_last_call g) b es"
  "toggles (is_first_call f) (is_last_call g) b (unsub_calls t a pp @ es) =
     toggles (is_first_call f) (is_last_call g) b es"
  "toggles (is_first_call f) (is_last_call g) b (concat (map (\<lambda>c. unsub_calls t c (h c)) ord) @ es) =
     toggles (is_first_call f) (is_last_call g) b es"
  unfolding toggles_append
  by (subst toggles_neither; force simp: exec_sub_fns_def exec_unsub_fns_def unsub_calls_def)+

text \<open>Registered functions and the supervisor never change in an operation.\<close>

lemma topic_step_frame: "(fst (topic_step t x))\<lparr>t_subs := []\<rparr> = t\<lparr>t_subs := []\<rparr>"
proof (cases x)
  case (OpSub c ps)
  then show ?thesis by (simp add: add_sub_def Let_def)
next
  case (OpUnsub c ps)
  then show ?thesis by (simp add: remove_sub_def Let_def split: option.split)
next
  case (OpConnGone c)
  then show ?thesis by (simp add: remove_conn_def Let_def split: option.split)
next
  case (OpDrop reason filt ord)
  then show ?thesis by (simp add: drop_many_def Let_def split: prod.split)
qed

lemma topic_step_fns:
  "t_first_sub_fns (fst (topic_step t x)) = t_first_sub_fns t"
  "t_last_unsub_fns (fst (topic_step t x)) = t_last_unsub_fns t"
  using topic_step_frame [of t x] by (metis topic.ext_inject topic.surjective topic.update_convs(4))+

definition follows :: "nat \<Rightarrow> nat \<Rightarrow> topic \<Rightarrow> bool" where
  "follows f g t \<longleftrightarrow> topic_inv t \<and> count_list (t_first_sub_fns t) f = 1 \<and> count_list (t_last_unsub_fns t) g = 1"

lemma topic_step_inv: "topic_inv t \<Longrightarrow> topic_good t x \<Longrightarrow> topic_inv (fst (topic_step t x))"
proof (cases x)
  case (OpSub c ps)
  moreover assume "topic_inv t" "topic_good t x"
  ultimately show ?thesis using add_sub_correct [OF _ _ surjective_pairing] by simp
next
  case (OpUnsub c ps)
  moreover assume "topic_inv t" "topic_good t x"
  ultimately show ?thesis using remove_sub_correct [OF _ _ surjective_pairing] by simp
next
  case (OpConnGone c)
  moreover assume "topic_inv t" "topic_good t x"
  ultimately show ?thesis using remove_conn_correct [OF _ surjective_pairing] by simp
next
  case (OpDrop reason filt ord)
  moreover assume "topic_inv t" "topic_good t x"
  ultimately show ?thesis using drop_many_correct by (fastforce split: prod.split)
qed


lemmas toggles_simps = exec_first_sub_fns_def exec_last_unsub_fns_def toggles_first toggles_last toggles_sub_unsub
  toggles_sub_unsub [where es = "[]", simplified]

lemma topic_step_toggles:
  assumes "follows f g t" and "topic_good t x"
  shows "toggles (is_first_call f) (is_last_call g) (subscriptions t \<noteq> {}) (snd (topic_step t x)) =
    Some (subscriptions (fst (topic_step t x)) \<noteq> {})"
proof -
  have t: "topic_inv t" "count_list (t_first_sub_fns t) f = 1" "count_list (t_last_unsub_fns t) g = 1"
    using assms(1) by (simp_all add: follows_def)
  show ?thesis
  proof (cases x)
    case (OpSub c ps)
    then show ?thesis
      using add_sub_correct [OF t(1) _ surjective_pairing, of ps c] assms(2) t(2)
      by (auto simp: toggles_simps toggles_append)
  next
    case (OpUnsub c ps)
    then show ?thesis
      using remove_sub_correct [OF t(1) _ surjective_pairing, of ps c] assms(2) t(3)
      by (cases "c \<in> fst ` subscriptions t") (force simp: toggles_simps)+
  next
    case (OpConnGone c)
    then show ?thesis
      using remove_conn_correct [OF t(1) surjective_pairing, of c] t(3)
      by (auto simp: toggles_simps)
  next
    case (OpDrop reason filt ord)
    obtain t' calls pubs where d: "drop_many (\<lambda>_ :: unit data. Inr '''') (\<lambda>_. True) id ord t reason filt = (t', calls, pubs)"
      by (metis prod_cases3)
    have r: "calls = concat (map (\<lambda>c. unsub_calls t c (filter (selected t filt c) (entry_of t c))) ord) @
        (if subscriptions t \<noteq> {} \<and> subscriptions t' = {} then exec_last_unsub_fns t else [])"
      and e: "\<forall>c. entry_of t' c = filter (\<lambda>ps. \<not> selected t filt c ps) (entry_of t c)"
      using drop_many_correct [OF t(1) _ d] assms(2) OpDrop by simp_all
    have "subscriptions t = {} \<Longrightarrow> subscriptions t' = {}"
      using e subscriptions_entry_of [where t = t] subscriptions_entry_of [where t = t'] by fastforce
    with r t(3) OpDrop d show ?thesis by (auto simp: toggles_simps)
  qed
qed

text \<open>The topic is a provider of the interface: its reported calls follow whether it has subscribers.\<close>

interpretation tlc: lifecycle topic_step topic_good "follows f g" "\<lambda>t. subscriptions t \<noteq> {}"
    "is_first_call f" "is_last_call g" for f g
proof
  fix t x
  assume f: "follows f g t" and g: "topic_good t x"
  then show "follows f g (fst (topic_step t x))"
    using topic_step_inv by (simp add: follows_def topic_step_fns)
  show "toggles (is_first_call f) (is_last_call g) (subscriptions t \<noteq> {}) (snd (topic_step t x)) =
    Some (subscriptions (fst (topic_step t x)) \<noteq> {})"
    using f g by (rule topic_step_toggles)
qed

text \<open>
  C6. Over any sequence of subscriptions, unsubscriptions, closed connections and drops from a topic
  with one first-sub function f and one last-unsub function g: the calls of f and g are started in
  strict alternation, starting with f when nobody is subscribed; after the sequence the last of them was f
  exactly if somebody is subscribed. So a source opened by f and released by g is open exactly while
  it is needed.
\<close>

theorem first_last_alternate:
  assumes "topic_inv t" and "count_list (t_first_sub_fns t) f = 1" and "count_list (t_last_unsub_fns t) g = 1"
    and "run_ok topic_step topic_good t xs" and "run_ops topic_step t xs = (t', calls)"
  shows "topic_inv t' \<and>
    toggles (is_first_call f) (is_last_call g) (subscriptions t \<noteq> {}) calls = Some (subscriptions t' \<noteq> {})"
  using tlc.run_invar [of f g t xs] tlc.run_toggles [of f g t xs] assms by (simp add: follows_def)

definition sample_run :: "topic_op list" where
  "sample_run = [OpSub (sample_conn 1 ''a'') (sample_params ''btc''), OpSub (sample_conn 2 ''b'') (sample_params ''eth''),
     OpUnsub (sample_conn 1 ''a'') (sample_params ''btc''), OpConnGone (sample_conn 2 ''b'')]"

theorem first_last_alternate_witness:
  "toggles (is_first_call 3) (is_last_call 4) False (snd (run_ops topic_step sample_topic sample_run)) =
     Some (subscriptions (fst (run_ops topic_step sample_topic sample_run)) \<noteq> {})"
proof -
  have ok: "run_ok topic_step topic_good sample_topic sample_run"
  proof -
    have p: "params_ok (t_pattern (fst (topic_step t x))) ps" if "params_ok (t_pattern t) ps" for t x ps
      using that topic_step_frame [of t x]
      by (metis topic.ext_inject topic.surjective topic.update_convs(4))
    show ?thesis
      unfolding sample_run_def run_ok.simps by (simp add: sample_params_ok p del: topic_step.simps)
  qed
  show ?thesis
    using first_last_alternate [OF sample_inv _ _ ok surjective_pairing, of 3 4]
    by (simp add: sample_topic_simps sample_subscriptions)
qed

end
