(* ===== verification/Ws_Topic_Pub.thy ===== *)
theory Ws_Topic_Pub
  imports Ws_Topic_Subs
begin

text \<open>
  Publishing and dropping as seen by the connections. The specification is a function that says for
  one subscription, on its own, what is written to its connection (\<open>deliver\<close>); the cache of encoded
  events and the order of the goroutines are shown not to matter. The second half is about the
  contexts that the event functions receive, and what publishing through them reaches.
\<close>

section \<open>One subscription at a time\<close>

definition encoded :: "'p marshal \<Rightarrow> 'p data \<Rightarrow> string \<Rightarrow> go_error + string" where
  "encoded marshal data rawTopic = marshal (gm_set data ''topic'' (JStr rawTopic))"

definition admitted :: "pattern \<Rightarrow> middleware list \<Rightarrow> conn \<times> params \<Rightarrow> bool" where
  "admitted ptrn mws job \<longleftrightarrow>
     (\<forall>mfn \<in> set mws. mfn (new_topic_params_context (c_ctx (fst job)) (snd job)) (pattern_format ptrn (snd job)))"

definition deliver ::
  "'p marshal \<Rightarrow> (conn \<Rightarrow> bool) \<Rightarrow> pattern \<Rightarrow> 'p data \<Rightarrow> conn \<times> params \<Rightarrow> pub_call" where
  "deliver marshal accept ptrn data job =
     conn_publish accept (fst job) (encoded marshal data (pattern_format ptrn (snd job)))"

definition presets_ok :: "'p marshal \<Rightarrow> 'p data \<Rightarrow> (string, go_error + string) gomap \<Rightarrow> bool" where
  "presets_ok marshal data presets \<longleftrightarrow>
     (\<forall>raw ev. gm_get presets raw = Some ev \<longrightarrow> ev = encoded marshal data raw)"

lemma preset_data_correct:
  assumes "presets_ok marshal data presets" and "preset_data marshal data presets raw = (ev, presets', enc)"
  shows "ev = encoded marshal data raw \<and> presets_ok marshal data presets' \<and>
    enc = (if gm_get presets raw = None then [raw] else []) \<and>
    (\<forall>k. gm_get presets' k = None \<longleftrightarrow> gm_get presets k = None \<and> k \<noteq> raw)"
  using assms
  by (auto simp: preset_data_def presets_ok_def encoded_def Let_def split: option.splits if_splits)

text \<open>The cache changes no event, and every raw topic that is needed is encoded once.\<close>

lemma publish_jobs_correct:
  assumes "presets_ok marshal data presets"
    and "publish_jobs marshal accept ptrn data mws presets jobs = (calls, encs)"
  shows "calls = map (deliver marshal accept ptrn data) (filter (admitted ptrn mws) jobs) \<and>
    distinct encs \<and>
    set encs = {raw. gm_get presets raw = None \<and>
      raw \<in> (\<lambda>job. pattern_format ptrn (snd job)) ` set (filter (admitted ptrn mws) jobs)}"
  using assms
proof (induction jobs arbitrary: presets calls encs)
  case Nil
  then show ?case by simp
next
  case (Cons job jobs)
  obtain sub ps where job: "job = (sub, ps)" by force
  let ?raw = "pattern_format ptrn ps"
  have adm: "admitted ptrn mws job \<longleftrightarrow>
      list_all (\<lambda>mfn. mfn (new_topic_params_context (c_ctx sub) ps) ?raw) mws"
    by (simp add: admitted_def list_all_iff job)
  show ?case
  proof (cases "admitted ptrn mws job")
    case False
    with Cons.prems adm job have "publish_jobs marshal accept ptrn data mws presets jobs = (calls, encs)"
      by (simp add: Let_def)
    from Cons.IH [OF Cons.prems(1) this] False show ?thesis by simp
  next
    case True
    obtain ev presets' enc where pd: "preset_data marshal data presets ?raw = (ev, presets', enc)"
      by (metis prod_cases3)
    obtain calls' encs' where rest: "publish_jobs marshal accept ptrn data mws presets' jobs = (calls', encs')"
      by force
    have r: "calls = conn_publish accept sub ev # calls'" "encs = enc @ encs'"
      using Cons.prems(2) True adm job pd rest by (simp_all add: Let_def)
    note p = preset_data_correct [OF Cons.prems(1) pd]
    have "presets_ok marshal data presets'" using p by blast
    note ih = Cons.IH [OF this rest]
    have "calls = map (deliver marshal accept ptrn data) (filter (admitted ptrn mws) (job # jobs))"
      using ih p r(1) True by (simp add: deliver_def job)
    moreover have "set encs = {raw. gm_get presets raw = None \<and>
        raw \<in> (\<lambda>job. pattern_format ptrn (snd job)) ` set (filter (admitted ptrn mws) (job # jobs))}"
    proof -
      have "set encs' = {raw. gm_get presets raw = None \<and> raw \<noteq> ?raw \<and>
          raw \<in> (\<lambda>job. pattern_format ptrn (snd job)) ` set (filter (admitted ptrn mws) jobs)}"
        using ih p by blast
      moreover have "set enc = {raw. gm_get presets raw = None \<and> raw = ?raw}"
        using p by auto
      ultimately show ?thesis using True by (auto simp: r(2) job)
    qed
    moreover have "distinct encs"
      using ih p by (auto simp: r(2))
    ultimately show ?thesis by blast
  qed
qed

lemma publish_correct:
  assumes "publish marshal accept sched ptrn subs data mws = (calls, encs)"
    and "mset (sched (jobs_of subs)) = mset (jobs_of subs)"
  shows "mset calls = mset (map (deliver marshal accept ptrn data) (filter (admitted ptrn mws) (jobs_of subs)))"
    and "distinct encs"
    and "set encs = (\<lambda>job. pattern_format ptrn (snd job)) ` set (filter (admitted ptrn mws) (jobs_of subs))"
proof -
  have "presets_ok marshal data []" by (simp add: presets_ok_def)
  note r = publish_jobs_correct [OF this, of accept ptrn mws "sched (jobs_of subs)" calls encs]
  have p: "publish_jobs marshal accept ptrn data mws [] (sched (jobs_of subs)) = (calls, encs)"
    using assms(1) by (simp add: publish_def)
  note r = r [OF p]
  have f: "mset (filter (admitted ptrn mws) (sched (jobs_of subs))) = mset (filter (admitted ptrn mws) (jobs_of subs))"
    using assms(2) by (simp add: mset_filter)
  then show "mset calls = mset (map (deliver marshal accept ptrn data) (filter (admitted ptrn mws) (jobs_of subs)))"
    using r by simp
  show "distinct encs" using r by blast
  show "set encs = (\<lambda>job. pattern_format ptrn (snd job)) ` set (filter (admitted ptrn mws) (jobs_of subs))"
    using r mset_eq_setD [OF f] by auto
qed

text \<open>The jobs of one connection are its entry in the subscriber list.\<close>

lemma jobs_of_conn:
  "gm_wf subs \<Longrightarrow> map snd (filter (\<lambda>job. fst job = c) (jobs_of subs)) =
     (case gm_get subs c of None \<Rightarrow> [] | Some pp \<Rightarrow> pp)"
proof (induction subs)
  case Nil
  then show ?case by (simp add: jobs_of_def)
next
  case (Cons e subs)
  obtain a pp where e: "e = (a, pp)" by force
  have wf: "gm_wf subs" and na: "a \<notin> set (gm_keys subs)"
    using Cons.prems by (auto simp: gm_wf_def gm_keys_def e)
  have j: "jobs_of (e # subs) = map (Pair a) pp @ jobs_of subs"
    by (simp add: jobs_of_def e)
  have g: "gm_get (e # subs) c = (if c = a then Some pp else gm_get subs c)"
    by (auto simp: gm_get_def e)
  have a: "filter (\<lambda>job. fst job = c) (map (Pair a) pp) = (if c = a then map (Pair a) pp else [])"
    by (induction pp) auto
  have "gm_get subs a = None" using na gm_keys_iff by metis
  then show ?case
    using Cons.IH [OF wf] by (simp add: j g a comp_def)
qed

lemma jobs_of_filter:
  assumes "gm_wf subs"
  shows "filter (\<lambda>job. fst job = c \<and> P job) (jobs_of subs) =
    map (Pair c) (filter (\<lambda>ps. P (c, ps)) (case gm_get subs c of None \<Rightarrow> [] | Some pp \<Rightarrow> pp))"
proof -
  have "filter (\<lambda>job. fst job = c) (jobs_of subs) =
      map (Pair c) (map snd (filter (\<lambda>job. fst job = c) (jobs_of subs)))"
    by (induction "jobs_of subs") (auto intro!: map_idI [symmetric] simp: o_def)
  then have "filter (\<lambda>job. fst job = c) (jobs_of subs) =
      map (Pair c) (case gm_get subs c of None \<Rightarrow> [] | Some pp \<Rightarrow> pp)"
    by (simp only: jobs_of_conn [OF assms])
  then have "filter P (filter (\<lambda>job. fst job = c) (jobs_of subs)) =
      map (Pair c) (filter (\<lambda>ps. P (c, ps)) (case gm_get subs c of None \<Rightarrow> [] | Some pp \<Rightarrow> pp))"
    by (simp add: filter_map o_def)
  then show ?thesis by (simp add: conj_commute)
qed

fun call_target :: "pub_call \<Rightarrow> conn" where
  "call_target (Sent c bb) = c"
| "call_target (Skipped c) = c"
| "call_target (EncodeFailed c e) = c"

lemma deliver_target [simp]: "call_target (deliver marshal accept ptrn data job) = fst job"
  by (simp add: deliver_def conn_publish_def split: sum.split)

lemma publish_per_conn:
  assumes "publish marshal accept sched ptrn subs data mws = (calls, encs)"
    and "mset (sched (jobs_of subs)) = mset (jobs_of subs)" and "gm_wf subs"
  shows "mset (filter (\<lambda>call. call_target call = c) calls) =
    mset (map (\<lambda>ps. deliver marshal accept ptrn data (c, ps))
      (filter (\<lambda>ps. admitted ptrn mws (c, ps)) (case gm_get subs c of None \<Rightarrow> [] | Some pp \<Rightarrow> pp)))"
proof -
  have "mset (filter (\<lambda>call. call_target call = c) calls) =
      filter_mset (\<lambda>call. call_target call = c) (mset (map (deliver marshal accept ptrn data) (filter (admitted ptrn mws) (jobs_of subs))))"
    using publish_correct(1) [OF assms(1,2)] by (simp add: mset_filter del: mset_map)
  also have "\<dots> = mset (map (deliver marshal accept ptrn data) (filter (\<lambda>job. fst job = c \<and> admitted ptrn mws job) (jobs_of subs)))"
    by (simp add: filter_map comp_def flip: mset_filter mset_map) (simp only: conj_commute)
  also have "\<dots> = mset (map (deliver marshal accept ptrn data) (map (Pair c)
      (filter (\<lambda>ps. admitted ptrn mws (c, ps)) (case gm_get subs c of None \<Rightarrow> [] | Some pp \<Rightarrow> pp))))"
    by (simp only: jobs_of_filter [OF assms(3)])
  finally show ?thesis by (simp add: comp_def)
qed


section \<open>Publishing to many and to one\<close>

definition pub_topic :: "topic \<Rightarrow> params \<Rightarrow> string" where
  "pub_topic t ps = pattern_format (with_topic_descriptor (t_pattern t) descriptor_pub) ps"

definition pub_event :: "'p marshal \<Rightarrow> 'p \<Rightarrow> string \<Rightarrow> go_error + string" where
  "pub_event marshal payload raw = marshal [(''payload'', JPayload payload), (''topic'', JStr raw)]"

definition passes :: "topic \<Rightarrow> middleware list \<Rightarrow> conn \<Rightarrow> params \<Rightarrow> bool" where
  "passes t mws c ps \<longleftrightarrow> (\<forall>mfn \<in> set mws. mfn (new_topic_params_context (c_ctx c) ps) (pub_topic t ps))"

lemma entry_of_default: "entry_of t c = (case gm_get (t_subs t) c of None \<Rightarrow> [] | Some pp \<Rightarrow> pp)"
  by (simp add: entry_of_def)

lemma publish_many_correct:
  assumes inv: "topic_inv t" and sched: "mset (sched (jobs_of (t_subs t))) = mset (jobs_of (t_subs t))"
    and pub: "publish_many marshal accept sched t payload filt = (calls, encs)"
  shows "mset (filter (\<lambda>call. call_target call = c) calls) =
      mset (map (\<lambda>ps. conn_publish accept c (pub_event marshal payload (pub_topic t ps)))
        (filter (passes t (t_middlewares t @ (case filt of None \<Rightarrow> [] | Some f \<Rightarrow> [f])) c) (entry_of t c)))"
    and "distinct encs"
proof -
  let ?mws = "t_middlewares t @ (case filt of None \<Rightarrow> [] | Some f \<Rightarrow> [f])"
  let ?ptrn = "with_topic_descriptor (t_pattern t) descriptor_pub"
  let ?data = "[(''payload'', JPayload payload)]"
  have p: "publish marshal accept sched ?ptrn (t_subs t) ?data ?mws = (calls, encs)"
    using pub by (simp add: publish_many_def)
  have d: "deliver marshal accept ?ptrn ?data (c, ps) = conn_publish accept c (pub_event marshal payload (pub_topic t ps))" for ps
    by (simp add: deliver_def encoded_def pub_event_def pub_topic_def gm_set_def)
  have a: "admitted ?ptrn ?mws (c, ps) = passes t ?mws c ps" for ps
    by (simp add: admitted_def passes_def pub_topic_def)
  show "mset (filter (\<lambda>call. call_target call = c) calls) =
      mset (map (\<lambda>ps. conn_publish accept c (pub_event marshal payload (pub_topic t ps)))
        (filter (passes t ?mws c) (entry_of t c)))"
    using publish_per_conn [OF p sched topic_invD(2) [OF inv], of c] by (simp only: d a entry_of_default)
  show "distinct encs" using publish_correct(2) [OF p sched] .
qed

text \<open>
  C7. Publishing to many, for every order in which the goroutines run: what a connection gets is one
  event for each of its subscriptions to the topic whose context and topic string pass the topic's
  middlewares and the filter, and nothing else; the event carries the payload and the topic string
  with the \<open>pub\<close> descriptor and the subscription's own parameters. No topic string is encoded twice.
\<close>

theorem publish_many_delivers:
  assumes "topic_inv t" and "mset (sched (jobs_of (t_subs t))) = mset (jobs_of (t_subs t))"
    and "publish_many marshal accept sched t payload filt = (calls, encs)"
  shows "mset (filter (\<lambda>call. call_target call = c) calls) =
      mset (map (\<lambda>ps. conn_publish accept c (pub_event marshal payload (pub_topic t ps)))
        (filter (passes t (t_middlewares t @ (case filt of None \<Rightarrow> [] | Some f \<Rightarrow> [f])) c) (entry_of t c))) \<and>
    distinct encs"
  using publish_many_correct [OF assms] by blast

text \<open>An encoder for the samples: the strings of the event, one after the other.\<close>

definition sample_marshal :: "string marshal" where
  "sample_marshal data = Inr (concat (map (\<lambda>(k, v). k @ '':'' @ (case v of JStr s \<Rightarrow> s | JPayload s \<Rightarrow> s) @ '';'') data))"

lemma sample_topic1_subs: "t_subs sample_topic1 = [(sample_conn 1 ''a'', [sample_params ''btc''])]"
  "t_middlewares sample_topic1 = []" "t_supv sample_topic1 = Background"
  by (simp_all add: sample_topic1_def add_sub_def sample_topic_simps gm_set_def gm_len_def Let_def
      sample_topic_def on_last_unsub_def on_first_sub_def on_unsub_def on_sub_def new_topic_def)

lemma sample_pub_topic: "pub_topic sample_topic1 (sample_params ''btc'') = ''pub~update@btc.tick''"
  unfolding pub_topic_def sample_topic1_facts(2) sample_topic_simps sample_params_def by code_simp

theorem publish_many_delivers_witness:
  "filter (\<lambda>call. call_target call = sample_conn 1 ''a'')
     (fst (publish_many sample_marshal (\<lambda>_. True) rev sample_topic1 ''42'' None)) =
   [Sent (sample_conn 1 ''a'') ''payload:42;topic:pub~update@btc.tick;'']"
proof -
  have "mset (filter (\<lambda>call. call_target call = sample_conn 1 ''a'')
     (fst (publish_many sample_marshal (\<lambda>_. True) rev sample_topic1 ''42'' None))) =
     {#Sent (sample_conn 1 ''a'') ''payload:42;topic:pub~update@btc.tick;''#}"
    using publish_many_delivers [OF sample_topic1_facts(1) _ surjective_pairing, where sched = rev and marshal = sample_marshal and accept = "\<lambda>_. True" and payload = "''42''"
          and filt = None and c = "sample_conn 1 ''a''"]
    by (simp add: sample_topic1_subs entry_of_def gm_get_def passes_def sample_pub_topic pub_event_def
        sample_marshal_def conn_publish_def)
  then show ?thesis by (simp only: mset_single_iff)
qed


section \<open>The contexts of the event functions\<close>

lemma ctx_value_params_ctx:
  "k \<noteq> TopicParamsKey \<Longrightarrow> ctx_value (new_topic_params_context c ps) k = ctx_value c k"
  by (simp add: new_topic_params_context_def)

text \<open>The context of a sub or unsub function: the subscription's, then the supervisor's.\<close>

definition callback_ctx :: "topic \<Rightarrow> conn \<Rightarrow> params \<Rightarrow> ctx" where
  "callback_ctx t c ps = Multi [new_topic_params_context (c_ctx c) ps, t_supv t]"

lemma callback_ctx_id:
  "ctx_value (c_ctx c) WsCtxID = Some i \<Longrightarrow> ctx_value (callback_ctx t c ps) WsCtxID = Some i"
  by (simp add: callback_ctx_def ctx_value_params_ctx)

lemma callback_ctx_params:
  "gm_len ps \<noteq> 0 \<Longrightarrow> topic_param_from_context (callback_ctx t c ps) k = param_get ps k"
  by (simp add: callback_ctx_def topic_param_from_context_def new_topic_params_context_def)

text \<open>
  The functions registered for subscriptions find, in the context they get, the parameter values
  of the very subscription that was added and the id of its connection; and so do those registered
  for unsubscriptions.
\<close>

lemma callbacks_see_subscription:
  assumes "CallSub fn cctx \<in> set (snd (add_sub t c ps)) \<or> CallUnsub fn cctx \<in> set (snd (remove_sub t c ps))"
    and "ctx_value (c_ctx c) WsCtxID = Some i"
  shows "ctx_value cctx WsCtxID = Some i \<and>
    (ps \<noteq> [] \<longrightarrow> topic_param_from_context cctx k = (case gm_get ps k of None \<Rightarrow> '''' | Some v \<Rightarrow> v))"
proof -
  have "cctx = callback_ctx t c ps"
    using assms(1)
    by (auto simp: add_sub_def remove_sub_def exec_sub_fns_def exec_first_sub_fns_def exec_unsub_fns_def
        exec_last_unsub_fns_def callback_ctx_def Let_def split: if_splits option.splits)
  then show ?thesis
    using callback_ctx_id [OF assms(2)] callback_ctx_params [of ps t c k] by (simp add: gm_len_def param_get_def)
qed

lemma callbacks_see_subscription_witness:
  "topic_param_from_context (callback_ctx sample_topic (sample_conn 1 ''a'') (sample_params ''btc'')) ''ex'' = ''btc''"
proof -
  have "CallSub 1 (callback_ctx sample_topic (sample_conn 1 ''a'') (sample_params ''btc'')) \<in>
      set (snd (add_sub sample_topic (sample_conn 1 ''a'') (sample_params ''btc'')))"
    by (simp add: add_sub_def sample_topic_simps exec_sub_fns_def callback_ctx_def gm_len_def Let_def)
  then show ?thesis
    using callbacks_see_subscription [of 1 _ sample_topic "sample_conn 1 ''a''" "sample_params ''btc''"
        "StrVal ''a''" "''ex''"]
    by (simp add: sample_conn_def sample_params_def gm_get_def)
qed

text \<open>
  Publishing to one: with a context that carries the id of a connection (as the context of every
  sub function does), the connections with that id get one event for every subscription of theirs to
  the topic that passes the middlewares, whatever parameters the context carries; every other
  connection gets nothing.
\<close>

lemma publish_one_reaches:
  assumes "topic_inv t" and "mset (sched (jobs_of (t_subs t))) = mset (jobs_of (t_subs t))"
    and "publish_one marshal accept sched t ctx payload = (calls, encs)"
    and "ctx_value ctx WsCtxID = Some i"
  shows "mset (filter (\<lambda>call. call_target call = c) calls) =
    (if ctx_value (c_ctx c) WsCtxID = Some i
     then mset (map (\<lambda>ps. conn_publish accept c (pub_event marshal payload (pub_topic t ps)))
            (filter (passes t (t_middlewares t) c) (entry_of t c)))
     else {#})"
proof -
  let ?f = "\<lambda>c' (_ :: string). ctx_value c' WsCtxID = Some i"
  have "publish_many marshal accept sched t payload (Some ?f) = (calls, encs)"
    using assms(3,4) by (simp add: publish_one_def)
  from publish_many_correct(1) [OF assms(1,2) this, of c]
  have r: "mset (filter (\<lambda>call. call_target call = c) calls) =
      mset (map (\<lambda>ps. conn_publish accept c (pub_event marshal payload (pub_topic t ps)))
        (filter (passes t (t_middlewares t @ [?f]) c) (entry_of t c)))" by simp
  have "passes t (t_middlewares t @ [?f]) c ps \<longleftrightarrow>
      passes t (t_middlewares t) c ps \<and> ctx_value (c_ctx c) WsCtxID = Some i" for ps
    by (auto simp: passes_def ctx_value_params_ctx)
  then have "filter (passes t (t_middlewares t @ [?f]) c) (entry_of t c) =
      (if ctx_value (c_ctx c) WsCtxID = Some i then filter (passes t (t_middlewares t) c) (entry_of t c) else [])"
    by (auto intro: filter_cong)
  with r show ?thesis by (simp only: if_distrib list.map mset.simps split: if_split)
qed

lemma publish_one_reaches_witness:
  "mset (filter (\<lambda>call. call_target call = sample_conn 2 ''b'')
     (fst (publish_one sample_marshal (\<lambda>_. True) id sample_topic1
        (callback_ctx sample_topic (sample_conn 1 ''a'') (sample_params ''btc'')) ''42''))) = {#}"
  using publish_one_reaches [OF sample_topic1_facts(1) _ surjective_pairing, where sched = id and i = "StrVal ''a''"
      and ctx = "callback_ctx sample_topic (sample_conn 1 ''a'') (sample_params ''btc'')"
      and c = "sample_conn 2 ''b''" and marshal = sample_marshal and accept = "\<lambda>_. True" and payload = "''42''"]
    callback_ctx_id [of "sample_conn 1 ''a''" "StrVal ''a''"]
  by (simp add: sample_conn_def del: mset_filter)

section \<open>What a drop sends\<close>

definition drop_event :: "'p marshal \<Rightarrow> string \<Rightarrow> string \<Rightarrow> go_error + string" where
  "drop_event marshal reason raw =
     marshal ((if reason \<noteq> '''' then [(''reason'', JStr reason)] else []) @ [(''topic'', JStr raw)])"

text \<open>
  A drop tells exactly the dropped: whatever the orders of the map iteration and of the goroutines,
  each connection gets one message for each of its subscriptions that the filter selected (all, without
  a filter), with the reason, if any, and the topic string with the \<open>drop\<close> descriptor and that
  subscription's parameters; the topic's middlewares do not matter.
\<close>

lemma drop_many_notifies:
  assumes inv: "topic_inv t" and ord: "range_order (t_subs t) ord"
    and sched: "\<forall>jobs. mset (sched jobs) = mset jobs"
    and drop: "drop_many marshal accept sched ord t reason filt = (t', calls, pubs)"
  shows "mset (filter (\<lambda>call. call_target call = c) pubs) =
    mset (map (\<lambda>ps. conn_publish accept c (drop_event marshal reason
                (pattern_format (with_topic_descriptor (t_pattern t) descriptor_drop) ps)))
      (filter (selected t filt c) (entry_of t c)))"
proof -
  let ?ptrn = "with_topic_descriptor (t_pattern t) descriptor_drop"
  let ?data = "if reason \<noteq> '''' then [(''reason'', JStr reason)] else []"
  obtain subs' dropped cs where loop: "drop_conns t filt (t_subs t) [] ord = (subs', dropped, cs)"
    by (metis prod_cases3)
  note l = drop_loop_correct [OF inv ord loop]
  obtain pubs' encs where p: "publish marshal accept sched ?ptrn dropped ?data [] = (pubs', encs)" by force
  have pubs: "pubs = pubs'"
    using drop p by (auto simp: drop_many_def loop Let_def)
  have d: "deliver marshal accept ?ptrn ?data (c, ps) = conn_publish accept c (drop_event marshal reason (pattern_format ?ptrn ps))" for ps
    by (simp add: deliver_def encoded_def drop_event_def gm_set_def)
  have e: "(case gm_get dropped c of None \<Rightarrow> [] | Some pp \<Rightarrow> pp) = filter (selected t filt c) (entry_of t c)"
    using l(4) [of c] by (simp add: dropped_of_def)
  have a: "filter (\<lambda>ps. admitted ?ptrn [] (c, ps)) xs = xs" for xs
    by (simp add: admitted_def)
  show ?thesis
    unfolding pubs
    using publish_per_conn [OF p _ l(2), of c] sched by (simp only: d e a)
qed

lemma drop_many_notifies_witness:
  "mset (filter (\<lambda>call. call_target call = sample_conn 1 ''a'')
     (snd (snd (drop_many sample_marshal (\<lambda>_. True) rev [sample_conn 1 ''a''] sample_topic1 ''why'' None)))) =
   {#Sent (sample_conn 1 ''a'') ''reason:why;topic:drop~update@btc.tick;''#}"
proof -
  obtain t' calls pubs where d: "drop_many sample_marshal (\<lambda>_. True) rev [sample_conn 1 ''a''] sample_topic1 ''why'' None = (t', calls, pubs)"
    by (metis prod_cases3)
  have o: "range_order (t_subs sample_topic1) [sample_conn 1 ''a'']"
    by (simp add: range_order_def sample_topic1_subs gm_keys_def)
  have "pattern_format (with_topic_descriptor (t_pattern sample_topic) descriptor_drop) (sample_params ''btc'') =
      ''drop~update@btc.tick''"
    unfolding sample_topic_simps sample_params_def by code_simp
  then show ?thesis
    using drop_many_notifies [OF sample_topic1_facts(1) o _ d, of "sample_conn 1 ''a''"]
    by (simp add: d sample_topic1_subs sample_topic1_facts(2) entry_of_def gm_get_def selected_def
        drop_event_def sample_marshal_def conn_publish_def del: mset_filter One_nat_def)
qed

end
