(* ===== verification/Ws_Router.thy ===== *)
theory Ws_Router
  imports Ws_Topic_Pub
begin

text \<open>
  The router (\<^verbatim>\<open>Router\<close> of \<^verbatim>\<open>wsserver/topic.go\<close>): the map from registered raw topics to topics, the
  search that matches a requested topic against the registered patterns, and the operations that
  forward subscriptions, unsubscriptions and closed connections to the topics. The order in which a
  \<^verbatim>\<open>range\<close> over the map visits the topics is a parameter \<open>ord\<close> of each operation.
\<close>

section \<open>The operations\<close>

record router =
  r_topics :: "(string, topic) gomap"

definition new_router :: router where
  "new_router = \<lparr>r_topics = []\<rparr>"

text \<open>
  The result of \<^verbatim>\<open>Bind\<close> is the panic's message or the new router. The binder is user code; it gets the
  topic and may register event functions. \<open>None\<close> is the nil interface. The topic's new supervisor has
  the context \<open>supv\<close>.
\<close>

definition bind :: "ctx \<Rightarrow> string \<Rightarrow> (topic \<Rightarrow> topic) option \<Rightarrow> middleware list \<Rightarrow> router \<Rightarrow> string + router" where
  "bind supv rawTopic bndr middlewares r =
     (case parse_topic rawTopic of
        Panic \<Rightarrow> Inl ''runtime error: index out of range''
      | Err err \<Rightarrow> Inl (''wsserver: '' @ err)
      | Ret tpc \<Rightarrow>
          (case bndr of
             None \<Rightarrow> Inl ''wsserver: invalid binder''
           | Some b \<Rightarrow>
               if gm_get (r_topics r) rawTopic \<noteq> None
               then Inl (''wsserver: multiple registrations for '' @ rawTopic)
               else
                 let v = new_topic supv tpc middlewares
                 in Inr (r\<lparr>r_topics := gm_set (r_topics r) rawTopic (b v)\<rparr>)))"

text \<open>
  \<^verbatim>\<open>BindFunc\<close> turns a function into a binder. A nil function makes a binder that is not nil, whose call
  panics.
\<close>

definition bind_func :: "ctx \<Rightarrow> string \<Rightarrow> (topic \<Rightarrow> topic) option \<Rightarrow> middleware list \<Rightarrow> router \<Rightarrow> string + router" where
  "bind_func supv rawTopic binderFn middlewares r =
     (case binderFn of
        Some fn \<Rightarrow> bind supv rawTopic (Some fn) middlewares r
      | None \<Rightarrow>
          (case bind supv rawTopic (Some (\<lambda>v. v)) middlewares r of
             Inl msg \<Rightarrow> Inl msg
           | Inr r' \<Rightarrow> Inl ''runtime error: invalid memory address or nil pointer dereference''))"

lemma bind_func_nil: "\<exists>msg. bind_func supv rawTopic None mws r = Inl msg \<and> msg \<noteq> ''wsserver: invalid binder''"
  by (auto simp: bind_func_def bind_def Let_def parse_topic_def split: outcome.splits sum.splits if_splits)

text \<open>The loop over the path; both lists have the same length when it starts.\<close>

fun match_path :: "pathElem list \<Rightarrow> string list \<Rightarrow> params \<Rightarrow> params option" where
  "match_path (pElem # elems) (p # ps) params =
     (if pe_placeholder pElem then match_path elems ps (gm_set params (pe_value pElem) p)
      else if pe_value pElem \<noteq> p then None
      else match_path elems ps params)"
| "match_path elems ps params = Some params"

definition match_topic :: "pattern \<Rightarrow> Topic \<Rightarrow> params option" where
  "match_topic ptrn tpc =
     (if Operation (p_topic ptrn) \<noteq> Operation tpc then None
      else if length (p_path ptrn) \<noteq> length (Path tpc) then None
      else match_path (p_path ptrn) (Path tpc) [])"

text \<open>The loop over the topics; a topic is named by its key in the map.\<close>

fun find_topic :: "(string, topic) gomap \<Rightarrow> Topic \<Rightarrow> string list \<Rightarrow> (string \<times> topic \<times> params) option" where
  "find_topic topics tpc [] = None"
| "find_topic topics tpc (k # ord) =
     (case gm_get topics k of
        None \<Rightarrow> find_topic topics tpc ord
      | Some v \<Rightarrow>
          (case match_topic (t_pattern v) tpc of
             None \<Rightarrow> find_topic topics tpc ord
           | Some params \<Rightarrow> Some (k, v, params)))"

definition add_topic_sub :: "string list \<Rightarrow> router \<Rightarrow> Topic \<Rightarrow> conn \<Rightarrow> go_error option \<times> router \<times> event_call list" where
  "add_topic_sub ord r tpc sub =
     (case find_topic (r_topics r) tpc ord of
        None \<Rightarrow> (Some (Plain (Other ''invalid topic'')), r, [])
      | Some (k, v, params) \<Rightarrow>
          let (v', calls) = add_sub v sub params
          in (None, r\<lparr>r_topics := gm_set (r_topics r) k v'\<rparr>, calls))"

definition remove_topic_sub :: "string list \<Rightarrow> router \<Rightarrow> Topic \<Rightarrow> conn \<Rightarrow> router \<times> event_call list" where
  "remove_topic_sub ord r tpc sub =
     (case find_topic (r_topics r) tpc ord of
        None \<Rightarrow> (r, [])
      | Some (k, v, params) \<Rightarrow>
          let (v', calls) = remove_sub v sub params
          in (r\<lparr>r_topics := gm_set (r_topics r) k v'\<rparr>, calls))"

fun router_remove_conn :: "string list \<Rightarrow> router \<Rightarrow> conn \<Rightarrow> router \<times> event_call list" where
  "router_remove_conn [] r c = (r, [])"
| "router_remove_conn (k # ord) r c =
     (case gm_get (r_topics r) k of
        None \<Rightarrow> router_remove_conn ord r c
      | Some v \<Rightarrow>
          let (v', calls) = remove_conn v c;
              (r', calls') = router_remove_conn ord (r\<lparr>r_topics := gm_set (r_topics r) k v'\<rparr>) c
          in (r', calls @ calls'))"

text \<open>The supervisors that \<^verbatim>\<open>Close\<close> closes and waits for, in the order of the loop.\<close>

definition router_close :: "string list \<Rightarrow> router \<Rightarrow> ctx list" where
  "router_close ord r = map t_supv (List.map_filter (gm_get (r_topics r)) ord)"

section \<open>Matching\<close>

text \<open>A path fits a pattern: the literal elements agree.\<close>

definition fits :: "pathElem list \<Rightarrow> string list \<Rightarrow> bool" where
  "fits elems ps \<longleftrightarrow> list_all2 (\<lambda>e p. pe_placeholder e \<or> pe_value e = p) elems ps"

lemma fits_simps [simp]:
  "fits [] ps \<longleftrightarrow> ps = []" "fits elems [] \<longleftrightarrow> elems = []"
  "fits (e # elems) (p # ps) \<longleftrightarrow> (pe_placeholder e \<or> pe_value e = p) \<and> fits elems ps"
  by (simp_all add: fits_def)

definition names :: "pathElem list \<Rightarrow> string list" where
  "names elems = map pe_value (filter pe_placeholder elems)"

lemma match_path_None:
  "length elems = length ps \<Longrightarrow> match_path elems ps acc = None \<longleftrightarrow> \<not> fits elems ps"
  by (induction elems ps acc rule: match_path.induct) auto

lemma match_path_keys:
  "match_path elems ps acc = Some params \<Longrightarrow> length elems = length ps \<Longrightarrow> gm_wf acc \<Longrightarrow>
   gm_wf params \<and> (\<forall>k. gm_get params k = None \<longleftrightarrow> gm_get acc k = None \<and> k \<notin> set (names elems))"
proof (induction elems ps acc rule: match_path.induct)
  case (1 e elems p ps acc)
  then show ?case by (auto simp: names_def split: if_splits)
qed (auto simp: names_def)

text \<open>Names that do not occur again keep their value.\<close>

lemma match_path_keep:
  "match_path elems ps acc = Some params \<Longrightarrow> length elems = length ps \<Longrightarrow> k \<notin> set (names elems) \<Longrightarrow>
   gm_get params k = gm_get acc k"
proof (induction elems ps acc rule: match_path.induct)
  case (1 e elems p ps acc)
  then show ?case by (auto simp: names_def split: if_splits)
qed auto

lemma match_path_values:
  "match_path elems ps acc = Some params \<Longrightarrow> length elems = length ps \<Longrightarrow> distinct (names elems) \<Longrightarrow>
   map (\<lambda>e. if pe_placeholder e then param_get params (pe_value e) else pe_value e) elems = ps"
proof (induction elems ps acc rule: match_path.induct)
  case (1 e elems p ps acc)
  show ?case
  proof (cases "pe_placeholder e")
    case True
    then have m: "match_path elems ps (gm_set acc (pe_value e) p) = Some params"
      and "pe_value e \<notin> set (names elems)" and "distinct (names elems)" and l: "length elems = length ps"
      using 1(3-5) by (simp_all add: names_def)
    then have "gm_get params (pe_value e) = Some p"
      using match_path_keep [OF m l] by simp
    then show ?thesis
      using 1(1) [OF True m l \<open>distinct (names elems)\<close>] True by (simp add: param_get_def)
  next
    case False
    then show ?thesis using 1(2) [OF False] 1(3-5) by (simp add: names_def split: if_splits)
  qed
qed auto

lemma placeholder_names_eq: "placeholder_names p = names (p_path p)"
  by (simp add: placeholder_names_def names_def)

lemma match_topic_iff:
  "match_topic p tpc \<noteq> None \<longleftrightarrow> Operation (p_topic p) = Operation tpc \<and> fits (p_path p) (Path tpc)"
proof -
  have "fits (p_path p) (Path tpc) \<Longrightarrow> length (p_path p) = length (Path tpc)"
    by (auto simp: fits_def dest: list_all2_lengthD)
  then show ?thesis
    using match_path_None [of "p_path p" "Path tpc" "[]"] by (auto simp: match_topic_def split: if_splits)
qed

lemma match_topic_params_ok:
  assumes "match_topic p tpc = Some params"
  shows "params_ok p params"
proof -
  have m: "match_path (p_path p) (Path tpc) [] = Some params" "length (p_path p) = length (Path tpc)"
    using assms by (auto simp: match_topic_def split: if_splits)
  have "k \<in> set (gm_keys params) \<longleftrightarrow> k \<in> set (names (p_path p))" for k
    using match_path_keys [OF m gm_wf_Nil] gm_keys_iff [of k params] by simp
  then show ?thesis
    using match_path_keys [OF m gm_wf_Nil] by (auto simp: params_ok_def placeholder_names_eq)
qed

lemma match_topic_format:
  assumes "match_topic p tpc = Some params" and "distinct (placeholder_names p)"
  shows "pattern_format p params = topic_string ((p_topic p)\<lparr>Path := Path tpc\<rparr>)"
    and "Operation (p_topic p) = Operation tpc"
proof -
  have m: "match_path (p_path p) (Path tpc) [] = Some params" "length (p_path p) = length (Path tpc)"
    and o: "Operation (p_topic p) = Operation tpc"
    using assms(1) by (auto simp: match_topic_def split: if_splits)
  from m assms(2) show "pattern_format p params = topic_string ((p_topic p)\<lparr>Path := Path tpc\<rparr>)"
    using match_path_values by (simp add: pattern_format_def placeholder_names_eq)
  show "Operation (p_topic p) = Operation tpc" by (rule o)
qed

lemma match_topic_format_descriptor:
  assumes "match_topic p tpc = Some params" and "distinct (placeholder_names p)"
  shows "pattern_format (with_topic_descriptor p d) params = topic_string (tpc\<lparr>Descriptor := d\<rparr>)"
proof -
  have "match_topic (with_topic_descriptor p d) tpc = Some params"
    using assms(1) by (auto simp: match_topic_def with_topic_descriptor_def split: if_splits)
  moreover have "distinct (placeholder_names (with_topic_descriptor p d))"
    using assms(2) by (simp add: placeholder_names_def with_topic_descriptor_def)
  ultimately show ?thesis
    using match_topic_format [of "with_topic_descriptor p d" tpc params]
    by (simp add: with_topic_descriptor_def topic_string_def Let_def split: if_splits)
qed

lemma pattern_format_cong: "gm_get qs = gm_get ps \<Longrightarrow> pattern_format p qs = pattern_format p ps"
  by (simp add: pattern_format_def param_get_def cong: if_cong)

text \<open>
  C10. Matching and formatting are inverse: when a requested topic matches a pattern whose placeholder
  names are distinct, formatting the pattern with the extracted parameters gives back the requested
  operation and path, under the descriptor of the pattern; in particular an event that is published
  for these parameters names the topic exactly as the client subscribed to it.
\<close>

theorem match_then_format:
  assumes "match_topic p tpc = Some params" and "distinct (placeholder_names p)"
  shows "pattern_format (with_topic_descriptor p d) params = topic_string (tpc\<lparr>Descriptor := d\<rparr>)"
  using match_topic_format_descriptor [OF assms] .

theorem match_then_format_witness:
  "pattern_format (with_topic_descriptor (t_pattern sample_topic) ''pub'') (sample_params ''btc'') =
     topic_string \<lparr>Descriptor = ''pub'', Operation = ''update'', Path = [''btc'', ''tick'']\<rparr>"
proof -
  have "match_topic (t_pattern sample_topic) \<lparr>Descriptor = ''sub'', Operation = ''update'', Path = [''btc'', ''tick'']\<rparr> =
      Some (sample_params ''btc'')"
    unfolding sample_topic_simps sample_params_def by code_simp
  from match_then_format [OF this, of "''pub''"] show ?thesis
    by (simp add: sample_placeholders)
qed


section \<open>The search and the order of the map\<close>

definition overlap :: "pattern \<Rightarrow> pattern \<Rightarrow> bool" where
  "overlap p q \<longleftrightarrow> Operation (p_topic p) = Operation (p_topic q) \<and>
     list_all2 (\<lambda>e f. pe_placeholder e \<or> pe_placeholder f \<or> pe_value e = pe_value f) (p_path p) (p_path q)"

lemma overlap_path:
  "list_all2 (\<lambda>e f. pe_placeholder e \<or> pe_placeholder f \<or> pe_value e = pe_value f) es fs \<longleftrightarrow>
     (\<exists>ps. fits es ps \<and> fits fs ps)"
proof (induction es arbitrary: fs)
  case Nil
  then show ?case by (cases fs) auto
next
  case (Cons e es)
  show ?case
  proof (cases fs)
    case Nil
    then show ?thesis by (auto simp: fits_def)
  next
    case (Cons f fs')
    have "(\<exists>ps. fits (e # es) ps \<and> fits (f # fs') ps) \<longleftrightarrow>
        (\<exists>p. (pe_placeholder e \<or> pe_value e = p) \<and> (pe_placeholder f \<or> pe_value f = p)) \<and> (\<exists>ps. fits es ps \<and> fits fs' ps)"
      (is "?L \<longleftrightarrow> ?R")
    proof
      assume ?L
      then obtain ps where "fits (e # es) ps" "fits (f # fs') ps" by blast
      then show ?R by (cases ps) auto
    next
      assume ?R
      then obtain p ps where "fits (e # es) (p # ps)" "fits (f # fs') (p # ps)" by auto
      then show ?L by blast
    qed
    then show ?thesis using Cons.IH [of fs'] Cons by auto
  qed
qed

lemma overlap_iff:
  "overlap p q \<longleftrightarrow> (\<exists>tpc. match_topic p tpc \<noteq> None \<and> match_topic q tpc \<noteq> None)"
proof
  assume "overlap p q"
  then obtain ps where "fits (p_path p) ps" "fits (p_path q) ps" "Operation (p_topic p) = Operation (p_topic q)"
    by (auto simp: overlap_def overlap_path)
  then have "match_topic p \<lparr>Descriptor = '''', Operation = Operation (p_topic p), Path = ps\<rparr> \<noteq> None \<and>
      match_topic q \<lparr>Descriptor = '''', Operation = Operation (p_topic p), Path = ps\<rparr> \<noteq> None"
    unfolding match_topic_iff by simp
  then show "\<exists>tpc. match_topic p tpc \<noteq> None \<and> match_topic q tpc \<noteq> None" by blast
next
  assume "\<exists>tpc. match_topic p tpc \<noteq> None \<and> match_topic q tpc \<noteq> None"
  then show "overlap p q" unfolding match_topic_iff overlap_def overlap_path by auto
qed

lemma find_topic_None:
  "find_topic topics tpc ord = None \<longleftrightarrow>
     (\<forall>k \<in> set ord. \<forall>v. gm_get topics k = Some v \<longrightarrow> match_topic (t_pattern v) tpc = None)"
  by (induction ord) (auto split: option.splits)

lemma find_topic_Some:
  "find_topic topics tpc ord = Some (k, v, params) \<Longrightarrow>
   k \<in> set ord \<and> gm_get topics k = Some v \<and> match_topic (t_pattern v) tpc = Some params"
  by (induction ord) (auto split: option.splits)

lemma range_order_first:
  assumes "gm_wf topics" and "gm_get topics k \<noteq> None"
  shows "range_order topics (k # remove1 k (gm_keys topics))"
proof -
  have "k \<in> set (gm_keys topics)" and "distinct (gm_keys topics)"
    using assms gm_keys_iff [of k topics] by (simp_all add: gm_wf_keys)
  then show ?thesis by (auto simp: range_order_def)
qed

definition unambiguous :: "(string, topic) gomap \<Rightarrow> bool" where
  "unambiguous topics \<longleftrightarrow> (\<forall>k v k' v'. gm_get topics k = Some v \<and> gm_get topics k' = Some v' \<and> k \<noteq> k' \<longrightarrow>
     \<not> overlap (t_pattern v) (t_pattern v'))"

lemma find_topic_unambiguous:
  assumes "unambiguous topics" and "range_order topics ord"
  shows "find_topic topics tpc ord = Some (k, v, params) \<longleftrightarrow>
    gm_get topics k = Some v \<and> match_topic (t_pattern v) tpc = Some params"
proof
  assume "gm_get topics k = Some v \<and> match_topic (t_pattern v) tpc = Some params"
  then have kv: "gm_get topics k = Some v" "match_topic (t_pattern v) tpc = Some params" by auto
  then have "k \<in> set ord" using range_orderD [OF assms(2)] by simp
  with kv have "find_topic topics tpc ord \<noteq> None" by (auto simp: find_topic_None)
  then obtain k' v' params' where f: "find_topic topics tpc ord = Some (k', v', params')" by force
  note g = find_topic_Some [OF f]
  have "k' = k"
  proof (rule ccontr)
    assume "k' \<noteq> k"
    then have "\<not> overlap (t_pattern v) (t_pattern v')"
      using assms(1) kv g unfolding unambiguous_def by blast
    with kv g show False by (auto simp: overlap_iff dest: spec [of _ tpc])
  qed
  with f g kv show "find_topic topics tpc ord = Some (k, v, params)" by simp
qed (use find_topic_Some in blast)

text \<open>
  C11. Routing depends on the order in which the map of topics is visited exactly when two registered
  patterns overlap, that is, have the same operation, the same length and no position with two
  different literals. (Go gives every iteration an order of its own, and the router accepts patterns
  that overlap.)
\<close>

theorem routing_deterministic_iff:
  assumes "gm_wf topics"
  shows "(\<forall>tpc ord ord'. range_order topics ord \<longrightarrow> range_order topics ord' \<longrightarrow>
      find_topic topics tpc ord = find_topic topics tpc ord') \<longleftrightarrow> unambiguous topics"
proof
  assume same: "\<forall>tpc ord ord'. range_order topics ord \<longrightarrow> range_order topics ord' \<longrightarrow>
      find_topic topics tpc ord = find_topic topics tpc ord'"
  show "unambiguous topics"
    unfolding unambiguous_def
  proof (intro allI impI notI)
    fix k v k' v'
    assume kv: "gm_get topics k = Some v \<and> gm_get topics k' = Some v' \<and> k \<noteq> k'"
      and "overlap (t_pattern v) (t_pattern v')"
    then obtain tpc ps ps' where m: "match_topic (t_pattern v) tpc = Some ps" "match_topic (t_pattern v') tpc = Some ps'"
      by (auto simp: overlap_iff)
    let ?o = "k # remove1 k (gm_keys topics)" and ?o' = "k' # remove1 k' (gm_keys topics)"
    have "range_order topics ?o" "range_order topics ?o'"
      using kv range_order_first [OF assms] by simp_all
    then have "find_topic topics tpc ?o = find_topic topics tpc ?o'" using same by blast
    with m kv show False by simp
  qed
next
  assume un: "unambiguous topics"
  show "\<forall>tpc ord ord'. range_order topics ord \<longrightarrow> range_order topics ord' \<longrightarrow>
      find_topic topics tpc ord = find_topic topics tpc ord'"
  proof (intro allI impI)
    fix tpc ord ord'
    assume "range_order topics ord" "range_order topics ord'"
    note f = find_topic_unambiguous [OF un this(1)] find_topic_unambiguous [OF un this(2)]
    show "find_topic topics tpc ord = find_topic topics tpc ord'"
      using f [of tpc] by (metis option.exhaust prod_cases3)
  qed
qed


definition pattern_a :: string where
  "pattern_a = ''update@'' @ ''{a}''"

definition pattern_b :: string where
  "pattern_b = ''update@'' @ ''{b}''"

lemma patterns_differ: "pattern_a \<noteq> pattern_b" "pattern_b \<noteq> pattern_a"
  by (simp_all add: pattern_a_def pattern_b_def)

definition overlapping_topics :: "(string, topic) gomap" where
  "overlapping_topics =
     [(pattern_a, new_topic Background \<lparr>Descriptor = '''', Operation = ''update'', Path = [''{a}'']\<rparr> []),
      (pattern_b, new_topic Background \<lparr>Descriptor = '''', Operation = ''update'', Path = [''{b}'']\<rparr> [])]"

theorem routing_deterministic_iff_witness:
  "\<not> (\<forall>tpc ord ord'. range_order overlapping_topics ord \<longrightarrow> range_order overlapping_topics ord' \<longrightarrow>
      find_topic overlapping_topics tpc ord = find_topic overlapping_topics tpc ord')"
proof -
  have wf: "gm_wf overlapping_topics" by (simp add: gm_wf_def overlapping_topics_def patterns_differ)
  have "overlap (new_pattern \<lparr>Descriptor = '''', Operation = ''update'', Path = [''{a}'']\<rparr>)
      (new_pattern \<lparr>Descriptor = '''', Operation = ''update'', Path = [''{b}'']\<rparr>)"
    by code_simp
  moreover have "gm_get overlapping_topics pattern_a =
      Some (new_topic Background \<lparr>Descriptor = '''', Operation = ''update'', Path = [''{a}'']\<rparr> [])"
    "gm_get overlapping_topics pattern_b =
      Some (new_topic Background \<lparr>Descriptor = '''', Operation = ''update'', Path = [''{b}'']\<rparr> [])"
    by (simp_all add: overlapping_topics_def gm_get_def patterns_differ)
  moreover note patterns_differ(1)
  moreover have "t_pattern (new_topic supv tpc mws) = new_pattern tpc" for supv tpc mws
    by (simp add: new_topic_def)
  ultimately have "\<not> unambiguous overlapping_topics"
    unfolding unambiguous_def by metis
  then show ?thesis using routing_deterministic_iff [OF wf] by blast
qed

section \<open>The invariant of the router and its abstract subscriptions\<close>

definition router_inv :: "router \<Rightarrow> bool" where
  "router_inv r \<longleftrightarrow> gm_wf (r_topics r) \<and>
     (\<forall>k t. gm_get (r_topics r) k = Some t \<longrightarrow> topic_inv t \<and>
        (\<exists>tpc. parse_topic k = Ret tpc \<and> t_pattern t = new_pattern tpc))"

lemma router_inv_topic: "router_inv r \<Longrightarrow> gm_get (r_topics r) k = Some t \<Longrightarrow> topic_inv t"
  by (simp add: router_inv_def)

lemma router_inv_set:
  assumes "router_inv r" and "gm_get (r_topics r) k = Some t" and "topic_inv t'" and "t_pattern t' = t_pattern t"
  shows "router_inv (r\<lparr>r_topics := gm_set (r_topics r) k t'\<rparr>)"
  using assms by (auto simp: router_inv_def)

text \<open>Who is subscribed to what: the key of the topic, the connection, and the parameter values.\<close>

definition router_subs :: "router \<Rightarrow> (string \<times> conn \<times> (string \<Rightarrow> string option)) set" where
  "router_subs r = {(k, s). \<exists>t. gm_get (r_topics r) k = Some t \<and> s \<in> subscriptions t}"

lemma router_subs_set:
  "gm_get (r_topics r) k \<noteq> None \<Longrightarrow>
   router_subs (r\<lparr>r_topics := gm_set (r_topics r) k t'\<rparr>) =
     {(k', s) \<in> router_subs r. k' \<noteq> k} \<union> Pair k ` subscriptions t'"
  by (auto simp: router_subs_def split: if_splits)

lemma router_inv_new: "router_inv new_router"
  by (simp add: router_inv_def new_router_def)

lemma bind_correct:
  assumes "router_inv r" and "\<forall>b t. bndr = Some b \<longrightarrow> t_pattern (b t) = t_pattern t \<and> t_subs (b t) = t_subs t"
  shows "(case bind supv rawTopic bndr mws r of
      Inl msg \<Rightarrow> (\<forall>tpc. parse_topic rawTopic \<noteq> Ret tpc) \<or> bndr = None \<or> gm_get (r_topics r) rawTopic \<noteq> None
    | Inr r' \<Rightarrow> router_inv r' \<and> router_subs r' = router_subs r \<and> gm_get (r_topics r) rawTopic = None \<and>
        (\<exists>t tpc. gm_get (r_topics r') rawTopic = Some t \<and> parse_topic rawTopic = Ret tpc \<and>
           t_pattern t = new_pattern tpc) \<and>
        (\<forall>k. k \<noteq> rawTopic \<longrightarrow> gm_get (r_topics r') k = gm_get (r_topics r) k))"
proof (cases "parse_topic rawTopic")
  case (Ret tpc)
  show ?thesis
  proof (cases bndr)
    case None
    with Ret show ?thesis by (simp add: bind_def)
  next
    case (Some b)
    show ?thesis
    proof (cases "gm_get (r_topics r) rawTopic")
      case None
      let ?t = "b (new_topic supv tpc mws)"
      have p: "t_pattern ?t = new_pattern tpc" "t_subs ?t = []"
        using assms(2) Some by (simp_all add: new_topic_def)
      have "topic_inv ?t" using p by (simp add: topic_inv_def)
      moreover have "subscriptions ?t = {}" using p by (simp add: subscriptions_def raw_subs_def)
      ultimately show ?thesis
        using Ret Some None p assms(1)
        by (auto simp: bind_def router_inv_def router_subs_def Let_def split: if_splits)
    next
      case (Some t)
      with Ret \<open>bndr = Some b\<close> show ?thesis by (simp add: bind_def)
    qed
  qed
qed (simp_all add: bind_def)


text \<open>
  Registering a topic: for a binder that only registers event functions, \<open>Bind\<close> panics exactly
  if the name does not parse, the binder is nil or the name is taken; otherwise the invariant is kept,
  the new topic is empty, is found under its name and takes nothing from the others' subscribers.
\<close>

lemma bind_registers:
  assumes "router_inv r" and "\<forall>b t. bndr = Some b \<longrightarrow> t_pattern (b t) = t_pattern t \<and> t_subs (b t) = t_subs t"
  shows "(case bind supv rawTopic bndr mws r of
      Inl msg \<Rightarrow> (\<forall>tpc. parse_topic rawTopic \<noteq> Ret tpc) \<or> bndr = None \<or> gm_get (r_topics r) rawTopic \<noteq> None
    | Inr r' \<Rightarrow> router_inv r' \<and> router_subs r' = router_subs r \<and> gm_get (r_topics r) rawTopic = None \<and>
        (\<exists>t tpc. gm_get (r_topics r') rawTopic = Some t \<and> parse_topic rawTopic = Ret tpc \<and>
           t_pattern t = new_pattern tpc) \<and>
        (\<forall>k. k \<noteq> rawTopic \<longrightarrow> gm_get (r_topics r') k = gm_get (r_topics r) k))"
  using bind_correct [OF assms] .

definition sample_pattern :: string where
  "sample_pattern = ''update@'' @ ''{ex}.tick''"

lemma bind_registers_witness:
  "\<exists>r'. bind Background sample_pattern (Some (on_sub 1)) [] new_router = Inr r' \<and> router_inv r' \<and> router_subs r' = {}"
proof -
  have p: "parse_topic sample_pattern = Ret \<lparr>Descriptor = '''', Operation = ''update'', Path = [''{ex}'', ''tick'']\<rparr>"
    by code_simp
  then obtain r' where b: "bind Background sample_pattern (Some (on_sub 1)) [] new_router = Inr r'"
    by (simp add: bind_def new_router_def Let_def)
  have "router_subs new_router = {}" by (simp add: router_subs_def new_router_def)
  moreover have h: "\<forall>b t. Some (on_sub 1) = Some b \<longrightarrow> t_pattern (b t) = t_pattern t \<and> t_subs (b t) = t_subs t"
    by (auto simp: on_sub_def)
  ultimately show ?thesis
    using bind_registers [OF router_inv_new h, where supv = Background and rawTopic = "sample_pattern" and mws = "[]"] b by auto
qed

section \<open>Subscriptions through the router\<close>

lemma add_topic_sub_correct:
  assumes "router_inv r" and "find_topic (r_topics r) tpc ord = Some (k, v, ps)"
    and "add_topic_sub ord r tpc c = (err, r', calls)"
  shows "err = None \<and> router_inv r' \<and> router_subs r' = insert (k, c, gm_get ps) (router_subs r) \<and>
    r_topics r' = gm_set (r_topics r) k (fst (add_sub v c ps)) \<and> calls = snd (add_sub v c ps)"
proof -
  note f = find_topic_Some [OF assms(2)]
  obtain v' where a: "add_sub v c ps = (v', calls)" and r': "r' = r\<lparr>r_topics := gm_set (r_topics r) k v'\<rparr>" "err = None"
    using assms(2,3) by (auto simp: add_topic_sub_def split: prod.splits)
  have inv: "topic_inv v" and m: "match_topic (t_pattern v) tpc = Some ps"
    using assms(1) f router_inv_topic by blast+
  note ac = add_sub_correct [OF inv match_topic_params_ok [OF m] a]
  have "router_inv r'"
    using router_inv_set [OF assms(1)] f ac by (simp add: r')
  moreover have "router_subs r' = insert (k, c, gm_get ps) (router_subs r)"
    using f ac router_subs_set [of r k v'] by (auto simp: r' router_subs_def)
  ultimately show ?thesis by (simp add: a r')
qed

lemma remove_topic_sub_correct:
  assumes "router_inv r" and "find_topic (r_topics r) tpc ord = Some (k, v, ps)"
    and "remove_topic_sub ord r tpc c = (r', calls)"
  shows "router_inv r' \<and> router_subs r' = router_subs r - {(k, c, gm_get ps)} \<and>
    r_topics r' = gm_set (r_topics r) k (fst (remove_sub v c ps)) \<and> calls = snd (remove_sub v c ps)"
proof -
  note f = find_topic_Some [OF assms(2)]
  obtain v' where a: "remove_sub v c ps = (v', calls)" and r': "r' = r\<lparr>r_topics := gm_set (r_topics r) k v'\<rparr>"
    using assms(2,3) by (auto simp: remove_topic_sub_def split: prod.splits)
  have inv: "topic_inv v" and m: "match_topic (t_pattern v) tpc = Some ps"
    using assms(1) f router_inv_topic by blast+
  note ac = remove_sub_correct [OF inv match_topic_params_ok [OF m] a]
  have "router_inv r'"
    using router_inv_set [OF assms(1)] f ac by (simp add: r')
  moreover have "router_subs r' = router_subs r - {(k, c, gm_get ps)}"
    using f ac router_subs_set [of r k v'] by (auto simp: r' router_subs_def)
  ultimately show ?thesis by (simp add: a r')
qed

text \<open>
  C12. A subscription request succeeds exactly if some registered pattern matches the requested topic.
  Then exactly one entry is added to the abstract subscriptions: this connection, under a matching
  topic, with the parameter values of the match. Otherwise nothing changes and nobody is called. The
  invariant holds in both cases.
\<close>

theorem router_subscribe:
  assumes "router_inv r" and "range_order (r_topics r) ord"
    and "add_topic_sub ord r tpc c = (err, r', calls)"
  shows "router_inv r' \<and>
    (if \<exists>k v. gm_get (r_topics r) k = Some v \<and> match_topic (t_pattern v) tpc \<noteq> None
     then err = None \<and> (\<exists>k v ps. gm_get (r_topics r) k = Some v \<and> match_topic (t_pattern v) tpc = Some ps \<and>
            router_subs r' = insert (k, c, gm_get ps) (router_subs r))
     else err \<noteq> None \<and> r' = r \<and> calls = [])"
proof (cases "find_topic (r_topics r) tpc ord")
  case None
  then have "\<not> (\<exists>k v. gm_get (r_topics r) k = Some v \<and> match_topic (t_pattern v) tpc \<noteq> None)"
    using range_orderD [OF assms(2)] by (auto simp: find_topic_None)
  moreover have "err \<noteq> None \<and> r' = r \<and> calls = []"
    using None assms(3) by (auto simp: add_topic_sub_def)
  ultimately show ?thesis using assms(1) by auto
next
  case (Some a)
  then obtain k v ps where s: "find_topic (r_topics r) tpc ord = Some (k, v, ps)" by (cases a) auto
  show ?thesis
    using find_topic_Some [OF s] add_topic_sub_correct [OF assms(1) s assms(3)] by auto
qed

text \<open>A router with the sample topic.\<close>

definition sample_router :: router where
  "sample_router = \<lparr>r_topics = [(sample_pattern, sample_topic)]\<rparr>"

definition sample_request :: "string \<Rightarrow> Topic" where
  "sample_request d = \<lparr>Descriptor = d, Operation = ''update'', Path = [''btc'', ''tick'']\<rparr>"

lemma sample_router_facts:
  "router_inv sample_router" "range_order (r_topics sample_router) [sample_pattern]"
  "router_subs sample_router = {}"
  "find_topic (r_topics sample_router) (sample_request d) [sample_pattern] =
     Some (sample_pattern, sample_topic, sample_params ''btc'')"
proof -
  have p: "parse_topic sample_pattern = Ret \<lparr>Descriptor = '''', Operation = ''update'', Path = [''{ex}'', ''tick'']\<rparr>"
    by code_simp
  show "router_inv sample_router"
    using sample_inv p sample_topic_simps(1)
    by (auto simp: router_inv_def sample_router_def gm_wf_def gm_get_def split: if_splits)
  show "range_order (r_topics sample_router) [sample_pattern]"
    by (simp add: range_order_def sample_router_def gm_keys_def)
  show "router_subs sample_router = {}"
    using sample_subscriptions by (auto simp: router_subs_def sample_router_def gm_get_def split: if_splits)
  have "match_topic (t_pattern sample_topic) (sample_request d) = Some (sample_params ''btc'')"
    unfolding sample_topic_simps sample_params_def sample_request_def by code_simp
  then show "find_topic (r_topics sample_router) (sample_request d) [sample_pattern] =
     Some (sample_pattern, sample_topic, sample_params ''btc'')"
    by (simp add: sample_router_def gm_get_def)
qed

theorem router_subscribe_witness:
  "fst (add_topic_sub [sample_pattern] sample_router (sample_request ''sub'') (sample_conn 1 ''a'')) = None"
proof -
  obtain err r' calls where a: "add_topic_sub [sample_pattern] sample_router (sample_request ''sub'') (sample_conn 1 ''a'')
      = (err, r', calls)" by (metis prod_cases3)
  have "\<exists>k v. gm_get (r_topics sample_router) k = Some v \<and> match_topic (t_pattern v) (sample_request ''sub'') \<noteq> None"
    using find_topic_Some [OF sample_router_facts(4)] by blast
  then show ?thesis
    using router_subscribe [OF sample_router_facts(1,2) a] a by auto
qed




lemma router_remove_conn_correct:
  assumes "router_inv r" and "router_remove_conn ord r c = (r', calls)"
  shows "router_inv r' \<and> set (gm_keys (r_topics r')) = set (gm_keys (r_topics r)) \<and>
    router_subs r' = {(k, c', m) \<in> router_subs r. c' = c \<longrightarrow> k \<notin> set ord}"
  using assms
proof (induction ord r c arbitrary: r' calls rule: router_remove_conn.induct)
  case (1 r c)
  then show ?case by auto
next
  case (2 k ord r c)
  show ?case
  proof (cases "gm_get (r_topics r) k")
    case None
    then have "(k, s) \<notin> router_subs r" for s by (simp add: router_subs_def)
    with 2(1) [OF None 2(3)] 2(4) None show ?thesis by auto
  next
    case (Some v)
    obtain v' calls1 where m: "remove_conn v c = (v', calls1)" by force
    let ?r = "r\<lparr>r_topics := gm_set (r_topics r) k v'\<rparr>"
    obtain calls2 where rest: "router_remove_conn ord ?r c = (r', calls2)"
      using 2(4) Some m by (auto simp: Let_def split: prod.splits)
    note rc = remove_conn_correct [OF router_inv_topic [OF 2(3) Some] m]
    have inv: "router_inv ?r" using router_inv_set [OF 2(3) Some] rc by blast
    have subs: "router_subs ?r = {(k', c', m) \<in> router_subs r. c' = c \<longrightarrow> k' \<noteq> k}"
      using router_subs_set [of r k v'] Some rc by (auto simp: router_subs_def)
    have keys: "set (gm_keys (gm_set (r_topics r) k v')) = set (gm_keys (r_topics r))"
      using Some by (auto simp: gm_keys_iff split: if_splits)
    show ?thesis
      using 2(2) [OF Some m [symmetric] refl inv rest] subs keys by auto
  qed
qed

text \<open>
  When the router removes a connection it is gone from every topic: the abstract subscriptions
  that remain are exactly those of the other connections, and the invariant holds.
\<close>

lemma router_conn_gone:
  assumes "router_inv r" and "range_order (r_topics r) ord" and "router_remove_conn ord r c = (r', calls)"
  shows "router_inv r' \<and> router_subs r' = {(k, c', m) \<in> router_subs r. c' \<noteq> c}"
proof -
  have "k \<in> set ord" if "(k, s) \<in> router_subs r" for k s
    using that range_orderD [OF assms(2)] by (auto simp: router_subs_def)
  then show ?thesis using router_remove_conn_correct [OF assms(1,3)] by auto
qed

lemma router_conn_gone_witness:
  "router_subs (fst (router_remove_conn [sample_pattern]
     (fst (snd (add_topic_sub [sample_pattern] sample_router (sample_request ''sub'') (sample_conn 1 ''a''))))
     (sample_conn 1 ''a''))) = {}"
proof -
  let ?o = "[sample_pattern]" and ?c = "sample_conn 1 ''a''"
  obtain err r1 calls1 where a: "add_topic_sub ?o sample_router (sample_request ''sub'') ?c = (err, r1, calls1)"
    by (metis prod_cases3)
  note c = add_topic_sub_correct [OF sample_router_facts(1,4) a]
  have "range_order (r_topics r1) ?o"
    using c by (simp add: range_order_def sample_router_def gm_keys_def gm_set_def)
  then show ?thesis
    using router_conn_gone [OF _ _ surjective_pairing, of r1 ?o ?c] a c by (auto simp: sample_router_facts(3))
qed

end
