(* ===== verification/Ws_Errors.thy ===== *)
theory Ws_Errors
  imports Ctx_Util
begin

text \<open>
  The classification of connection errors (\<^verbatim>\<open>IsStatus\<close>, \<^verbatim>\<open>IsClosure\<close> and \<^verbatim>\<open>LogError\<close> of
  \<^verbatim>\<open>wsutil/wsutil.go\<close>). The close status of an error is read by the third-party function
  \<^verbatim>\<open>websocket.CloseStatus\<close>, which is the parameter \<open>close_status\<close> here; \<open>-1\<close> means that the error is
  no close frame.
\<close>

type_synonym close_status = "go_error \<Rightarrow> int"

definition is_status :: "close_status \<Rightarrow> go_error \<Rightarrow> int list \<Rightarrow> bool" where
  "is_status close_status err statusCodes =
     (let status = close_status err
      in if status = -1 then False else status \<in> set statusCodes)"

definition is_closure :: "close_status \<Rightarrow> go_error \<Rightarrow> int list \<Rightarrow> bool" where
  "is_closure close_status err skipCodes =
     (let code = close_status err
      in if code \<noteq> -1 \<and> code \<notin> set skipCodes then True
         else is_interrupted err \<or> err_is err ConnReset \<or> err_is err NetClosed \<or>
              str_contains (error_text err) ''EOF'')"

text \<open>\<^verbatim>\<open>websocket.StatusMessageTooBig\<close>\<close>

definition message_too_big :: int where
  "message_too_big = 1009"

datatype log_line = LogPayloadTooBig go_error | LogWebsocketError go_error

definition log_error :: "close_status \<Rightarrow> go_error \<Rightarrow> bool \<Rightarrow> log_line option" where
  "log_error close_status err critical =
     (if is_closure close_status err [message_too_big] then None
      else if critical \<and> is_status close_status err [message_too_big] then Some (LogPayloadTooBig err)
      else Some (LogWebsocketError err))"

text \<open>Skipping a code can only make an error count less as a closure.\<close>

lemma is_closure_skip_mono:
  "is_closure cs err skip \<Longrightarrow> set skip' \<subseteq> set skip \<Longrightarrow> is_closure cs err skip'"
  by (auto simp: is_closure_def Let_def split: if_splits)

text \<open>
  The message about a payload that is too big is never logged by the readers and writers: they
  call \<open>LogError\<close> only on an error that \<open>IsClosure\<close> (with no code skipped) rejects, and on such an
  error it logs the general line whatever \<open>critical\<close> is.
\<close>

lemma log_error_after_closure_check:
  assumes "\<not> is_closure cs err []"
  shows "log_error cs err critical = Some (LogWebsocketError err)"
proof -
  have "\<not> is_closure cs err [message_too_big]"
    using assms is_closure_skip_mono [of cs err "[message_too_big]" "[]"] by auto
  moreover have "cs err = -1"
    using assms by (auto simp: is_closure_def Let_def split: if_splits)
  ultimately show ?thesis by (simp add: log_error_def is_status_def)
qed

lemma log_error_after_closure_check_witness:
  "log_error (\<lambda>_. -1) (Plain (Other ''boom'')) True = Some (LogWebsocketError (Plain (Other ''boom'')))"
proof -
  have "\<not> is_closure (\<lambda>_. -1) (Plain (Other ''boom'')) []"
    by (simp add: is_closure_def is_interrupted_def)
  then show ?thesis by (rule log_error_after_closure_check)
qed

end
