(* ===== verification/Ws_Server.thy ===== *)
theory Ws_Server
  imports Ws_Router Ws_Errors "HOL-Library.Word"
begin

text \<open>
  The server (\<^verbatim>\<open>wsserver/server.go\<close>): options with their defaults, opening a connection, the answer to
  a failed opening, the request loop of the reader, the loop of the writer, and closing. One call of a
  handler is one function on the server's state. What the connection delivers (\<open>frame\<close>) and whether it
  takes a response comes from the third-party connection and the scheduler, and is an argument.

  The last section runs the reader, one micro-step at a time, against everything else that may happen
  to the server meanwhile.
\<close>

section \<open>State and options\<close>

text \<open>
  \<open>'r\<close> is the type of HTTP requests. A zero of \<open>o_ReadLimit\<close> and \<open>o_ResponseWriteTimeout\<close> (in
  nanoseconds) and a \<open>None\<close> stand for the Go zero values.
\<close>

record 'r options =
  o_ReadLimit :: int
  o_ResponseWriteTimeout :: int
  o_BaseContext :: "('r \<Rightarrow> go_error + ctx) option"
  o_RecoveryFunc :: "nat option"

record 'r server =
  s_router :: router
  s_opts :: "'r options"
  s_conns :: "(conn, unit) gomap"

text \<open>Function 0 is the empty recovery function.\<close>

definition new_server :: "router \<Rightarrow> 'r options \<Rightarrow> 'r server" where
  "new_server router opts =
     (let opts = (if o_ReadLimit opts = 0 then opts\<lparr>o_ReadLimit := 2 ^ 15\<rparr> else opts);
          opts = (if o_RecoveryFunc opts = None then opts\<lparr>o_RecoveryFunc := Some 0\<rparr> else opts);
          opts = (if o_ResponseWriteTimeout opts = 0
                  then opts\<lparr>o_ResponseWriteTimeout := 1000000000 * 5\<rparr> else opts);
          opts = (if o_BaseContext opts = None then opts\<lparr>o_BaseContext := Some (\<lambda>_. Inr Background)\<rparr> else opts)
      in \<lparr>s_router = router, s_opts = opts, s_conns = []\<rparr>)"

section \<open>Opening a connection\<close>

text \<open>
  The JSON body of an error response has the fields \<open>message\<close> and \<open>code\<close>; the last field says whether
  the error is logged.
\<close>

record http_error =
  h_status :: int
  h_message :: string
  h_code :: string
  h_logged :: bool

definition respond_error :: "go_error \<Rightarrow> http_error" where
  "respond_error err =
     (let respErr = detect (Some err);
          statusCode = status_code (Some respErr);
          (message, code) = (case respErr of StatusError m c st e \<Rightarrow> (m, c) | _ \<Rightarrow> ('''', ''''))
      in \<lparr>h_status = statusCode, h_message = message, h_code = code, h_logged = (500 \<le> statusCode)\<rparr>)"

text \<open>
  \<^verbatim>\<open>newConn\<close>: the pointer is fresh; cancelling the new context is cancelling \<open>WithCancel\<close> of that number.
\<close>

definition new_conn :: "nat \<Rightarrow> ctx \<Rightarrow> conn" where
  "new_conn ptr c = \<lparr>c_ptr = ptr, c_ctx = WithCancel ptr c\<rparr>"

text \<open>
  \<open>xid\<close> is the id that the third-party generator returns, \<open>accepted\<close> the error of the third-party
  upgrade, if any, and \<open>ptr\<close> the address of the new connection. The result is the connection whose
  reader and writer are started, or the error response; calling a nil function is a panic.
\<close>

definition serve_http ::
  "string \<Rightarrow> go_error option \<Rightarrow> nat \<Rightarrow> 'r \<Rightarrow> 'r server \<Rightarrow> (http_error, conn) outcome \<times> 'r server" where
  "serve_http xid accepted ptr r s =
     (case o_BaseContext (s_opts s) of
        None \<Rightarrow> (Panic, s)
      | Some base \<Rightarrow>
          (case base r of
             Inl err \<Rightarrow> (Err (respond_error err), s)
           | Inr c \<Rightarrow>
               let c = WithValue c WsCtxID (StrVal xid)
               in (case accepted of
                     Some err \<Rightarrow> (Err (respond_error (wrap (Some err) 500 ''general'' '''' [])), s)
                   | None \<Rightarrow>
                       let nc = new_conn ptr c
                       in (Ret nc, s\<lparr>s_conns := gm_set (s_conns s) nc ()\<rparr>))))"

section \<open>Closing\<close>

definition close_conn :: "string list \<Rightarrow> conn \<Rightarrow> 'r server \<Rightarrow> 'r server \<times> event_call list" where
  "close_conn ord c s =
     (let (r', calls) = router_remove_conn ord (s_router s) c
      in (s\<lparr>s_router := r', s_conns := gm_del (s_conns s) c\<rparr>, calls))"

text \<open>The goroutines of \<^verbatim>\<open>CloseConn\<close>, in the order \<open>cs\<close> in which they run.\<close>

fun close_conns :: "string list \<Rightarrow> (ctx \<Rightarrow> bool) \<Rightarrow> conn list \<Rightarrow> 'r server \<Rightarrow> 'r server \<times> event_call list" where
  "close_conns ord filt [] s = (s, [])"
| "close_conns ord filt (c # cs) s =
     (if \<not> filt (c_ctx c) then close_conns ord filt cs s
      else
        let (s', calls) = close_conn ord c s;
            (s'', calls') = close_conns ord filt cs s'
        in (s'', calls @ calls'))"

definition server_close :: "string list \<Rightarrow> conn list \<Rightarrow> 'r server \<Rightarrow> 'r server \<times> event_call list \<times> ctx list" where
  "server_close ord cs s =
     (let (s', calls) = close_conns ord (\<lambda>_. True) cs s
      in (s', calls, router_close ord (s_router s')))"

section \<open>The reader\<close>

type_synonym request_id = "64 word"

text \<open>What \<^verbatim>\<open>wsjson.Read\<close> returns.\<close>

datatype frame = ReadErr go_error | Request request_id string

record response =
  resp_ID :: request_id
  resp_Success :: bool

text \<open>The fate of one round of the loop.\<close>

datatype flow = Continue | Return | Panicking

text \<open>
  One round: the server after it, the calls of event functions, the response that is handed to
  \<^verbatim>\<open>respond\<close>, if any, and the log line, if any.
\<close>

definition read_round ::
  "close_status \<Rightarrow> string list \<Rightarrow> conn \<Rightarrow> frame \<Rightarrow> 'r server \<Rightarrow>
   flow \<times> 'r server \<times> event_call list \<times> response option \<times> log_line option" where
  "read_round close_status ord c f s =
     (case f of
        ReadErr err \<Rightarrow>
          if is_closure close_status err [] then (Return, s, [], None, None)
          else (Continue, s, [], None, log_error close_status err False)
      | Request ID rawTopic \<Rightarrow>
          let resp = \<lparr>resp_ID = ID, resp_Success = False\<rparr>
          in (case parse_topic rawTopic of
                Panic \<Rightarrow> (Panicking, s, [], None, None)
              | Err err \<Rightarrow> (Continue, s, [], Some resp, None)
              | Ret tpc \<Rightarrow>
                  if Descriptor tpc = descriptor_sub
                  then
                    let (err, r', calls) = add_topic_sub ord (s_router s) tpc c
                    in (Continue, s\<lparr>s_router := r'\<rparr>, calls, Some (resp\<lparr>resp_Success := (err = None)\<rparr>), None)
                  else if Descriptor tpc = descriptor_unsub
                  then
                    let (r', calls) = remove_topic_sub ord (s_router s) tpc c
                    in (Continue, s\<lparr>s_router := r'\<rparr>, calls, Some (resp\<lparr>resp_Success := True\<rparr>), None)
                  else (Continue, s, [], Some resp, None)))"

text \<open>
  The whole reader, on the frames that arrive: when it returns or panics, the deferred \<^verbatim>\<open>closeConn\<close>
  runs, and after it a panic is recovered. \<open>None\<close>: the reader still waits for a frame. The responses
  are those handed to \<^verbatim>\<open>respond\<close>; \<open>rd_ended\<close> tells how it ended (\<open>Some True\<close>: a panic was
  recovered). Each frame comes with the order in which the search for its topic visits the map.
\<close>

record 'r reading =
  rd_server :: "'r server"
  rd_calls :: "event_call list"
  rd_responses :: "response list"
  rd_logs :: "log_line list"
  rd_ended :: "bool option"

fun start_reader ::
  "close_status \<Rightarrow> string list \<Rightarrow> conn \<Rightarrow> (string list \<times> frame) list \<Rightarrow> 'r server \<Rightarrow> 'r reading" where
  "start_reader close_status cord c [] s =
     \<lparr>rd_server = s, rd_calls = [], rd_responses = [], rd_logs = [], rd_ended = None\<rparr>"
| "start_reader close_status cord c ((ord, f) # fs) s =
     (let (fl, s', calls, resp, lg) = read_round close_status ord c f s
      in (case fl of
            Continue \<Rightarrow>
              let rest = start_reader close_status cord c fs s'
              in rest\<lparr>rd_calls := calls @ rd_calls rest,
                      rd_responses := (case resp of None \<Rightarrow> [] | Some x \<Rightarrow> [x]) @ rd_responses rest,
                      rd_logs := (case lg of None \<Rightarrow> [] | Some x \<Rightarrow> [x]) @ rd_logs rest\<rparr>
          | _ \<Rightarrow>
              let (s'', calls') = close_conn cord c s'
              in \<lparr>rd_server = s'', rd_calls = calls @ calls', rd_responses = [], rd_logs = [],
                  rd_ended = Some (fl = Panicking)\<rparr>))"

section \<open>The writer\<close>

text \<open>
  What the \<^verbatim>\<open>select\<close> of the writer receives: the end of the context, or data, with the error of the
  third-party write, if any.
\<close>

datatype write_event = CtxDone | WriteData string "go_error option"

text \<open>The data handed to the connection, the log lines, and whether the writer has ended.\<close>

fun start_writer :: "close_status \<Rightarrow> write_event list \<Rightarrow> string list \<times> log_line list \<times> bool" where
  "start_writer close_status [] = ([], [], False)"
| "start_writer close_status (CtxDone # es) = ([], [], True)"
| "start_writer close_status (WriteData data res # es) =
     (case res of
        None \<Rightarrow>
          let (out, logs, ended) = start_writer close_status es in (data # out, logs, ended)
      | Some err \<Rightarrow>
          if is_closure close_status err [] then ([data], [], True)
          else
            let (out, logs, ended) = start_writer close_status es
            in (data # out, (case log_error close_status err False of None \<Rightarrow> [] | Some x \<Rightarrow> [x]) @ logs, ended))"


section \<open>The invariant, and one round of the reader\<close>

definition server_inv :: "'r server \<Rightarrow> bool" where
  "server_inv s \<longleftrightarrow> router_inv (s_router s) \<and> gm_wf (s_conns s)"

definition server_subs :: "'r server \<Rightarrow> (string \<times> conn \<times> (string \<Rightarrow> string option)) set" where
  "server_subs s = router_subs (s_router s)"

definition topic_order :: "'r server \<Rightarrow> string list \<Rightarrow> bool" where
  "topic_order s ord \<longleftrightarrow> range_order (r_topics (s_router s)) ord"

definition bound :: "'r server \<Rightarrow> Topic \<Rightarrow> bool" where
  "bound s tpc \<longleftrightarrow> (\<exists>k v. gm_get (r_topics (s_router s)) k = Some v \<and> match_topic (t_pattern v) tpc \<noteq> None)"

lemma find_topic_bound:
  assumes "topic_order s ord"
  shows "find_topic (r_topics (s_router s)) tpc ord = None \<longleftrightarrow> \<not> bound s tpc"
  using assms range_orderD unfolding topic_order_def bound_def find_topic_None by fastforce

text \<open>What a request may do to the server: nothing at all to the other connections.\<close>

definition only_subs_of :: "conn \<Rightarrow> 'r server \<Rightarrow> 'r server \<Rightarrow> bool" where
  "only_subs_of c s s' \<longleftrightarrow>
     {(k, c', m) \<in> server_subs s'. c' \<noteq> c} = {(k, c', m) \<in> server_subs s. c' \<noteq> c} \<and>
     (\<forall>c'. c' \<noteq> c \<longrightarrow> gm_get (s_conns s') c' = gm_get (s_conns s) c') \<and>
     set (gm_keys (r_topics (s_router s'))) = set (gm_keys (r_topics (s_router s)))"

lemma only_subs_refl: "only_subs_of c s s"
  by (simp add: only_subs_of_def)

lemma only_subs_trans: "only_subs_of c s s' \<Longrightarrow> only_subs_of c s' s'' \<Longrightarrow> only_subs_of c s s''"
  by (simp add: only_subs_of_def)

lemma topic_order_only: "only_subs_of c s s' \<Longrightarrow> topic_order s ord \<Longrightarrow> topic_order s' ord"
  by (simp add: only_subs_of_def topic_order_def range_order_def)

lemma gm_keys_set_existing: "gm_get m k \<noteq> None \<Longrightarrow> set (gm_keys (gm_set m k v)) = set (gm_keys m)"
  by (auto simp: gm_keys_iff split: if_splits)

lemma add_step:
  assumes "server_inv s" and "add_topic_sub ord (s_router s) tpc c = (err, r', calls)"
  shows "server_inv (s\<lparr>s_router := r'\<rparr>) \<and> only_subs_of c s (s\<lparr>s_router := r'\<rparr>) \<and>
    (err = None \<longleftrightarrow> find_topic (r_topics (s_router s)) tpc ord \<noteq> None)"
proof (cases "find_topic (r_topics (s_router s)) tpc ord")
  case None
  then show ?thesis using assms by (auto simp: add_topic_sub_def only_subs_of_def server_inv_def server_subs_def)
next
  case (Some a)
  then obtain k v ps where f: "find_topic (r_topics (s_router s)) tpc ord = Some (k, v, ps)" by (cases a) auto
  have inv: "router_inv (s_router s)" using assms(1) by (simp add: server_inv_def)
  show ?thesis
    using add_topic_sub_correct [OF inv f assms(2)] f assms(1) find_topic_Some [OF f]
    by (auto simp: server_inv_def only_subs_of_def server_subs_def gm_keys_set_existing)
qed

lemma remove_step:
  assumes "server_inv s" and "remove_topic_sub ord (s_router s) tpc c = (r', calls)"
  shows "server_inv (s\<lparr>s_router := r'\<rparr>) \<and> only_subs_of c s (s\<lparr>s_router := r'\<rparr>)"
proof (cases "find_topic (r_topics (s_router s)) tpc ord")
  case None
  then show ?thesis using assms by (auto simp: remove_topic_sub_def only_subs_of_def server_inv_def server_subs_def)
next
  case (Some a)
  then obtain k v ps where f: "find_topic (r_topics (s_router s)) tpc ord = Some (k, v, ps)" by (cases a) auto
  have inv: "router_inv (s_router s)" using assms(1) by (simp add: server_inv_def)
  show ?thesis
    using remove_topic_sub_correct [OF inv f assms(2)] f assms(1) find_topic_Some [OF f]
    by (auto simp: server_inv_def only_subs_of_def server_subs_def gm_keys_set_existing)
qed

lemma close_conn_correct:
  assumes "server_inv s" and "topic_order s ord" and "close_conn ord c s = (s', calls)"
  shows "server_inv s' \<and> only_subs_of c s s' \<and> gm_get (s_conns s') c = None \<and> (\<forall>k m. (k, c, m) \<notin> server_subs s')"
proof -
  obtain r' where r: "router_remove_conn ord (s_router s) c = (r', calls)"
    and s': "s' = s\<lparr>s_router := r', s_conns := gm_del (s_conns s) c\<rparr>"
    using assms(3) by (auto simp: close_conn_def split: prod.splits)
  have inv: "router_inv (s_router s)" using assms(1) by (simp add: server_inv_def)
  have "k \<in> set ord" if "(k, x) \<in> router_subs (s_router s)" for k x
    using that range_orderD assms(2) unfolding topic_order_def by (fastforce simp: router_subs_def)
  then show ?thesis
    using router_remove_conn_correct [OF inv r] assms(1)
    by (auto simp: s' server_inv_def only_subs_of_def server_subs_def)
qed

text \<open>How a frame ends the loop.\<close>

definition frame_flow :: "close_status \<Rightarrow> frame \<Rightarrow> flow" where
  "frame_flow close_status f =
     (case f of
        ReadErr err \<Rightarrow> if is_closure close_status err [] then Return else Continue
      | Request ID rawTopic \<Rightarrow> if parse_topic rawTopic = Panic then Panicking else Continue)"

lemma read_round_correct:
  assumes "server_inv s" and "read_round cs ord c f s = (fl, s', calls, resp, lg)"
  shows "server_inv s'" "only_subs_of c s s'" "fl = frame_flow cs f"
    "map resp_ID (case resp of None \<Rightarrow> [] | Some x \<Rightarrow> [x]) =
       (if fl = Continue then (case f of ReadErr e \<Rightarrow> [] | Request ID raw \<Rightarrow> [ID]) else [])"
    "fl \<noteq> Continue \<Longrightarrow> s' = s \<and> calls = [] \<and> lg = None"
proof -
  have "server_inv s' \<and> only_subs_of c s s' \<and> fl = frame_flow cs f \<and>
      map resp_ID (case resp of None \<Rightarrow> [] | Some x \<Rightarrow> [x]) =
        (if fl = Continue then (case f of ReadErr e \<Rightarrow> [] | Request ID raw \<Rightarrow> [ID]) else []) \<and>
      (fl \<noteq> Continue \<longrightarrow> s' = s \<and> calls = [] \<and> lg = None)"
  proof (cases f)
    case (ReadErr e)
    then show ?thesis
      using assms by (auto simp: read_round_def frame_flow_def only_subs_refl split: if_splits)
  next
    case (Request ID raw)
    show ?thesis
    proof (cases "parse_topic raw")
      case (Ret tpc)
      have "add_topic_sub ord (s_router s) tpc c = (err, r', cl) \<Longrightarrow>
          server_inv (s\<lparr>s_router := r'\<rparr>) \<and> only_subs_of c s (s\<lparr>s_router := r'\<rparr>)" for err r' cl
        using add_step [OF assms(1)] by blast
      moreover have "remove_topic_sub ord (s_router s) tpc c = (r', cl) \<Longrightarrow>
          server_inv (s\<lparr>s_router := r'\<rparr>) \<and> only_subs_of c s (s\<lparr>s_router := r'\<rparr>)" for r' cl
        using remove_step [OF assms(1)] by blast
      ultimately show ?thesis
        using assms Request Ret
        by (auto simp: read_round_def frame_flow_def only_subs_refl Let_def split: if_splits prod.splits)
    qed (use assms Request in \<open>auto simp: read_round_def frame_flow_def only_subs_refl Let_def\<close>)
  qed
  then show "server_inv s'" "only_subs_of c s s'" "fl = frame_flow cs f"
    "map resp_ID (case resp of None \<Rightarrow> [] | Some x \<Rightarrow> [x]) =
       (if fl = Continue then (case f of ReadErr e \<Rightarrow> [] | Request ID raw \<Rightarrow> [ID]) else [])"
    "fl \<noteq> Continue \<Longrightarrow> s' = s \<and> calls = [] \<and> lg = None"
    by blast+
qed


section \<open>What the reader guarantees\<close>

text \<open>
  The answer to a request. Unless the parser panics, the reader goes on with a response that has
  the 64-bit id of the request. It reports success exactly for a subscription to a topic that some
  registered pattern matches and for any unsubscription that parses; a malformed topic or another
  descriptor is answered with failure and changes nothing. When the parser panics there is no response.
\<close>

lemma request_answered:
  assumes "server_inv s" and "topic_order s ord"
    and "read_round cs ord c (Request ID raw) s = (fl, s', calls, resp, lg)"
  shows "if parse_topic raw = Panic then fl = Panicking \<and> resp = None \<and> s' = s
    else fl = Continue \<and>
      resp = Some \<lparr>resp_ID = ID, resp_Success = (\<exists>tpc. parse_topic raw = Ret tpc \<and>
        (Descriptor tpc = ''unsub'' \<or> Descriptor tpc = ''sub'' \<and> bound s tpc))\<rparr> \<and>
      (\<not> (\<exists>tpc. parse_topic raw = Ret tpc \<and> (Descriptor tpc = ''sub'' \<or> Descriptor tpc = ''unsub'')) \<longrightarrow>
         s' = s \<and> calls = [])"
proof (cases "parse_topic raw")
  case (Ret tpc)
  obtain err r' cl where a: "add_topic_sub ord (s_router s) tpc c = (err, r', cl)" by (metis prod_cases3)
  have e: "err = None \<longleftrightarrow> bound s tpc"
    using add_step [OF assms(1) a] find_topic_bound [OF assms(2), of tpc] by auto
  show ?thesis
    using assms(3) Ret a e
    by (auto simp: read_round_def Let_def descriptor_sub_def descriptor_unsub_def split: if_splits prod.splits)
qed (use assms(3) in \<open>auto simp: read_round_def Let_def\<close>)

text \<open>A server with the sample topic and one open connection.\<close>

definition sample_server :: "unit server" where
  "sample_server = (new_server sample_router
     \<lparr>o_ReadLimit = 0, o_ResponseWriteTimeout = 0, o_BaseContext = None, o_RecoveryFunc = None\<rparr>)
     \<lparr>s_conns := [(sample_conn 1 ''a'', ())]\<rparr>"

lemma sample_server_facts:
  "s_router sample_server = sample_router" "s_conns sample_server = [(sample_conn 1 ''a'', ())]"
  "server_inv sample_server" "topic_order sample_server [sample_pattern]" "server_subs sample_server = {}"
  using sample_router_facts(1-3)
  by (simp_all add: sample_server_def new_server_def server_inv_def topic_order_def server_subs_def gm_wf_def Let_def)

definition sample_cs :: close_status where
  "sample_cs e = (if err_is e EOF then 1000 else -1)"

lemma request_answered_witness:
  "fst (snd (snd (snd (read_round sample_cs [sample_pattern] (sample_conn 1 ''a'')
     (Request 7 ''sub~update@btc.tick'') sample_server)))) = Some \<lparr>resp_ID = 7, resp_Success = True\<rparr>"
proof -
  obtain fl s' calls resp lg where r: "read_round sample_cs [sample_pattern] (sample_conn 1 ''a'')
     (Request 7 ''sub~update@btc.tick'') sample_server = (fl, s', calls, resp, lg)" by (metis prod_cases5)
  have p: "parse_topic ''sub~update@btc.tick'' = Ret (sample_request ''sub'')"
    unfolding sample_request_def by code_simp
  have "bound sample_server (sample_request ''sub'')"
    using find_topic_bound [OF sample_server_facts(4), of "sample_request ''sub''"] sample_router_facts(4) [of "''sub''"]
    by (simp add: sample_server_facts(1))
  then show ?thesis
    using request_answered [OF sample_server_facts(3,4) r] p r by (simp add: sample_request_def)
qed

definition request_ids :: "frame list \<Rightarrow> request_id list" where
  "request_ids fs = concat (map (\<lambda>f. case f of ReadErr e \<Rightarrow> [] | Request ID raw \<Rightarrow> [ID]) fs)"

definition stays :: "close_status \<Rightarrow> frame \<Rightarrow> bool" where
  "stays cs f \<longleftrightarrow> frame_flow cs f = Continue"

lemma start_reader_correct:
  assumes "server_inv s" and "topic_order s cord"
  shows "server_inv (rd_server (start_reader cs cord c fs s)) \<and>
    only_subs_of c s (rd_server (start_reader cs cord c fs s)) \<and>
    map resp_ID (rd_responses (start_reader cs cord c fs s)) = request_ids (takeWhile (stays cs) (map snd fs)) \<and>
    (rd_ended (start_reader cs cord c fs s) = None \<longleftrightarrow> list_all (stays cs) (map snd fs)) \<and>
    (rd_ended (start_reader cs cord c fs s) \<noteq> None \<longrightarrow>
       gm_get (s_conns (rd_server (start_reader cs cord c fs s))) c = None \<and>
       (\<forall>k m. (k, c, m) \<notin> server_subs (rd_server (start_reader cs cord c fs s))))"
  using assms
proof (induction cs cord c fs s rule: start_reader.induct)
  case (1 cs cord c s)
  then show ?case by (simp add: only_subs_refl request_ids_def)
next
  case (2 cs cord c ord f fs s)
  obtain fl s' calls resp lg where r: "read_round cs ord c f s = (fl, s', calls, resp, lg)" by (metis prod_cases5)
  note rr = read_round_correct [OF 2(2) r]
  have ord': "topic_order s' cord" using topic_order_only [OF rr(2) 2(3)] .
  show ?case
  proof (cases "fl = Continue")
    case True
    then have st: "stays cs f" using rr(3) by (simp add: stays_def)
    let ?rest = "start_reader cs cord c fs s'"
    have eq: "start_reader cs cord c ((ord, f) # fs) s =
        ?rest\<lparr>rd_calls := calls @ rd_calls ?rest,
              rd_responses := (case resp of None \<Rightarrow> [] | Some x \<Rightarrow> [x]) @ rd_responses ?rest,
              rd_logs := (case lg of None \<Rightarrow> [] | Some x \<Rightarrow> [x]) @ rd_logs ?rest\<rparr>"
      using True by (simp add: r Let_def)
    note IH = 2(1) [OF r [symmetric] refl refl refl refl True rr(1) ord']
    have ids: "map resp_ID (case resp of None \<Rightarrow> [] | Some x \<Rightarrow> [x]) =
        (case f of ReadErr e \<Rightarrow> [] | Request ID raw \<Rightarrow> [ID])"
      using rr(4) True by simp
    show ?thesis
      unfolding eq using IH only_subs_trans [OF rr(2)] st ids by (auto simp: request_ids_def)
  next
    case False
    obtain s'' calls' where cl: "close_conn cord c s' = (s'', calls')" by force
    have eq: "start_reader cs cord c ((ord, f) # fs) s =
        \<lparr>rd_server = s'', rd_calls = calls @ calls', rd_responses = [], rd_logs = [], rd_ended = Some (fl = Panicking)\<rparr>"
      using False by (cases fl) (simp_all add: r cl)
    have "\<not> stays cs f" using False rr(3) by (simp add: stays_def)
    with close_conn_correct [OF rr(1) ord' cl] only_subs_trans [OF rr(2)] show ?thesis
      unfolding eq by (simp add: request_ids_def)
  qed
qed


text \<open>
  C15. One response per request, in order: the ids of the responses are the ids of the requests that
  arrive before the frame that ends the loop (a closure error, or a topic on which the parser panics),
  and the reader ends exactly if there is such a frame.
\<close>

theorem responses_in_order:
  assumes "server_inv s" and "topic_order s cord"
  shows "map resp_ID (rd_responses (start_reader cs cord c fs s)) = request_ids (takeWhile (stays cs) (map snd fs)) \<and>
    (rd_ended (start_reader cs cord c fs s) = None \<longleftrightarrow> (\<forall>(ord, f) \<in> set fs. frame_flow cs f = Continue))"
  using start_reader_correct [OF assms, of cs c fs] by (auto simp: list_all_iff stays_def)

definition sample_frames :: "(string list \<times> frame) list" where
  "sample_frames = [([sample_pattern], Request 7 ''sub~update@btc.tick''), ([sample_pattern], Request 8 ''update@ab~'')]"

lemma sample_frames_flow:
  "frame_flow cs (Request 7 ''sub~update@btc.tick'') = Continue" "frame_flow cs (Request 8 ''update@ab~'') = Panicking"
proof -
  have "parse_topic ''sub~update@btc.tick'' \<noteq> Panic" "parse_topic ''update@ab~'' = Panic"
    by code_simp+
  then show "frame_flow cs (Request 7 ''sub~update@btc.tick'') = Continue" "frame_flow cs (Request 8 ''update@ab~'') = Panicking"
    by (simp_all add: frame_flow_def)
qed

theorem responses_in_order_witness:
  "map resp_ID (rd_responses (start_reader sample_cs [sample_pattern] (sample_conn 1 ''a'') sample_frames sample_server)) = [7]"
  using responses_in_order [OF sample_server_facts(3,4), of sample_cs "sample_conn 1 ''a''" sample_frames]
  by (simp add: sample_frames_def stays_def sample_frames_flow request_ids_def)

text \<open>
  Isolation and cleanup. Whatever a client sends, the reader changes no subscription and no entry
  of any other connection, registers and removes no topic, and keeps the server's invariant. When it has
  ended, also by a panic, its connection is in no topic and not in the server's list.
\<close>

lemma reader_isolated:
  assumes "server_inv s" and "topic_order s cord" and "s' = rd_server (start_reader cs cord c fs s)"
  shows "server_inv s' \<and>
    {(k, c', m) \<in> server_subs s'. c' \<noteq> c} = {(k, c', m) \<in> server_subs s. c' \<noteq> c} \<and>
    (\<forall>c'. c' \<noteq> c \<longrightarrow> gm_get (s_conns s') c' = gm_get (s_conns s) c') \<and>
    set (gm_keys (r_topics (s_router s'))) = set (gm_keys (r_topics (s_router s))) \<and>
    (rd_ended (start_reader cs cord c fs s) \<noteq> None \<longrightarrow>
       gm_get (s_conns s') c = None \<and> (\<forall>k m. (k, c, m) \<notin> server_subs s'))"
  using start_reader_correct [OF assms(1,2), of cs c fs] unfolding assms(3) only_subs_of_def by (-, elim conjE, intro conjI)

lemma reader_isolated_witness:
  "gm_get (s_conns (rd_server (start_reader sample_cs [sample_pattern] (sample_conn 1 ''a'') sample_frames sample_server)))
     (sample_conn 1 ''a'') = None"
proof -
  have "rd_ended (start_reader sample_cs [sample_pattern] (sample_conn 1 ''a'') sample_frames sample_server) \<noteq> None"
    using start_reader_correct [OF sample_server_facts(3,4), of sample_cs "sample_conn 1 ''a''" sample_frames]
    by (simp add: sample_frames_def stays_def sample_frames_flow)
  then show ?thesis
    using reader_isolated [OF sample_server_facts(3,4) refl] by blast
qed




section \<open>The reader among everything else\<close>

text \<open>
  The reader's closing happens while other goroutines run. Here \<^verbatim>\<open>closeConn\<close> of the reader is cut
  into its critical sections: the topics one after the other, then the list. What the rest of the
  program may do in between is \<open>env_step\<close>: requests and closings of any other connection, the same
  critical sections for this connection (the writer and \<^verbatim>\<open>CloseConn\<close> run \<^verbatim>\<open>closeConn\<close> too), new
  connections, new topics, event functions, and drops.
\<close>

datatype reader_pc = Reading | Removing "string list" | Deleting | Finished

definition update_topic :: "string \<Rightarrow> (topic \<Rightarrow> topic) \<Rightarrow> 'r server \<Rightarrow> 'r server" where
  "update_topic k g s =
     (case gm_get (r_topics (s_router s)) k of
        None \<Rightarrow> s
      | Some v \<Rightarrow> s\<lparr>s_router := (s_router s)\<lparr>r_topics := gm_set (r_topics (s_router s)) k (g v)\<rparr>\<rparr>)"

definition delete_conn :: "conn \<Rightarrow> 'r server \<Rightarrow> 'r server" where
  "delete_conn c s = s\<lparr>s_conns := gm_del (s_conns s) c\<rparr>"

inductive env_step :: "close_status \<Rightarrow> conn \<Rightarrow> 'r server \<Rightarrow> 'r server \<Rightarrow> bool"
  for cs :: close_status and c :: conn where
  env_read: "c' \<noteq> c \<Longrightarrow> read_round cs ord c' f s = (fl, s', calls, resp, lg) \<Longrightarrow> env_step cs c s s'"
| env_remove: "env_step cs c s (update_topic k (\<lambda>v. fst (remove_conn v c')) s)"
| env_delete: "env_step cs c s (delete_conn c' s)"
| env_open: "serve_http xid acc ptr r s = (out, s') \<Longrightarrow> (\<forall>c'. out = Ret c' \<longrightarrow> c' \<noteq> c) \<Longrightarrow> env_step cs c s s'"
| env_bind: "(\<forall>t. t_pattern (b t) = t_pattern t \<and> t_subs (b t) = t_subs t) \<Longrightarrow>
    bind supv raw (Some b) mws (s_router s) = Inr r' \<Longrightarrow> env_step cs c s (s\<lparr>s_router := r'\<rparr>)"
| env_events: "g \<in> {on_sub fn, on_unsub fn, on_first_sub fn, on_last_unsub fn} \<Longrightarrow> env_step cs c s (update_topic k g s)"
| env_drop: "gm_get (r_topics (s_router s)) k = Some v \<Longrightarrow> range_order (t_subs v) ord \<Longrightarrow>
    env_step cs c s (update_topic k (\<lambda>v. fst (drop_many (\<lambda>_ :: unit data. Inr '''') accept sched ord v reason filt)) s)"

inductive reader_step :: "close_status \<Rightarrow> conn \<Rightarrow> reader_pc \<times> 'r server \<Rightarrow> reader_pc \<times> 'r server \<Rightarrow> bool"
  for cs :: close_status and c :: conn where
  round: "read_round cs ord c f s = (Continue, s', calls, resp, lg) \<Longrightarrow> reader_step cs c (Reading, s) (Reading, s')"
| stop: "read_round cs ord c f s = (fl, s', calls, resp, lg) \<Longrightarrow> fl \<noteq> Continue \<Longrightarrow> topic_order s' cord \<Longrightarrow>
    reader_step cs c (Reading, s) (Removing cord, s')"
| remove: "reader_step cs c (Removing (k # ord), s) (Removing ord, update_topic k (\<lambda>v. fst (remove_conn v c)) s)"
| removed: "reader_step cs c (Removing [], s) (Deleting, s)"
| delete: "reader_step cs c (Deleting, s) (Finished, delete_conn c s)"
| env: "env_step cs c s s' \<Longrightarrow> reader_step cs c (pc, s) (pc, s')"

inductive reader_steps :: "close_status \<Rightarrow> conn \<Rightarrow> reader_pc \<times> 'r server \<Rightarrow> reader_pc \<times> 'r server \<Rightarrow> bool"
  for cs :: close_status and c :: conn where
  steps_refl: "reader_steps cs c x x"
| steps_step: "reader_steps cs c x y \<Longrightarrow> reader_step cs c y z \<Longrightarrow> reader_steps cs c x z"

definition subs_of :: "conn \<Rightarrow> 'r server \<Rightarrow> (string \<times> (string \<Rightarrow> string option)) set" where
  "subs_of c s = {(k, m). (k, c, m) \<in> server_subs s}"

lemma update_topic_correct:
  assumes "server_inv s"
    and "\<And>v. gm_get (r_topics (s_router s)) k = Some v \<Longrightarrow> topic_inv v \<Longrightarrow>
      topic_inv (g v) \<and> t_pattern (g v) = t_pattern v \<and> subscriptions (g v) \<subseteq> subscriptions v"
  shows "server_inv (update_topic k g s)" "server_subs (update_topic k g s) \<subseteq> server_subs s"
    "s_conns (update_topic k g s) = s_conns s"
proof -
  have inv: "router_inv (s_router s)" using assms(1) by (simp add: server_inv_def)
  have "server_inv (update_topic k g s) \<and> server_subs (update_topic k g s) \<subseteq> server_subs s \<and>
      s_conns (update_topic k g s) = s_conns s"
  proof (cases "gm_get (r_topics (s_router s)) k")
    case None
    then show ?thesis using assms(1) by (simp add: update_topic_def)
  next
    case (Some v)
    note g = assms(2) [OF Some router_inv_topic [OF inv Some]]
    have "router_inv ((s_router s)\<lparr>r_topics := gm_set (r_topics (s_router s)) k (g v)\<rparr>)"
      using router_inv_set [OF inv Some] g by blast
    moreover have "router_subs ((s_router s)\<lparr>r_topics := gm_set (r_topics (s_router s)) k (g v)\<rparr>) \<subseteq> router_subs (s_router s)"
      using router_subs_set [of "s_router s" k "g v"] Some g by (auto simp: router_subs_def)
    ultimately show ?thesis
      using assms(1) Some by (simp add: update_topic_def server_inv_def server_subs_def)
  qed
  then show "server_inv (update_topic k g s)" "server_subs (update_topic k g s) \<subseteq> server_subs s"
    "s_conns (update_topic k g s) = s_conns s" by blast+
qed

lemma remove_conn_shrinks:
  "topic_inv v \<Longrightarrow> topic_inv (fst (remove_conn v c)) \<and> t_pattern (fst (remove_conn v c)) = t_pattern v \<and>
     subscriptions (fst (remove_conn v c)) = {x \<in> subscriptions v. fst x \<noteq> c}"
  using remove_conn_correct [OF _ surjective_pairing, of v c] by simp

lemma drop_shrinks:
  assumes "topic_inv v" and "range_order (t_subs v) ord"
  shows "topic_inv (fst (drop_many marshal accept sched ord v reason filt)) \<and>
    t_pattern (fst (drop_many marshal accept sched ord v reason filt)) = t_pattern v \<and>
    subscriptions (fst (drop_many marshal accept sched ord v reason filt)) \<subseteq> subscriptions v"
proof -
  obtain t' calls pubs where d: "drop_many marshal accept sched ord v reason filt = (t', calls, pubs)"
    by (metis prod_cases3)
  note c = drop_many_correct [OF assms d]
  have "subscriptions t' \<subseteq> subscriptions v"
    using c by (auto simp: subscriptions_entry_of)
  with c show ?thesis by (simp add: d)
qed


text \<open>The environment never adds to this connection.\<close>

lemma on_fns_keep:
  "g \<in> {on_sub fn, on_unsub fn, on_first_sub fn, on_last_unsub fn} \<Longrightarrow> topic_inv v \<Longrightarrow>
   topic_inv (g v) \<and> t_pattern (g v) = t_pattern v \<and> subscriptions (g v) \<subseteq> subscriptions v"
  by (auto simp: on_sub_def on_unsub_def on_first_sub_def on_last_unsub_def topic_inv_def subscriptions_def)

lemma env_step_safe:
  assumes "env_step cs c s s'" and "server_inv s"
  shows "server_inv s' \<and> subs_of c s' \<subseteq> subs_of c s \<and> (gm_get (s_conns s) c = None \<longrightarrow> gm_get (s_conns s') c = None)"
  using assms
proof (induction rule: env_step.induct)
  case (env_read c' ord f s fl s' calls resp lg)
  note r = read_round_correct(1,2) [OF env_read(3,2)]
  have "(k, c, m) \<in> server_subs s'  \<longleftrightarrow> (k, c, m) \<in> server_subs s" for k m
    using r(2) env_read(1) unfolding only_subs_of_def by (auto simp: set_eq_iff)
  then show ?case using r env_read(1) by (auto simp: subs_of_def only_subs_of_def)
next
  case (env_remove s k c')
  have "server_inv (update_topic k (\<lambda>v. fst (remove_conn v c')) s)"
    "server_subs (update_topic k (\<lambda>v. fst (remove_conn v c')) s) \<subseteq> server_subs s"
    "s_conns (update_topic k (\<lambda>v. fst (remove_conn v c')) s) = s_conns s"
    using update_topic_correct [OF env_remove, of k "\<lambda>v. fst (remove_conn v c')"] remove_conn_shrinks by fastforce+
  then show ?case by (auto simp: subs_of_def)
next
  case (env_delete s c')
  then show ?case by (auto simp: delete_conn_def server_inv_def subs_of_def server_subs_def)
next
  case (env_open xid acc ptr r s out s')
  then show ?case
    by (auto simp: serve_http_def server_inv_def subs_of_def server_subs_def Let_def split: option.splits sum.splits)
next
  case (env_bind b supv raw mws s r')
  have inv: "router_inv (s_router s)" using env_bind(3) by (simp add: server_inv_def)
  have b: "\<forall>b' t. Some b = Some b' \<longrightarrow> t_pattern (b' t) = t_pattern t \<and> t_subs (b' t) = t_subs t"
    using env_bind(1) by simp
  from bind_correct [OF inv b, where supv = supv and rawTopic = raw and mws = mws] env_bind(2,3) show ?case
    by (auto simp: server_inv_def subs_of_def server_subs_def)
next
  case (env_events g fn s k)
  note u = update_topic_correct [OF env_events(2), of k g, OF on_fns_keep [OF env_events(1)]]
  then show ?case by (auto simp: subs_of_def)
next
  case (env_drop s k v ord accept sched reason filt)
  let ?g = "\<lambda>v. fst (drop_many (\<lambda>_ :: unit data. Inr '''') accept sched ord v reason filt)"
  have "topic_inv (?g w) \<and> t_pattern (?g w) = t_pattern w \<and> subscriptions (?g w) \<subseteq> subscriptions w"
    if "gm_get (r_topics (s_router s)) k = Some w" "topic_inv w" for w
    using that env_drop(1,2) drop_shrinks by simp
  from update_topic_correct [OF env_drop(3), of k ?g, OF this] show ?case by (auto simp: subs_of_def)
qed

definition closing_inv :: "conn \<Rightarrow> reader_pc \<times> 'r server \<Rightarrow> bool" where
  "closing_inv c x \<longleftrightarrow> server_inv (snd x) \<and>
     (case fst x of
        Reading \<Rightarrow> True
      | Removing ord \<Rightarrow> fst ` subs_of c (snd x) \<subseteq> set ord
      | Deleting \<Rightarrow> subs_of c (snd x) = {}
      | Finished \<Rightarrow> subs_of c (snd x) = {} \<and> gm_get (s_conns (snd x)) c = None)"

lemma subs_of_key: "topic_order s ord \<Longrightarrow> fst ` subs_of c s \<subseteq> set ord"
  using range_orderD unfolding topic_order_def subs_of_def server_subs_def router_subs_def by fastforce

lemma update_remove_subs:
  assumes "server_inv s"
  shows "server_inv (update_topic k (\<lambda>v. fst (remove_conn v c)) s) \<and>
    subs_of c (update_topic k (\<lambda>v. fst (remove_conn v c)) s) \<subseteq> {(k', m) \<in> subs_of c s. k' \<noteq> k}"
proof -
  let ?s = "update_topic k (\<lambda>v. fst (remove_conn v c)) s"
  have u: "server_inv ?s" "server_subs ?s \<subseteq> server_subs s"
    using update_topic_correct [OF assms, of k "\<lambda>v. fst (remove_conn v c)"] remove_conn_shrinks by fastforce+
  have "(k, c, m) \<notin> server_subs ?s" for m
  proof (cases "gm_get (r_topics (s_router s)) k")
    case None
    then show ?thesis by (simp add: update_topic_def server_subs_def router_subs_def)
  next
    case (Some v)
    have "topic_inv v" using assms Some router_inv_topic by (auto simp: server_inv_def)
    then show ?thesis
      using remove_conn_shrinks [of v c] Some
      by (auto simp: update_topic_def server_subs_def router_subs_def)
  qed
  with u show ?thesis by (auto simp: subs_of_def)
qed

lemma reader_step_inv:
  assumes "reader_step cs c x y" and "closing_inv c x"
  shows "closing_inv c y"
  using assms
proof (induction rule: reader_step.induct)
  case (round ord f s s' calls resp lg)
  then show ?case using read_round_correct(1) [OF _ round(1)] by (simp add: closing_inv_def)
next
  case (stop ord f s fl s' calls resp lg cord)
  then show ?case
    using read_round_correct(1) [OF _ stop(1)] subs_of_key [OF stop(3), of c] by (simp add: closing_inv_def)
next
  case (remove k ord s)
  then show ?case using update_remove_subs [of s k c] by (fastforce simp: closing_inv_def)
next
  case (removed s)
  then show ?case by (simp add: closing_inv_def)
next
  case (delete s)
  then show ?case by (auto simp: closing_inv_def delete_conn_def server_inv_def subs_of_def server_subs_def)
next
  case (env s s' pc)
  then have "server_inv s" by (simp add: closing_inv_def)
  from env_step_safe [OF env(1) this] env(2) show ?case
    by (cases pc) (auto simp: closing_inv_def)
qed

lemma reader_steps_inv: "reader_steps cs c x y \<Longrightarrow> closing_inv c x \<Longrightarrow> closing_inv c y"
  by (induction rule: reader_steps.induct) (auto intro: reader_step_inv)

lemma finished_stays:
  "reader_steps cs c x y \<Longrightarrow> fst x = Finished \<Longrightarrow> fst y = Finished"
  by (induction rule: reader_steps.induct) (auto elim: reader_step.cases)

text \<open>
  C20. No interleaving leaks a connection: start a reader in any state that satisfies the invariant,
  let it read and close in its critical sections while the writer, other connections, drops, new
  topics and \<^verbatim>\<open>CloseConn\<close> do theirs. Once the reader has finished, its connection is in no topic and
  not in the server's list, and stays out of both whatever happens after.
\<close>

theorem no_leaked_connection:
  assumes "server_inv s0" and "reader_steps cs c (Reading, s0) (pc, s)"
  shows "server_inv s \<and> (pc = Finished \<longrightarrow> subs_of c s = {} \<and> gm_get (s_conns s) c = None \<and>
    (\<forall>pc' s'. reader_steps cs c (pc, s) (pc', s') \<longrightarrow> subs_of c s' = {} \<and> gm_get (s_conns s') c = None))"
proof -
  have "closing_inv c (Reading, s0)" using assms(1) by (simp add: closing_inv_def)
  with assms(2) have i: "closing_inv c (pc, s)" by (rule reader_steps_inv)
  have "subs_of c s' = {} \<and> gm_get (s_conns s') c = None"
    if "pc = Finished" "reader_steps cs c (pc, s) (pc', s')" for pc' s'
    using reader_steps_inv [OF that(2) i] finished_stays [OF that(2)] that(1) by (simp add: closing_inv_def)
  with i show ?thesis by (auto simp: closing_inv_def)
qed


theorem no_leaked_connection_witness:
  "\<exists>s. reader_steps sample_cs (sample_conn 1 ''a'') (Reading, sample_server) (Finished, s) \<and>
     gm_get (s_conns s) (sample_conn 1 ''a'') = None"
proof -
  let ?c = "sample_conn 1 ''a''" and ?k = "sample_pattern"
  have p: "parse_topic ''update@ab~'' = Panic" by code_simp
  have "read_round sample_cs [] ?c (Request 8 ''update@ab~'') sample_server = (Panicking, sample_server, [], None, None)"
    by (simp add: read_round_def p)
  then have 1: "reader_step sample_cs ?c (Reading, sample_server) (Removing [?k], sample_server)"
    using stop sample_server_facts(4) by fastforce
  let ?s = "update_topic ?k (\<lambda>v. fst (remove_conn v ?c)) sample_server"
  have run: "reader_steps sample_cs ?c (Reading, sample_server) (Finished, delete_conn ?c ?s)"
    by (rule steps_step [OF steps_step [OF steps_step [OF steps_step [OF steps_refl 1]]]])
      (rule reader_step.intros)+
  show ?thesis
    using no_leaked_connection [OF sample_server_facts(3) run] run by blast
qed

section \<open>Opening and closing\<close>

text \<open>
  Opening a connection, on a server made by \<open>New\<close>: it is accepted exactly if the base context and
  the upgrade succeed. Then it is listed, has no subscription, and its context carries its id and the
  values of the base context. Otherwise the server is unchanged and the answer has the detected
  status code, is logged exactly from 500 on, and from 500 on shows only the status text.
\<close>

lemma open_connection:
  assumes "s_opts s = s_opts (new_server rtr opts)"
  shows "case serve_http xid accepted ptr r s of
      (Panic, s') \<Rightarrow> False
    | (Err resp, s') \<Rightarrow> s' = s \<and> h_logged resp = (500 \<le> h_status resp) \<and>
        (500 \<le> h_status resp \<longrightarrow> h_message resp = to_lower (status_text (h_status resp)) \<and> h_code resp = ''general'')
    | (Ret c, s') \<Rightarrow> accepted = None \<and> gm_get (s_conns s') c = Some () \<and> server_subs s' = server_subs s \<and>
        (server_inv s \<longrightarrow> server_inv s') \<and> ctx_value (c_ctx c) WsCtxID = Some (StrVal xid) \<and>
        (\<forall>k base. o_BaseContext opts = Some base \<and> k \<noteq> WsCtxID \<longrightarrow>
           (\<exists>bc. base r = Inr bc \<and> ctx_value (c_ctx c) k = ctx_value bc k))"
proof -
  obtain base where b: "o_BaseContext (s_opts s) = Some base" "o_BaseContext opts = Some base'  \<Longrightarrow> base = base'" for base'
    using assms by (cases "o_BaseContext opts") (auto simp: new_server_def Let_def split: if_splits)
  have resp: "h_logged (respond_error e) = (500 \<le> h_status (respond_error e)) \<and>
      (500 \<le> h_status (respond_error e) \<longrightarrow> h_message (respond_error e) = to_lower (status_text (h_status (respond_error e))) \<and>
         h_code (respond_error e) = ''general'')" for e
    by (auto simp: respond_error_def detect_def status_code_def wrap_default as_status_opt_def Let_def
        split: option.splits if_splits)
  show ?thesis
  proof (cases "base r")
    case (Inl e)
    with b(1) resp show ?thesis by (simp add: serve_http_def)
  next
    case (Inr bc)
    show ?thesis
    proof (cases accepted)
      case None
      have "\<forall>k base'. o_BaseContext opts = Some base' \<and> k \<noteq> WsCtxID \<longrightarrow> (\<exists>bc'. base' r = Inr bc' \<and> ctx_value bc k = ctx_value bc' k)"
        using b(2) Inr by blast
      with b(1) Inr None show ?thesis
        by (auto simp: serve_http_def new_conn_def server_subs_def server_inv_def Let_def)
    next
      case (Some e)
      with b(1) Inr resp show ?thesis by (simp add: serve_http_def Let_def)
    qed
  qed
qed


lemma open_connection_witness:
  "\<exists>c s'. serve_http ''xid1'' None 9 () sample_server = (Ret c, s') \<and> gm_get (s_conns s') c = Some () \<and>
     ctx_value (c_ctx c) WsCtxID = Some (StrVal ''xid1'')"
proof -
  let ?o = "\<lparr>o_ReadLimit = 0, o_ResponseWriteTimeout = 0, o_BaseContext = None, o_RecoveryFunc = None\<rparr> :: unit options"
  have o: "s_opts sample_server = s_opts (new_server sample_router ?o)"
    by (simp add: sample_server_def)
  have "serve_http ''xid1'' None 9 () sample_server =
      (Ret (new_conn 9 (WithValue Background WsCtxID (StrVal ''xid1''))),
       sample_server\<lparr>s_conns := gm_set (s_conns sample_server) (new_conn 9 (WithValue Background WsCtxID (StrVal ''xid1''))) ()\<rparr>)"
    by (simp add: serve_http_def sample_server_def new_server_def Let_def)
  with open_connection [OF o, where xid = "''xid1''" and accepted = None and ptr = 9 and r = "()"] show ?thesis by simp
qed

lemma close_conns_correct:
  assumes "server_inv s" and "topic_order s ord"
  shows "server_inv (fst (close_conns ord filt cs s)) \<and> topic_order (fst (close_conns ord filt cs s)) ord \<and>
    (\<forall>c. subs_of c (fst (close_conns ord filt cs s)) = (if c \<in> set cs \<and> filt (c_ctx c) then {} else subs_of c s) \<and>
         gm_get (s_conns (fst (close_conns ord filt cs s))) c =
           (if c \<in> set cs \<and> filt (c_ctx c) then None else gm_get (s_conns s) c))"
  using assms
proof (induction ord filt cs s rule: close_conns.induct)
  case (1 ord filt s)
  then show ?case by simp
next
  case (2 ord filt c cs s)
  show ?case
  proof (cases "filt (c_ctx c)")
    case False
    with 2(1) [OF False 2(3,4)] show ?thesis by auto
  next
    case True
    obtain s' calls where cl: "close_conn ord c s = (s', calls)" by force
    note cc = close_conn_correct [OF 2(3,4) cl]
    have ord': "topic_order s' ord" using topic_order_only cc 2(4) by blast
    have inv': "server_inv s'" using cc by blast
    have eq: "fst (close_conns ord filt (c # cs) s) = fst (close_conns ord filt cs s')"
      using True by (simp add: cl case_prod_unfold Let_def)
    have o: "subs_of c' s' = (if c' = c then {} else subs_of c' s) \<and>
        gm_get (s_conns s') c' = (if c' = c then None else gm_get (s_conns s) c')" for c'
      using cc by (auto simp: subs_of_def only_subs_of_def set_eq_iff)
    have nf: "\<not> \<not> filt (c_ctx c)" using True by simp
    show ?thesis
      using 2(2) [OF nf cl [symmetric] refl inv' ord'] True o unfolding eq by auto
  qed
qed

text \<open>
  \<open>CloseConn\<close> closes exactly the selected connections, in whatever order its goroutines run: the
  selected ones are in no topic and not in the list afterwards; the subscriptions and the entries of
  all others are as before.
\<close>

lemma close_conn_selected:
  assumes "server_inv s" and "topic_order s ord" and "range_order (s_conns s) cs"
    and "close_conns ord filt cs s = (s', calls)"
  shows "server_inv s' \<and>
    (\<forall>c. gm_get (s_conns s) c \<noteq> None \<and> filt (c_ctx c) \<longrightarrow> gm_get (s_conns s') c = None \<and> subs_of c s' = {}) \<and>
    (\<forall>c. gm_get (s_conns s) c = None \<or> \<not> filt (c_ctx c) \<longrightarrow>
       gm_get (s_conns s') c = gm_get (s_conns s) c \<and> subs_of c s' = subs_of c s)"
  using close_conns_correct [OF assms(1,2), of filt cs] assms(4) range_orderD [OF assms(3)] by auto

lemma close_conn_selected_witness:
  "s_conns (fst (close_conns [sample_pattern] (\<lambda>c. ctx_value c WsCtxID = Some (StrVal ''a''))
     [sample_conn 1 ''a''] sample_server)) = []"
proof -
  let ?f = "\<lambda>c. ctx_value c WsCtxID = Some (StrVal ''a'')"
  obtain s' calls where c: "close_conns [sample_pattern] ?f [sample_conn 1 ''a''] sample_server = (s', calls)" by force
  have o: "range_order (s_conns sample_server) [sample_conn 1 ''a'']"
    by (simp add: range_order_def sample_server_facts(2) gm_keys_def)
  have "gm_get (s_conns s') c = None" for c
    using close_conn_selected [OF sample_server_facts(3,4) o c]
    by (cases "c = sample_conn 1 ''a''") (auto simp: sample_server_facts(2) gm_get_def sample_conn_def)
  then have "gm_len (s_conns s') = 0" by (simp add: gm_len_0_iff)
  then show ?thesis by (simp only: c fst_conv) (simp add: gm_len_def)
qed

end
