(* ===== verification/Ws_Sub_Keeper.thy ===== *)
theory Ws_Sub_Keeper
  imports Go_Errors "HOL-Library.Word"
begin

text \<open>
  What the reconnecting client and the shards rely on in a subscription keeper (the interfaces
  \<^verbatim>\<open>SubKeeper\<close> and \<^verbatim>\<open>SubPayloader\<close> of \<^verbatim>\<open>wsclient/wsreconn/client.go\<close>): the metrics that keepers
  report, and the contract \<open>sub_keeper\<close> between what the application wants, what the keeper
  believes about the other side, and the payloads it hands out. From the contract alone: sending every
  payload once, with every confirmation received, makes the other side hold exactly what is wanted.
\<close>

section \<open>Metrics\<close>

text \<open>
  \<open>mx_subs\<close> is the gauge: \<^verbatim>\<open>IncWsSubs\<close> minus \<^verbatim>\<open>DecWsSubs\<close>. The other two are counters.
\<close>

record metrics =
  mx_subs :: int
  mx_sub_confirmations :: nat
  mx_unsub_confirmations :: nat

definition inc_subs :: "metrics \<Rightarrow> metrics" where
  "inc_subs m = m\<lparr>mx_subs := mx_subs m + 1\<rparr>"

definition dec_subs :: "metrics \<Rightarrow> metrics" where
  "dec_subs m = m\<lparr>mx_subs := mx_subs m - 1\<rparr>"

definition inc_sub_confirmations :: "metrics \<Rightarrow> metrics" where
  "inc_sub_confirmations m = m\<lparr>mx_sub_confirmations := Suc (mx_sub_confirmations m)\<rparr>"

definition inc_unsub_confirmations :: "metrics \<Rightarrow> metrics" where
  "inc_unsub_confirmations m = m\<lparr>mx_unsub_confirmations := Suc (mx_unsub_confirmations m)\<rparr>"

lemmas metrics_simps = inc_subs_def dec_subs_def inc_sub_confirmations_def inc_unsub_confirmations_def

section \<open>Delivering payloads\<close>

text \<open>
  The other side holds a set of subscriptions. A payload concerns a set of them (\<open>items\<close>) and asks for
  those of them that are wanted; delivering it changes only these.
\<close>

definition delivered :: "'r set \<Rightarrow> 'r set \<Rightarrow> 'r set \<Rightarrow> 'r set" where
  "delivered its wanted remote = (remote - its) \<union> (its \<inter> wanted)"

lemma delivered_agree: "delivered its w r = r \<longleftrightarrow> its \<inter> r = its \<inter> w"
  by (auto simp: delivered_def)

text \<open>All payloads of a list are delivered and confirmed, one after the other.\<close>

fun deliver_all ::
  "('k \<Rightarrow> 'p \<Rightarrow> 'r set) \<Rightarrow> ('k \<Rightarrow> 'r set) \<Rightarrow> ('k \<Rightarrow> 'p \<Rightarrow> 'k) \<Rightarrow> 'p list \<Rightarrow> 'k \<times> 'r set \<Rightarrow> 'k \<times> 'r set" where
  "deliver_all items wanted confirm [] (k, r) = (k, r)"
| "deliver_all items wanted confirm (p # pp) (k, r) =
     deliver_all items wanted confirm pp (confirm k p, delivered (items k p) (wanted k) r)"

text \<open>Payloads that are valid and concern different subscriptions.\<close>

fun separate :: "('k \<Rightarrow> 'p \<Rightarrow> bool) \<Rightarrow> ('k \<Rightarrow> 'p \<Rightarrow> 'r set) \<Rightarrow> 'k \<Rightarrow> 'p list \<Rightarrow> bool" where
  "separate valid items k [] = True"
| "separate valid items k (p # pp) =
     (valid k p \<and> list_all (\<lambda>q. items k p \<inter> items k q = {}) pp \<and> separate valid items k pp)"

section \<open>The contract of a keeper\<close>

text \<open>
  \<open>wanted\<close>: what the application has asked for. \<open>believed\<close>: what the keeper takes the other side to
  hold. A keeper hands out payloads for exactly the difference of the two, each difference once; a
  confirmed payload settles its items and nothing else; a reset forgets every belief and keeps what is
  wanted.
\<close>

locale sub_keeper =
  fixes invar :: "'k \<Rightarrow> bool"
    and wanted :: "'k \<Rightarrow> 'r set"
    and believed :: "'k \<Rightarrow> 'r set"
    and is_payloads :: "'k \<Rightarrow> 'p list \<Rightarrow> bool"
    and valid :: "'k \<Rightarrow> 'p \<Rightarrow> bool"
    and items :: "'k \<Rightarrow> 'p \<Rightarrow> 'r set"
    and confirm :: "'k \<Rightarrow> 'p \<Rightarrow> 'k"
    and reset_all :: "'k \<Rightarrow> 'k"
  assumes payloads_separate: "invar k \<Longrightarrow> is_payloads k pp \<Longrightarrow> separate valid items k pp"
    and payloads_cover: "invar k \<Longrightarrow> is_payloads k pp \<Longrightarrow>
      (\<Union>p \<in> set pp. items k p) = (wanted k - believed k) \<union> (believed k - wanted k)"
    and confirm_correct: "invar k \<Longrightarrow> valid k p \<Longrightarrow>
      invar (confirm k p) \<and> wanted (confirm k p) = wanted k \<and>
      believed (confirm k p) = delivered (items k p) (wanted k) (believed k)"
    and confirm_other: "invar k \<Longrightarrow> valid k p \<Longrightarrow> valid k q \<Longrightarrow> items k p \<inter> items k q = {} \<Longrightarrow>
      valid (confirm k p) q \<and> items (confirm k p) q = items k q"
    and reset_correct: "invar k \<Longrightarrow>
      invar (reset_all k) \<and> wanted (reset_all k) = wanted k \<and> believed (reset_all k) = {}"
begin

text \<open>Confirming the first payload leaves the others as they are.\<close>

lemma confirm_rest:
  assumes "invar k" and "valid k p" and "list_all (\<lambda>q. items k p \<inter> items k q = {}) pp" and "separate valid items k pp"
  shows "separate valid items (confirm k p) pp \<and> (\<forall>q \<in> set pp. items (confirm k p) q = items k q)"
  using assms(3,4)
proof (induction pp)
  case (Cons q pp)
  have q: "valid (confirm k p) q" "items (confirm k p) q = items k q"
    using confirm_other [OF assms(1,2), of q] Cons.prems by simp_all
  have IH: "separate valid items (confirm k p) pp" "\<forall>q \<in> set pp. items (confirm k p) q = items k q"
    using Cons by simp_all
  have "list_all (\<lambda>x. items (confirm k p) q \<inter> items (confirm k p) x = {}) pp"
    using Cons.prems(2) IH(2) q(2) by (simp add: list_all_iff)
  then show ?case using q IH by simp
qed simp

lemma deliver_all_correct:
  assumes "invar k" and "separate valid items k pp"
    and "deliver_all items wanted confirm pp (k, r) = (k', r')"
  shows "invar k' \<and> wanted k' = wanted k \<and>
    believed k' = delivered (\<Union>p \<in> set pp. items k p) (wanted k) (believed k) \<and>
    r' = delivered (\<Union>p \<in> set pp. items k p) (wanted k) r"
  using assms
proof (induction pp arbitrary: k r)
  case Nil
  then show ?case by (simp add: delivered_def)
next
  case (Cons p pp)
  let ?k = "confirm k p"
  have v: "valid k p" using Cons.prems(2) by simp
  note c = confirm_correct [OF Cons.prems(1) v]
  have s: "separate valid items ?k pp" "\<forall>q \<in> set pp. items ?k q = items k q"
    using confirm_rest [OF Cons.prems(1) v, of pp] Cons.prems(2) by simp_all
  have "deliver_all items wanted confirm pp (?k, delivered (items k p) (wanted k) r) = (k', r')"
    using Cons.prems(3) by simp
  from Cons.IH [OF _ s(1) this] c have
    "invar k' \<and> wanted k' = wanted k \<and>
      believed k' = delivered (\<Union>p \<in> set pp. items ?k p) (wanted k) (delivered (items k p) (wanted k) (believed k)) \<and>
      r' = delivered (\<Union>p \<in> set pp. items ?k p) (wanted k) (delivered (items k p) (wanted k) r)"
    by simp
  moreover have "(\<Union>p \<in> set pp. items ?k p) = (\<Union>p \<in> set pp. items k p)"
    using s(2) by simp
  ultimately show ?case by (auto simp: delivered_def)
qed

text \<open>One round with all confirmations: nothing is left to send, and the other side is in step.\<close>

lemma round_synchronises:
  assumes "invar k" and "is_payloads k pp" and "deliver_all items wanted confirm pp (k, believed k) = (k', r')"
  shows "invar k' \<and> wanted k' = wanted k \<and> believed k' = wanted k \<and> r' = wanted k"
  using deliver_all_correct [OF assms(1) payloads_separate [OF assms(1,2)] assms(3)] payloads_cover [OF assms(1,2)]
  by (auto simp: delivered_def)

text \<open>After the connection was lost: the other side has forgotten everything.\<close>

lemma reconnect_synchronises:
  assumes "invar k" and "is_payloads (reset_all k) pp"
    and "deliver_all items wanted confirm pp (reset_all k, {}) = (k', r')"
  shows "invar k' \<and> wanted k' = wanted k \<and> believed k' = wanted k \<and> r' = wanted k \<and>
    (\<Union>p \<in> set pp. items (reset_all k) p) = wanted k"
proof -
  note r = reset_correct [OF assms(1)]
  have "(\<Union>p \<in> set pp. items (reset_all k) p) = wanted k"
    using payloads_cover [OF _ assms(2)] r by simp
  moreover have "invar (reset_all k)" using r by blast
  ultimately show ?thesis
    using round_synchronises [OF _ assms(2), of k' r'] assms(3) r by simp
qed

lemma settled_nothing_to_send:
  "invar k \<Longrightarrow> believed k = wanted k \<Longrightarrow> is_payloads k pp \<Longrightarrow> p \<in> set pp \<Longrightarrow> items k p = {}"
  using payloads_cover by fastforce

end

end
