(* ===== verification/Ws_Solo_Keeper.thy ===== *)
theory Ws_Solo_Keeper
  imports Ws_Sub_Keeper Go_Prelude
begin

text \<open>
  The keeper of single subscriptions (\<^verbatim>\<open>wsclient/wsreconn/solo_sub_keeper.go\<close>). The map of the keeper
  holds pointers, and a payload that was handed out is such a pointer too, so the \<open>soloSub\<close> objects
  live in a heap (a list; an address is an index) and may outlive their entry in the map. Every method
  holds the keeper's lock and is one function; those that call \<^verbatim>\<open>execFns\<close> return the change functions
  they start (known by numbers). The formatter is a record of the user's functions; \<open>'m\<close> is the type of
  messages, and \<open>None\<close> is a nil message; \<open>'d\<close> is the type of received data.
\<close>

section \<open>State\<close>

record soloSub =
  ss_topic :: string
  ss_confirmed :: bool
  ss_subbed :: bool

record solo_keeper =
  sk_metrics :: metrics
  sk_cooldown :: int
  sk_manualConfirm :: bool
  sk_heap :: "soloSub list"
  sk_subs :: "(string, nat) gomap"
  sk_fns :: "nat list"

record ('m, 'd) solo_formatter =
  sf_SubMessage :: "string \<Rightarrow> 'm option"
  sf_UnsubMessage :: "string \<Rightarrow> 'm option"
  sf_ConfirmSub :: "string \<Rightarrow> 'd \<Rightarrow> bool"
  sf_ConfirmUnsub :: "string \<Rightarrow> 'd \<Rightarrow> bool"

definition new_solo_sub_keeper :: "metrics \<Rightarrow> int \<Rightarrow> bool \<Rightarrow> solo_keeper" where
  "new_solo_sub_keeper mx cooldown manualConfirm =
     \<lparr>sk_metrics = mx, sk_cooldown = cooldown, sk_manualConfirm = manualConfirm,
      sk_heap = [], sk_subs = [], sk_fns = []\<rparr>"

text \<open>Reading and writing an object.\<close>

definition deref :: "solo_keeper \<Rightarrow> nat \<Rightarrow> soloSub" where
  "deref s a = sk_heap s ! a"

definition store :: "nat \<Rightarrow> soloSub \<Rightarrow> solo_keeper \<Rightarrow> solo_keeper" where
  "store a sub s = s\<lparr>sk_heap := (sk_heap s)[a := sub]\<rparr>"

section \<open>Operations\<close>

text \<open>\<open>ord\<close> is the order of the loop over the map.\<close>

definition solo_payloads :: "string list \<Rightarrow> solo_keeper \<Rightarrow> nat list \<times> int" where
  "solo_payloads ord s =
     (filter (\<lambda>a. \<not> ss_confirmed (deref s a)) (List.map_filter (gm_get (sk_subs s)) ord), sk_cooldown s)"

fun solo_reset_loop :: "string list \<Rightarrow> solo_keeper \<Rightarrow> solo_keeper" where
  "solo_reset_loop [] s = s"
| "solo_reset_loop (tpc # ord) s =
     (case gm_get (sk_subs s) tpc of
        None \<Rightarrow> solo_reset_loop ord s
      | Some a \<Rightarrow>
          let s = store a ((deref s a)\<lparr>ss_confirmed := False\<rparr>) s
          in if \<not> ss_subbed (deref s a)
             then solo_reset_loop ord
                    (s\<lparr>sk_subs := gm_del (sk_subs s) tpc, sk_metrics := dec_subs (sk_metrics s)\<rparr>)
             else solo_reset_loop ord s)"

definition solo_reset_all :: "string list \<Rightarrow> solo_keeper \<Rightarrow> solo_keeper" where
  "solo_reset_all ord s = solo_reset_loop ord s"

definition solo_on_change :: "nat \<Rightarrow> solo_keeper \<Rightarrow> solo_keeper" where
  "solo_on_change fn s = s\<lparr>sk_fns := sk_fns s @ [fn]\<rparr>"

definition solo_exec_fns :: "solo_keeper \<Rightarrow> nat list" where
  "solo_exec_fns s = sk_fns s"

definition solo_subscribe :: "string \<Rightarrow> solo_keeper \<Rightarrow> solo_keeper \<times> nat list" where
  "solo_subscribe tpc s =
     (let sub = gm_get (sk_subs s) tpc
      in if sub = None \<or> (\<not> ss_subbed (deref s (the sub)) \<and> ss_confirmed (deref s (the sub)))
         then
           let a = length (sk_heap s);
               s = s\<lparr>sk_heap := sk_heap s @ [\<lparr>ss_topic = tpc, ss_confirmed = False, ss_subbed = True\<rparr>],
                     sk_subs := gm_set (sk_subs s) tpc a,
                     sk_metrics := inc_subs (sk_metrics s)\<rparr>
           in (s, solo_exec_fns s)
         else (s, []))"

definition solo_unsubscribe_local :: "string \<Rightarrow> solo_keeper \<Rightarrow> solo_keeper" where
  "solo_unsubscribe_local tpc s =
     s\<lparr>sk_subs := gm_del (sk_subs s) tpc, sk_metrics := dec_subs (sk_metrics s)\<rparr>"

text \<open>The unexported \<^verbatim>\<open>unsubscribe\<close>.\<close>

definition solo_unsubscribe_sub :: "string \<Rightarrow> nat \<Rightarrow> solo_keeper \<Rightarrow> solo_keeper \<times> bool" where
  "solo_unsubscribe_sub tpc a s =
     (let sub = deref s a
      in if ss_subbed sub \<and> \<not> ss_confirmed sub \<or> \<not> ss_subbed sub \<and> ss_confirmed sub
         then (s\<lparr>sk_subs := gm_del (sk_subs s) tpc, sk_metrics := dec_subs (sk_metrics s)\<rparr>, False)
         else if \<not> ss_subbed sub \<and> \<not> ss_confirmed sub then (s, False)
         else (store a (sub\<lparr>ss_confirmed := False, ss_subbed := False\<rparr>) s, True))"

definition solo_unsubscribe :: "string \<Rightarrow> solo_keeper \<Rightarrow> solo_keeper \<times> nat list" where
  "solo_unsubscribe tpc s =
     (case gm_get (sk_subs s) tpc of
        None \<Rightarrow> (s, [])
      | Some a \<Rightarrow>
          let (s', ok) = solo_unsubscribe_sub tpc a s
          in (s', if ok then solo_exec_fns s' else []))"

fun solo_unsubscribe_loop :: "string list \<Rightarrow> bool \<Rightarrow> solo_keeper \<Rightarrow> solo_keeper \<times> bool" where
  "solo_unsubscribe_loop [] ok s = (s, ok)"
| "solo_unsubscribe_loop (tpc # ord) ok s =
     (case gm_get (sk_subs s) tpc of
        None \<Rightarrow> solo_unsubscribe_loop ord ok s
      | Some a \<Rightarrow>
          let (s', ok1) = solo_unsubscribe_sub tpc a s
          in solo_unsubscribe_loop ord (if \<not> ok then ok1 else ok) s')"

definition solo_unsubscribe_all :: "string list \<Rightarrow> solo_keeper \<Rightarrow> solo_keeper \<times> nat list" where
  "solo_unsubscribe_all ord s =
     (let (s', ok) = solo_unsubscribe_loop ord False s
      in (s', if ok then solo_exec_fns s' else []))"

text \<open>The unexported \<^verbatim>\<open>confirm\<close>.\<close>

definition solo_confirm :: "bool \<Rightarrow> string \<Rightarrow> nat \<Rightarrow> solo_keeper \<Rightarrow> solo_keeper" where
  "solo_confirm subbed tpc a s =
     (if ss_confirmed (deref s a) \<or> ss_subbed (deref s a) \<noteq> subbed then s
      else
        let s = store a ((deref s a)\<lparr>ss_confirmed := True\<rparr>) s
        in if \<not> subbed
           then s\<lparr>sk_subs := gm_del (sk_subs s) tpc,
                  sk_metrics := inc_unsub_confirmations (dec_subs (sk_metrics s))\<rparr>
           else s\<lparr>sk_metrics := inc_sub_confirmations (sk_metrics s)\<rparr>)"

definition solo_confirm_sub :: "string \<Rightarrow> solo_keeper \<Rightarrow> solo_keeper" where
  "solo_confirm_sub tpc s =
     (case gm_get (sk_subs s) tpc of None \<Rightarrow> s | Some a \<Rightarrow> solo_confirm True tpc a s)"

definition solo_confirm_unsub :: "string \<Rightarrow> solo_keeper \<Rightarrow> solo_keeper" where
  "solo_confirm_unsub tpc s =
     (case gm_get (sk_subs s) tpc of None \<Rightarrow> s | Some a \<Rightarrow> solo_confirm False tpc a s)"

text \<open>
  \<^verbatim>\<open>soloSub.Payload\<close>: the message, and whether there is a confirmation function; the function itself,
  applied to the received data, is \<open>solo_confirm_payload\<close>.
\<close>

definition solo_payload :: "('m, 'd) solo_formatter \<Rightarrow> nat \<Rightarrow> solo_keeper \<Rightarrow> 'm option \<times> bool" where
  "solo_payload f a s =
     (if ss_subbed (deref s a) then sf_SubMessage f (ss_topic (deref s a))
      else sf_UnsubMessage f (ss_topic (deref s a)), \<not> sk_manualConfirm s)"

definition solo_confirm_payload :: "('m, 'd) solo_formatter \<Rightarrow> nat \<Rightarrow> 'd \<Rightarrow> solo_keeper \<Rightarrow> solo_keeper" where
  "solo_confirm_payload f a d s =
     (let sub = deref s a
      in if ss_subbed sub
         then if sf_ConfirmSub f (ss_topic sub) d then solo_confirm True (ss_topic sub) a s else s
         else if sf_ConfirmUnsub f (ss_topic sub) d then solo_confirm False (ss_topic sub) a s else s)"

section \<open>Invariant and abstraction\<close>

text \<open>
  Every entry points to an object of its own topic; an unsubscription that was confirmed is in no
  entry.
\<close>

definition solo_inv :: "solo_keeper \<Rightarrow> bool" where
  "solo_inv s \<longleftrightarrow> gm_wf (sk_subs s) \<and>
     (\<forall>tpc a. gm_get (sk_subs s) tpc = Some a \<longrightarrow>
        a < length (sk_heap s) \<and> ss_topic (deref s a) = tpc \<and> (ss_subbed (deref s a) \<or> \<not> ss_confirmed (deref s a)))"

text \<open>
  The topics that the application wants, and those that the keeper takes the other side to be
  subscribed to: confirmed subscriptions and unsubscriptions not yet confirmed.
\<close>

definition solo_wanted :: "solo_keeper \<Rightarrow> string set" where
  "solo_wanted s = {tpc. \<exists>a. gm_get (sk_subs s) tpc = Some a \<and> ss_subbed (deref s a)}"

definition solo_believed :: "solo_keeper \<Rightarrow> string set" where
  "solo_believed s = {tpc. \<exists>a. gm_get (sk_subs s) tpc = Some a \<and> ss_subbed (deref s a) = ss_confirmed (deref s a)}"

text \<open>The gauge counts the entries, above what it was when the keeper was made.\<close>

definition solo_gauge_ok :: "int \<Rightarrow> solo_keeper \<Rightarrow> bool" where
  "solo_gauge_ok base s \<longleftrightarrow> mx_subs (sk_metrics s) = base + int (gm_len (sk_subs s))"


lemma deref_store [simp]:
  "a < length (sk_heap s) \<Longrightarrow> deref (store a sub s) b = (if b = a then sub else deref s b)"
  by (simp add: deref_def store_def nth_list_update)

lemma deref_update [simp]:
  "deref (s\<lparr>sk_subs := m\<rparr>) a = deref s a" "deref (s\<lparr>sk_metrics := mx\<rparr>) a = deref s a"
  by (simp_all add: deref_def)

lemma store_fields [simp]:
  "sk_subs (store a sub s) = sk_subs s" "sk_metrics (store a sub s) = sk_metrics s"
  "length (sk_heap (store a sub s)) = length (sk_heap s)" "sk_fns (store a sub s) = sk_fns s"
  "sk_cooldown (store a sub s) = sk_cooldown s" "sk_manualConfirm (store a sub s) = sk_manualConfirm s"
  by (simp_all add: store_def)

lemma solo_invD:
  assumes "solo_inv s" and "gm_get (sk_subs s) tpc = Some a"
  shows "a < length (sk_heap s)" "ss_topic (deref s a) = tpc" "ss_subbed (deref s a) \<or> \<not> ss_confirmed (deref s a)"
  using assms by (simp_all add: solo_inv_def)

text \<open>Two entries are different objects.\<close>

lemma solo_inj: "solo_inv s \<Longrightarrow> gm_get (sk_subs s) t1 = Some a \<Longrightarrow> gm_get (sk_subs s) t2 = Some a \<Longrightarrow> t1 = t2"
  by (auto simp: solo_inv_def)

lemma solo_entry_iff: "solo_inv s \<Longrightarrow> gm_get (sk_subs s) tpc = None \<longleftrightarrow> tpc \<notin> solo_wanted s \<and> tpc \<notin> solo_believed s"
  by (cases "gm_get (sk_subs s) tpc") (auto simp: solo_inv_def solo_wanted_def solo_believed_def)

lemma solo_abs_Some:
  assumes "gm_get (sk_subs s) tpc = Some a"
  shows "tpc \<in> solo_wanted s \<longleftrightarrow> ss_subbed (deref s a)"
    "tpc \<in> solo_believed s \<longleftrightarrow> ss_subbed (deref s a) = ss_confirmed (deref s a)"
  using assms by (simp_all add: solo_wanted_def solo_believed_def)

text \<open>The two ways in which the operations change one topic: its entry goes, or its object is rewritten.\<close>

lemma solo_delete:
  assumes "solo_inv s" and "sk_subs s' = gm_del (sk_subs s) tpc"
    and "length (sk_heap s') = length (sk_heap s)"
    and "\<forall>b. gm_get (sk_subs s) tpc \<noteq> Some b \<longrightarrow> deref s' b = deref s b"
  shows "solo_inv s'" "solo_wanted s' = solo_wanted s - {tpc}" "solo_believed s' = solo_believed s - {tpc}"
proof -
  have d: "deref s' b = deref s b" if "gm_get (sk_subs s) t = Some b" "t \<noteq> tpc" for t b
    using assms(4) that solo_inj [OF assms(1)] by blast
  show "solo_inv s'" using assms(1,2,3) d by (auto simp: solo_inv_def)
  show "solo_wanted s' = solo_wanted s - {tpc}" "solo_believed s' = solo_believed s - {tpc}"
    using assms(2) d by (auto simp: solo_wanted_def solo_believed_def split: if_splits)
qed

lemma solo_rewrite:
  assumes "solo_inv s" and "gm_get (sk_subs s) tpc = Some a" and "ss_topic sub = tpc"
    and "ss_subbed sub \<or> \<not> ss_confirmed sub"
  shows "solo_inv (store a sub s)"
    "solo_wanted (store a sub s) = (if ss_subbed sub then insert tpc (solo_wanted s) else solo_wanted s - {tpc})"
    "solo_believed (store a sub s) =
       (if ss_subbed sub = ss_confirmed sub then insert tpc (solo_believed s) else solo_believed s - {tpc})"
proof -
  have a: "a < length (sk_heap s)" using solo_invD(1) [OF assms(1,2)] .
  have n: "b = a \<longleftrightarrow> t = tpc" if "gm_get (sk_subs s) t = Some b" for t b
    using that solo_inj [OF assms(1)] assms(2) by auto
  show "solo_inv (store a sub s)"
    using assms a n by (auto simp: solo_inv_def)
  show "solo_wanted (store a sub s) = (if ss_subbed sub then insert tpc (solo_wanted s) else solo_wanted s - {tpc})"
    using a n assms(2) by (auto simp: solo_wanted_def)
  show "solo_believed (store a sub s) =
       (if ss_subbed sub = ss_confirmed sub then insert tpc (solo_believed s) else solo_believed s - {tpc})"
    using a n assms(2) by (auto simp: solo_believed_def)
qed

lemma solo_metrics_only [simp]:
  "solo_inv (s\<lparr>sk_metrics := mx\<rparr>) = solo_inv s" "solo_wanted (s\<lparr>sk_metrics := mx\<rparr>) = solo_wanted s"
  "solo_believed (s\<lparr>sk_metrics := mx\<rparr>) = solo_believed s"
  by (simp_all add: solo_inv_def solo_wanted_def solo_believed_def)

section \<open>Each operation on the abstract state\<close>

lemma solo_subscribe_correct:
  assumes "solo_inv s" and "solo_subscribe tpc s = (s', fns)"
  shows "solo_inv s' \<and> solo_believed s' = solo_believed s \<and>
    solo_wanted s' = (if tpc \<in> solo_believed s then solo_wanted s else insert tpc (solo_wanted s)) \<and>
    fns = (if tpc \<in> solo_wanted s \<or> tpc \<in> solo_believed s then [] else sk_fns s) \<and>
    (solo_gauge_ok base s \<longrightarrow> solo_gauge_ok base s')"
proof (cases "gm_get (sk_subs s) tpc")
  case None
  let ?a = "length (sk_heap s)"
  have s': "s' = s\<lparr>sk_heap := sk_heap s @ [\<lparr>ss_topic = tpc, ss_confirmed = False, ss_subbed = True\<rparr>],
      sk_subs := gm_set (sk_subs s) tpc ?a, sk_metrics := inc_subs (sk_metrics s)\<rparr>" and f: "fns = sk_fns s"
    using assms(2) None by (auto simp: solo_subscribe_def solo_exec_fns_def Let_def)
  have d: "deref s' ?a = \<lparr>ss_topic = tpc, ss_confirmed = False, ss_subbed = True\<rparr>"
    "b < ?a \<Longrightarrow> deref s' b = deref s b" for b
    by (simp_all add: s' deref_def nth_append)
  have subs: "gm_get (sk_subs s') t = (if t = tpc then Some ?a else gm_get (sk_subs s) t)" for t
    by (simp add: s')
  have "solo_inv s'"
    unfolding solo_inv_def subs using assms(1) d by (auto simp: s' solo_inv_def less_SucI)
  moreover have "solo_wanted s' = insert tpc (solo_wanted s)" "solo_believed s' = solo_believed s"
    using assms(1) d None solo_invD(1) [OF assms(1)] unfolding solo_wanted_def solo_believed_def subs by auto
  moreover have "tpc \<notin> solo_wanted s \<and> tpc \<notin> solo_believed s"
    using solo_entry_iff [OF assms(1)] None by blast
  moreover have "solo_gauge_ok base s \<longrightarrow> solo_gauge_ok base s'"
    using None assms(1) by (simp add: solo_gauge_ok_def s' metrics_simps gm_len_set solo_inv_def)
  ultimately show ?thesis using f by simp
next
  case (Some a)
  have "s' = s" "fns = []"
    using assms(2) Some solo_invD(3) [OF assms(1) Some] by (auto simp: solo_subscribe_def Let_def split: if_splits)
  then show ?thesis
    using assms(1) solo_abs_Some [OF Some] solo_invD(3) [OF assms(1) Some] by auto
qed


lemma solo_gauge_del:
  assumes "solo_inv s" and "gm_get (sk_subs s) tpc = Some a" and "solo_gauge_ok base s"
    and "sk_subs s' = gm_del (sk_subs s) tpc" and "mx_subs (sk_metrics s') = mx_subs (sk_metrics s) - 1"
  shows "solo_gauge_ok base s'"
  using assms gm_len_pos [OF assms(2)] by (simp add: solo_gauge_ok_def gm_len_del solo_inv_def)

lemma solo_unsubscribe_sub_correct:
  assumes "solo_inv s" and "gm_get (sk_subs s) tpc = Some a" and "solo_unsubscribe_sub tpc a s = (s', ok)"
  shows "solo_inv s' \<and> solo_believed s' = solo_believed s \<and> solo_wanted s' = solo_wanted s - {tpc} \<and>
    (ok \<longleftrightarrow> tpc \<in> solo_wanted s \<and> tpc \<in> solo_believed s) \<and> sk_fns s' = sk_fns s \<and>
    (\<forall>t. t \<noteq> tpc \<longrightarrow> gm_get (sk_subs s') t = gm_get (sk_subs s) t) \<and>
    (solo_gauge_ok base s \<longrightarrow> solo_gauge_ok base s')"
proof -
  let ?sub = "deref s a"
  note e = solo_invD [OF assms(1,2)] and abs = solo_abs_Some [OF assms(2)]
  consider (pending) "ss_subbed ?sub" "\<not> ss_confirmed ?sub" | (leaving) "\<not> ss_subbed ?sub" "\<not> ss_confirmed ?sub"
    | (confirmed) "ss_subbed ?sub" "ss_confirmed ?sub"
    using e(3) by blast
  then show ?thesis
  proof cases
    case pending
    then have s': "s' = s\<lparr>sk_subs := gm_del (sk_subs s) tpc, sk_metrics := dec_subs (sk_metrics s)\<rparr>" and "\<not> ok"
      using assms(3) by (simp_all add: solo_unsubscribe_sub_def)
    have "solo_inv s'" "solo_wanted s' = solo_wanted s - {tpc}" "solo_believed s' = solo_believed s - {tpc}"
      using solo_delete [OF assms(1), of s' tpc] by (simp_all add: s')
    moreover have "solo_gauge_ok base s \<longrightarrow> solo_gauge_ok base s'"
      using solo_gauge_del [OF assms(1,2), of base s'] by (simp add: s' metrics_simps)
    ultimately show ?thesis using pending abs \<open>\<not> ok\<close> by (auto simp: s')
  next
    case leaving
    then have "s' = s" "\<not> ok" using assms(3) by (simp_all add: solo_unsubscribe_sub_def)
    then show ?thesis using leaving abs assms(1) by auto
  next
    case confirmed
    then have s': "s' = store a (?sub\<lparr>ss_confirmed := False, ss_subbed := False\<rparr>) s" and "ok"
      using assms(3) by (simp_all add: solo_unsubscribe_sub_def)
    note r = solo_rewrite [OF assms(1,2), of "?sub\<lparr>ss_confirmed := False, ss_subbed := False\<rparr>"]
    show ?thesis
      using r e(2) confirmed abs \<open>ok\<close> by (auto simp: s' solo_gauge_ok_def)
  qed
qed

lemma solo_unsubscribe_correct:
  assumes "solo_inv s" and "solo_unsubscribe tpc s = (s', fns)"
  shows "solo_inv s' \<and> solo_believed s' = solo_believed s \<and> solo_wanted s' = solo_wanted s - {tpc} \<and>
    fns = (if tpc \<in> solo_wanted s \<and> tpc \<in> solo_believed s then sk_fns s else []) \<and>
    (solo_gauge_ok base s \<longrightarrow> solo_gauge_ok base s')"
proof (cases "gm_get (sk_subs s) tpc")
  case None
  then show ?thesis
    using assms solo_entry_iff [OF assms(1), of tpc] by (auto simp: solo_unsubscribe_def)
next
  case (Some a)
  obtain s1 ok where u: "solo_unsubscribe_sub tpc a s = (s1, ok)" by force
  with assms(2) Some have "s' = s1" "fns = (if ok then sk_fns s1 else [])"
    by (auto simp: solo_unsubscribe_def solo_exec_fns_def)
  then show ?thesis using solo_unsubscribe_sub_correct [OF assms(1) Some u, of base] by simp
qed

lemma solo_unsubscribe_loop_correct:
  assumes "solo_inv s" and "solo_unsubscribe_loop ord ok s = (s', ok')" and "distinct ord"
  shows "solo_inv s' \<and> solo_believed s' = solo_believed s \<and> solo_wanted s' = solo_wanted s - set ord \<and>
    (ok' \<longleftrightarrow> ok \<or> (\<exists>t \<in> set ord. t \<in> solo_wanted s \<and> t \<in> solo_believed s)) \<and> sk_fns s' = sk_fns s \<and>
    (solo_gauge_ok base s \<longrightarrow> solo_gauge_ok base s')"
  using assms
proof (induction ord ok s rule: solo_unsubscribe_loop.induct)
  case (1 ok s)
  then show ?case by simp
next
  case (2 tpc ord ok s)
  show ?case
  proof (cases "gm_get (sk_subs s) tpc")
    case None
    with 2(1) [OF None 2(3)] 2(4,5) solo_entry_iff [OF 2(3), of tpc] show ?thesis by auto
  next
    case (Some a)
    obtain s1 ok1 where u: "solo_unsubscribe_sub tpc a s = (s1, ok1)" by force
    note c = solo_unsubscribe_sub_correct [OF 2(3) Some u, of base]
    have "solo_unsubscribe_loop ord (if \<not> ok then ok1 else ok) s1 = (s', ok')"
      using 2(4) Some u by simp
    from 2(2) [OF Some u [symmetric] refl _ this] c 2(5) show ?thesis by auto
  qed
qed

lemma solo_wanted_keys: "solo_inv s \<Longrightarrow> range_order (sk_subs s) ord \<Longrightarrow> solo_wanted s \<subseteq> set ord"
  by (auto simp: solo_wanted_def range_orderD)

lemma solo_unsubscribe_all_correct:
  assumes "solo_inv s" and "range_order (sk_subs s) ord" and "solo_unsubscribe_all ord s = (s', fns)"
  shows "solo_inv s' \<and> solo_believed s' = solo_believed s \<and> solo_wanted s' = {} \<and>
    fns = (if solo_wanted s \<inter> solo_believed s \<noteq> {} then sk_fns s else []) \<and>
    (solo_gauge_ok base s \<longrightarrow> solo_gauge_ok base s')"
proof -
  obtain s1 ok where l: "solo_unsubscribe_loop ord False s = (s1, ok)" by force
  have r: "s' = s1" "fns = (if ok then sk_fns s1 else [])"
    using assms(3) l by (auto simp: solo_unsubscribe_all_def solo_exec_fns_def)
  show ?thesis
    using solo_unsubscribe_loop_correct [OF assms(1) l range_order_distinct [OF assms(2)], of base]
      solo_wanted_keys [OF assms(1,2)] by (auto simp: r)
qed

lemma solo_unsubscribe_local_correct:
  assumes "solo_inv s"
  shows "solo_inv (solo_unsubscribe_local tpc s) \<and>
    solo_wanted (solo_unsubscribe_local tpc s) = solo_wanted s - {tpc} \<and>
    solo_believed (solo_unsubscribe_local tpc s) = solo_believed s - {tpc}"
  using solo_delete [OF assms, of "solo_unsubscribe_local tpc s" tpc] by (simp add: solo_unsubscribe_local_def)

lemma solo_reset_loop_correct:
  assumes "solo_inv s" and "distinct ord"
  shows "solo_inv (solo_reset_loop ord s) \<and> solo_wanted (solo_reset_loop ord s) = solo_wanted s \<and>
    solo_believed (solo_reset_loop ord s) = solo_believed s - set ord \<and>
    (solo_gauge_ok base s \<longrightarrow> solo_gauge_ok base (solo_reset_loop ord s))"
  using assms
proof (induction ord s rule: solo_reset_loop.induct)
  case (1 s)
  then show ?case by simp
next
  case (2 tpc ord s)
  show ?case
  proof (cases "gm_get (sk_subs s) tpc")
    case None
    with 2(1) [OF None 2(4)] 2(5) solo_entry_iff [OF 2(4), of tpc] show ?thesis by auto
  next
    case (Some a)
    let ?sub = "(deref s a)\<lparr>ss_confirmed := False\<rparr>"
    let ?s = "store a ?sub s"
    note e = solo_invD [OF 2(4) Some]
    note r = solo_rewrite [OF 2(4) Some, of ?sub]
    note abs = solo_abs_Some [OF Some]
    show ?thesis
    proof (cases "ss_subbed (deref s a)")
      case True
      have n: "\<not> \<not> ss_subbed (deref ?s a)" using True e(1) by simp
      have "solo_reset_loop (tpc # ord) s = solo_reset_loop ord ?s"
        using True Some e(1) by simp
      moreover have "solo_inv ?s" "solo_wanted ?s = solo_wanted s" "solo_believed ?s = solo_believed s - {tpc}"
        using r e(2) True abs by auto
      moreover have "solo_gauge_ok base s \<longrightarrow> solo_gauge_ok base ?s" by (simp add: solo_gauge_ok_def)
      ultimately show ?thesis
        using 2(3) [OF Some refl n] 2(5) by auto
    next
      case False
      let ?t = "?s\<lparr>sk_subs := gm_del (sk_subs ?s) tpc, sk_metrics := dec_subs (sk_metrics ?s)\<rparr>"
      have n: "\<not> ss_subbed (deref ?s a)" using False e(1) by simp
      have "solo_reset_loop (tpc # ord) s = solo_reset_loop ord ?t"
        using False Some e(1) by simp
      moreover have "solo_inv ?t" "solo_wanted ?t = solo_wanted s - {tpc}" "solo_believed ?t = solo_believed s - {tpc}"
        using solo_delete [OF 2(4), of ?t tpc] Some e(1) by auto
      moreover have "tpc \<notin> solo_wanted s" using False abs by simp
      moreover have "solo_gauge_ok base s \<longrightarrow> solo_gauge_ok base ?t"
        using solo_gauge_del [OF 2(4) Some, of base ?t] by (simp add: metrics_simps)
      ultimately show ?thesis
        using 2(2) [OF Some refl n] 2(5) by auto
    qed
  qed
qed

lemma solo_believed_keys: "solo_inv s \<Longrightarrow> range_order (sk_subs s) ord \<Longrightarrow> solo_believed s \<subseteq> set ord"
  by (auto simp: solo_believed_def range_orderD)

lemma solo_reset_all_correct:
  assumes "solo_inv s" and "range_order (sk_subs s) ord"
  shows "solo_inv (solo_reset_all ord s) \<and> solo_wanted (solo_reset_all ord s) = solo_wanted s \<and>
    solo_believed (solo_reset_all ord s) = {} \<and>
    (solo_gauge_ok base s \<longrightarrow> solo_gauge_ok base (solo_reset_all ord s))"
  using solo_reset_loop_correct [OF assms(1) range_order_distinct [OF assms(2)], of base]
    solo_believed_keys [OF assms] by (auto simp: solo_reset_all_def)


lemma solo_confirm_correct:
  assumes "solo_inv s" and "gm_get (sk_subs s) tpc = Some a"
  shows "solo_inv (solo_confirm subbed tpc a s) \<and> solo_wanted (solo_confirm subbed tpc a s) = solo_wanted s \<and>
    solo_believed (solo_confirm subbed tpc a s) =
      (if (tpc \<in> solo_wanted s) = subbed
       then (if subbed then insert tpc (solo_believed s) else solo_believed s - {tpc}) else solo_believed s) \<and>
    (\<forall>b. b \<noteq> a \<longrightarrow> deref (solo_confirm subbed tpc a s) b = deref s b) \<and>
    (\<forall>t. t \<noteq> tpc \<longrightarrow> gm_get (sk_subs (solo_confirm subbed tpc a s)) t = gm_get (sk_subs s) t) \<and>
    length (sk_heap (solo_confirm subbed tpc a s)) = length (sk_heap s) \<and>
    (solo_gauge_ok base s \<longrightarrow> solo_gauge_ok base (solo_confirm subbed tpc a s))"
proof -
  note e = solo_invD [OF assms] and abs = solo_abs_Some [OF assms(2)]
  show ?thesis
  proof (cases "ss_confirmed (deref s a) \<or> ss_subbed (deref s a) \<noteq> subbed")
    case True
    then have "solo_confirm subbed tpc a s = s" by (simp add: solo_confirm_def)
    then show ?thesis using True assms(1) e(3) abs by auto
  next
    case False
    let ?sub = "(deref s a)\<lparr>ss_confirmed := True\<rparr>"
    show ?thesis
    proof (cases subbed)
      case True
      let ?t = "store a ?sub s"
      have eq: "solo_confirm subbed tpc a s = ?t\<lparr>sk_metrics := inc_sub_confirmations (sk_metrics ?t)\<rparr>"
        using False True by (simp add: solo_confirm_def Let_def)
      note r = solo_rewrite [OF assms, of ?sub]
      have "solo_inv (solo_confirm subbed tpc a s) \<and> solo_wanted (solo_confirm subbed tpc a s) = solo_wanted s \<and>
          solo_believed (solo_confirm subbed tpc a s) = insert tpc (solo_believed s)"
        unfolding eq using r e(2) False True abs by auto
      then show ?thesis
        unfolding eq using e(1) False True abs by (simp add: solo_gauge_ok_def metrics_simps)
    next
      case nsub: False
      let ?t = "store a ?sub s"
      have eq: "solo_confirm subbed tpc a s = ?t\<lparr>sk_subs := gm_del (sk_subs ?t) tpc,
          sk_metrics := inc_unsub_confirmations (dec_subs (sk_metrics ?t))\<rparr>"
        using False nsub by (simp add: solo_confirm_def Let_def)
      have w: "tpc \<notin> solo_wanted s" using abs False nsub by simp
      have "solo_inv (solo_confirm subbed tpc a s)" "solo_wanted (solo_confirm subbed tpc a s) = solo_wanted s"
        "solo_believed (solo_confirm subbed tpc a s) = solo_believed s - {tpc}"
        using solo_delete [OF assms(1), of "solo_confirm subbed tpc a s" tpc] e(1) assms(2) w by (auto simp: eq)
      moreover have "solo_gauge_ok base s \<longrightarrow> solo_gauge_ok base (solo_confirm subbed tpc a s)"
        using solo_gauge_del [OF assms, of base "solo_confirm subbed tpc a s"] by (simp add: eq metrics_simps)
      moreover have "\<forall>b. b \<noteq> a \<longrightarrow> deref (solo_confirm subbed tpc a s) b = deref s b"
        "\<forall>t. t \<noteq> tpc \<longrightarrow> gm_get (sk_subs (solo_confirm subbed tpc a s)) t = gm_get (sk_subs s) t"
        "length (sk_heap (solo_confirm subbed tpc a s)) = length (sk_heap s)"
        unfolding eq using e(1) by simp_all
      ultimately show ?thesis using w nsub by simp
    qed
  qed
qed

section \<open>The keeper refines a pair of sets\<close>

text \<open>
  The operations, with the orders of their loops. \<open>SCallback\<close> is the confirmation function of a payload
  that was handed out for the object at the address, with what the formatter says of the reply.
\<close>

datatype solo_op =
    SSubscribe string | SUnsubscribe string | SUnsubscribeLocal string | SUnsubscribeAll "string list"
  | SResetAll "string list" | SConfirmSub string | SConfirmUnsub string | SCallback nat bool

fun solo_step :: "solo_keeper \<Rightarrow> solo_op \<Rightarrow> solo_keeper \<times> nat list" where
  "solo_step s (SSubscribe t) = solo_subscribe t s"
| "solo_step s (SUnsubscribe t) = solo_unsubscribe t s"
| "solo_step s (SUnsubscribeLocal t) = (solo_unsubscribe_local t s, [])"
| "solo_step s (SUnsubscribeAll ord) = solo_unsubscribe_all ord s"
| "solo_step s (SResetAll ord) = (solo_reset_all ord s, [])"
| "solo_step s (SConfirmSub t) = (solo_confirm_sub t s, [])"
| "solo_step s (SConfirmUnsub t) = (solo_confirm_unsub t s, [])"
| "solo_step s (SCallback a ok) =
     (solo_confirm_payload (\<lparr>sf_SubMessage = Some, sf_UnsubMessage = Some, sf_ConfirmSub = (\<lambda>_. id),
        sf_ConfirmUnsub = (\<lambda>_. id)\<rparr>) a ok s, [])"

text \<open>The loops visit the whole map; a callback is for an object that is still the entry of its topic.\<close>

fun solo_good :: "solo_keeper \<Rightarrow> solo_op \<Rightarrow> bool" where
  "solo_good s (SUnsubscribeAll ord) = range_order (sk_subs s) ord"
| "solo_good s (SResetAll ord) = range_order (sk_subs s) ord"
| "solo_good s (SCallback a ok) = (gm_get (sk_subs s) (ss_topic (deref s a)) = Some a)"
| "solo_good s op = True"

text \<open>
  The specification on the topics that are wanted and those that are believed to be subscribed to on
  the other side. A callback confirms what is wanted of its topic.
\<close>

fun keeper_spec :: "(nat \<Rightarrow> string) \<Rightarrow> string set \<times> string set \<Rightarrow> solo_op \<Rightarrow> string set \<times> string set" where
  "keeper_spec tp (W, B) (SSubscribe t) = (if t \<in> B then W else insert t W, B)"
| "keeper_spec tp (W, B) (SUnsubscribe t) = (W - {t}, B)"
| "keeper_spec tp (W, B) (SUnsubscribeLocal t) = (W - {t}, B - {t})"
| "keeper_spec tp (W, B) (SUnsubscribeAll ord) = ({}, B)"
| "keeper_spec tp (W, B) (SResetAll ord) = (W, {})"
| "keeper_spec tp (W, B) (SConfirmSub t) = (W, if t \<in> W then insert t B else B)"
| "keeper_spec tp (W, B) (SConfirmUnsub t) = (W, if t \<in> W then B else B - {t})"
| "keeper_spec tp (W, B) (SCallback a ok) = (W, if ok then delivered {tp a} W B else B)"

definition solo_abs :: "solo_keeper \<Rightarrow> string set \<times> string set" where
  "solo_abs s = (solo_wanted s, solo_believed s)"

lemma solo_callback_abs:
  assumes "solo_inv s" and "gm_get (sk_subs s) (ss_topic (deref s a)) = Some a"
  shows "solo_inv (solo_confirm (ss_subbed (deref s a)) (ss_topic (deref s a)) a s) \<and>
    solo_wanted (solo_confirm (ss_subbed (deref s a)) (ss_topic (deref s a)) a s) = solo_wanted s \<and>
    solo_believed (solo_confirm (ss_subbed (deref s a)) (ss_topic (deref s a)) a s) =
      delivered {ss_topic (deref s a)} (solo_wanted s) (solo_believed s)"
  using solo_confirm_correct [OF assms, of "ss_subbed (deref s a)"] solo_abs_Some(1) [OF assms(2)]
  by (auto simp: delivered_def)

lemma solo_keeper_correct:
  assumes "solo_inv s" and "solo_good s op"
  shows "solo_inv (fst (solo_step s op)) \<and>
    solo_abs (fst (solo_step s op)) = keeper_spec (\<lambda>a. ss_topic (deref s a)) (solo_abs s) op \<and>
    (solo_gauge_ok base s \<and> (\<forall>t. op = SUnsubscribeLocal t \<longrightarrow> gm_get (sk_subs s) t \<noteq> None) \<longrightarrow>
       solo_gauge_ok base (fst (solo_step s op)))"
proof (cases op)
  case (SSubscribe t)
  then show ?thesis
    using solo_subscribe_correct [OF assms(1) surjective_pairing, of t base] by (auto simp: solo_abs_def)
next
  case (SUnsubscribe t)
  then show ?thesis
    using solo_unsubscribe_correct [OF assms(1) surjective_pairing, of t base] by (auto simp: solo_abs_def)
next
  case (SUnsubscribeLocal t)
  have "solo_gauge_ok base (solo_unsubscribe_local t s)"
    if "solo_gauge_ok base s" "gm_get (sk_subs s) t = Some a" for a
    using solo_gauge_del [OF assms(1) that(2,1), of "solo_unsubscribe_local t s"]
    by (simp add: solo_unsubscribe_local_def metrics_simps)
  then show ?thesis
    using SUnsubscribeLocal solo_unsubscribe_local_correct [OF assms(1), of t] by (auto simp: solo_abs_def)
next
  case (SUnsubscribeAll ord)
  then show ?thesis
    using solo_unsubscribe_all_correct [OF assms(1) _ surjective_pairing, of ord base] assms(2) by (auto simp: solo_abs_def)
next
  case (SResetAll ord)
  then show ?thesis
    using solo_reset_all_correct [OF assms(1), of ord base] assms(2) by (auto simp: solo_abs_def)
next
  case (SConfirmSub t)
  then show ?thesis
    using solo_confirm_correct [OF assms(1), of t _ True base] assms(1) solo_entry_iff [OF assms(1), of t]
    by (cases "gm_get (sk_subs s) t") (auto simp: solo_abs_def solo_confirm_sub_def)
next
  case (SConfirmUnsub t)
  then show ?thesis
    using solo_confirm_correct [OF assms(1), of t _ False base] assms(1) solo_entry_iff [OF assms(1), of t]
    by (cases "gm_get (sk_subs s) t") (auto simp: solo_abs_def solo_confirm_unsub_def)
next
  case (SCallback a ok)
  then have g: "gm_get (sk_subs s) (ss_topic (deref s a)) = Some a" using assms(2) by simp
  show ?thesis
    using solo_callback_abs [OF assms(1) g] SCallback assms(1)
      solo_confirm_correct [OF assms(1) g, of "ss_subbed (deref s a)" base]
    by (cases "ss_subbed (deref s a)"; cases ok) (auto simp: solo_abs_def solo_confirm_payload_def Let_def)
qed

text \<open>
  C36. The keeper with its objects and pointers implements the pair of sets, operation by operation, and
  keeps its invariant: subscribing wants a topic (but is ignored while an unsubscription of the topic is
  under way), unsubscribing stops wanting it, a reset forgets what is believed and keeps what is wanted,
  a confirmation settles its topic. The gauge of subscriptions stays the number of entries under every
  operation except \<open>UnsubscribeLocal\<close> of a topic without an entry.
\<close>

theorem solo_keeper_refines:
  assumes "solo_inv s" and "solo_good s op"
  shows "solo_inv (fst (solo_step s op)) \<and>
    solo_abs (fst (solo_step s op)) = keeper_spec (\<lambda>a. ss_topic (deref s a)) (solo_abs s) op \<and>
    (solo_gauge_ok base s \<and> (\<forall>t. op = SUnsubscribeLocal t \<longrightarrow> gm_get (sk_subs s) t \<noteq> None) \<longrightarrow>
       solo_gauge_ok base (fst (solo_step s op)))"
  using solo_keeper_correct [OF assms] .


definition sample_solo :: solo_keeper where
  "sample_solo = fst (solo_subscribe ''btc'' (new_solo_sub_keeper
     \<lparr>mx_subs = 0, mx_sub_confirmations = 0, mx_unsub_confirmations = 0\<rparr> 0 False))"

lemma solo_new:
  "solo_inv (new_solo_sub_keeper mx cooldown manual)" "solo_wanted (new_solo_sub_keeper mx cooldown manual) = {}"
  "solo_believed (new_solo_sub_keeper mx cooldown manual) = {}"
  by (simp_all add: new_solo_sub_keeper_def solo_inv_def solo_wanted_def solo_believed_def)

lemma sample_solo_facts:
  "solo_inv sample_solo" "solo_abs sample_solo = ({''btc''}, {})" "gm_get (sk_subs sample_solo) ''btc'' = Some 0"
  "ss_topic (deref sample_solo 0) = ''btc''"
  using solo_subscribe_correct [OF solo_new(1) surjective_pairing, of "''btc''"]
  by (simp_all add: sample_solo_def solo_abs_def solo_new)
    (simp_all add: solo_subscribe_def new_solo_sub_keeper_def Let_def deref_def)

theorem solo_keeper_refines_witness:
  "solo_abs (fst (solo_step sample_solo (SCallback 0 True))) = ({''btc''}, {''btc''})"
proof -
  have g: "solo_good sample_solo (SCallback 0 True)" by (simp add: sample_solo_facts)
  show ?thesis
    using solo_keeper_refines [OF sample_solo_facts(1) g] sample_solo_facts(2,4) by (simp add: delivered_def)
qed

section \<open>The keeper provides the contract\<close>

definition solo_is_payloads :: "solo_keeper \<Rightarrow> nat list \<Rightarrow> bool" where
  "solo_is_payloads s pp \<longleftrightarrow> (\<exists>ord. range_order (sk_subs s) ord \<and> pp = fst (solo_payloads ord s))"

definition solo_valid :: "solo_keeper \<Rightarrow> nat \<Rightarrow> bool" where
  "solo_valid s a \<longleftrightarrow> gm_get (sk_subs s) (ss_topic (deref s a)) = Some a"

definition solo_items :: "solo_keeper \<Rightarrow> nat \<Rightarrow> string set" where
  "solo_items s a = {ss_topic (deref s a)}"

definition solo_confirmed :: "solo_keeper \<Rightarrow> nat \<Rightarrow> solo_keeper" where
  "solo_confirmed s a = solo_confirm (ss_subbed (deref s a)) (ss_topic (deref s a)) a s"

definition solo_reset :: "solo_keeper \<Rightarrow> solo_keeper" where
  "solo_reset s = solo_reset_all (gm_keys (sk_subs s)) s"

lemma solo_payloads_iff:
  assumes "solo_inv s" and "range_order (sk_subs s) ord"
  shows "a \<in> set (fst (solo_payloads ord s)) \<longleftrightarrow> solo_valid s a \<and> \<not> ss_confirmed (deref s a)"
proof -
  have "a \<in> set (List.map_filter (gm_get (sk_subs s)) ord) \<longleftrightarrow> (\<exists>t. gm_get (sk_subs s) t = Some a)"
    using range_orderD [OF assms(2)] by (force simp: List.map_filter_def)
  also have "\<dots> \<longleftrightarrow> solo_valid s a"
    using solo_invD(2) [OF assms(1)] by (auto simp: solo_valid_def)
  finally show ?thesis by (auto simp: solo_payloads_def)
qed

lemma distinct_map_filter_inj:
  "distinct xs \<Longrightarrow> (\<And>x y a. f x = Some a \<Longrightarrow> f y = Some a \<Longrightarrow> x = y) \<Longrightarrow> distinct (List.map_filter f xs)"
proof (induction xs)
  case (Cons x xs)
  have "b \<notin> set (List.map_filter f xs)" if "f x = Some b" for b
    using Cons.prems that by (fastforce simp: List.map_filter_def)
  then show ?case using Cons by (cases "f x") (simp_all add: List.map_filter_def)
qed (simp add: List.map_filter_def)

lemma solo_payloads_distinct:
  assumes "solo_inv s" and "range_order (sk_subs s) ord"
  shows "distinct (fst (solo_payloads ord s))"
proof -
  have "distinct (List.map_filter (gm_get (sk_subs s)) ord)"
    using range_order_distinct [OF assms(2)] solo_inj [OF assms(1)] by (rule distinct_map_filter_inj)
  then show ?thesis by (simp add: solo_payloads_def)
qed

text \<open>The mode of confirmation never changes.\<close>

definition solo_mode :: "bool \<Rightarrow> solo_keeper \<Rightarrow> bool" where
  "solo_mode m s \<longleftrightarrow> solo_inv s \<and> sk_manualConfirm s = m"

lemma solo_confirm_mode [simp]: "sk_manualConfirm (solo_confirm subbed t a s) = sk_manualConfirm s"
  by (simp add: solo_confirm_def Let_def)

lemma solo_reset_mode [simp]: "sk_manualConfirm (solo_reset_loop ord s) = sk_manualConfirm s"
  by (induction ord s rule: solo_reset_loop.induct) (simp_all add: Let_def split: option.split)

lemma solo_valid_inj:
  "solo_valid s a \<Longrightarrow> solo_valid s b \<Longrightarrow> ss_topic (deref s a) = ss_topic (deref s b) \<Longrightarrow> a = b"
  by (simp add: solo_valid_def)

lemma solo_separate: "distinct pp \<Longrightarrow> \<forall>a \<in> set pp. solo_valid s a \<Longrightarrow> separate solo_valid solo_items s pp"
proof (induction pp)
  case (Cons a pp)
  then have "solo_items s a \<inter> solo_items s b = {}" if "b \<in> set pp" for b
    using that solo_valid_inj [of s a b] by (auto simp: solo_items_def)
  with Cons show ?case by (simp add: list_all_iff)
qed simp

interpretation solo: sub_keeper "solo_mode m" solo_wanted solo_believed solo_is_payloads solo_valid solo_items
  solo_confirmed solo_reset for m
proof
  fix s pp
  assume mode: "solo_mode m s" and pp: "solo_is_payloads s pp"
  then have inv: "solo_inv s" by (simp add: solo_mode_def)
  from pp obtain ord where ord: "range_order (sk_subs s) ord" "pp = fst (solo_payloads ord s)"
    by (auto simp: solo_is_payloads_def)
  show "separate solo_valid solo_items s pp"
    using solo_payloads_iff [OF inv ord(1)] solo_payloads_distinct [OF inv ord(1)] ord(2)
    by (intro solo_separate) simp_all
  have "t \<in> (\<Union>a \<in> set pp. solo_items s a) \<longleftrightarrow>
      t \<in> solo_wanted s - solo_believed s \<union> (solo_believed s - solo_wanted s)" for t
  proof (cases "gm_get (sk_subs s) t")
    case None
    then have "t \<notin> solo_items s a" if "a \<in> set pp" for a
      using that solo_payloads_iff [OF inv ord(1)] ord(2) by (auto simp: solo_items_def solo_valid_def)
    then show ?thesis using solo_entry_iff [OF inv, of t] None by auto
  next
    case (Some b)
    have "solo_valid s a \<and> ss_topic (deref s a) = t \<longleftrightarrow> a = b" for a
      using Some solo_invD(2) [OF inv Some] unfolding solo_valid_def by force
    moreover have "t \<in> (\<Union>a \<in> set pp. solo_items s a) \<longleftrightarrow>
        (\<exists>a. solo_valid s a \<and> ss_topic (deref s a) = t \<and> \<not> ss_confirmed (deref s a))"
      unfolding ord(2) solo_items_def using solo_payloads_iff [OF inv ord(1)] by force
    ultimately have "t \<in> (\<Union>a \<in> set pp. solo_items s a) \<longleftrightarrow> \<not> ss_confirmed (deref s b)" by metis
    then show ?thesis using solo_abs_Some [OF Some] by auto
  qed
  then show "(\<Union>a \<in> set pp. solo_items s a) = solo_wanted s - solo_believed s \<union> (solo_believed s - solo_wanted s)"
    by blast
next
  fix s a
  assume "solo_mode m s" "solo_valid s a"
  then show "solo_mode m (solo_confirmed s a) \<and> solo_wanted (solo_confirmed s a) = solo_wanted s \<and>
      solo_believed (solo_confirmed s a) = delivered (solo_items s a) (solo_wanted s) (solo_believed s)"
    using solo_callback_abs by (simp add: solo_mode_def solo_valid_def solo_confirmed_def solo_items_def)
next
  fix s a b
  assume "solo_mode m s" and v: "solo_valid s a" and b: "solo_valid s b" "solo_items s a \<inter> solo_items s b = {}"
  then have a: "solo_inv s" "solo_valid s a" by (simp_all add: solo_mode_def)
  have t: "ss_topic (deref s b) \<noteq> ss_topic (deref s a)" using b(2) by (auto simp: solo_items_def)
  then have "b \<noteq> a" by auto
  with solo_confirm_correct [OF a(1), of "ss_topic (deref s a)" a "ss_subbed (deref s a)"] a(2) t
  have "deref (solo_confirmed s a) b = deref s b"
    "gm_get (sk_subs (solo_confirmed s a)) (ss_topic (deref s b)) = gm_get (sk_subs s) (ss_topic (deref s b))"
    by (simp_all add: solo_valid_def solo_confirmed_def)
  then show "solo_valid (solo_confirmed s a) b \<and> solo_items (solo_confirmed s a) b = solo_items s b"
    using b(1) by (simp add: solo_valid_def solo_items_def)
next
  fix s
  assume mode: "solo_mode m s"
  then have inv: "solo_inv s" by (simp add: solo_mode_def)
  then have "range_order (sk_subs s) (gm_keys (sk_subs s))"
    by (intro range_order_keys) (simp add: solo_inv_def)
  from solo_reset_all_correct [OF inv this]
  show "solo_mode m (solo_reset s) \<and> solo_wanted (solo_reset s) = solo_wanted s \<and> solo_believed (solo_reset s) = {}"
    using mode by (simp add: solo_reset_def solo_mode_def solo_reset_all_def)
qed


section \<open>Confirmations that cross other calls\<close>

text \<open>A formatter that accepts every reply.\<close>

definition accept_all :: "('m, 'd) solo_formatter" where
  "accept_all = \<lparr>sf_SubMessage = (\<lambda>_. None), sf_UnsubMessage = (\<lambda>_. None),
     sf_ConfirmSub = (\<lambda>_ _. True), sf_ConfirmUnsub = (\<lambda>_ _. True)\<rparr>"

text \<open>
  Two crossings on any topic t of a new keeper, each with one payload whose confirmation arrives
  late. First: t is subscribed, the payload is on its way, t is unsubscribed, the confirmation arrives;
  the keeper then has no entry for t and will never send an unsubscription, although the other side
  has just confirmed the subscription. Second: a confirmed t is unsubscribed, the payload is on its way,
  the other side drops t, and t is subscribed anew; the confirmation of the old unsubscription then
  deletes the new subscription.
\<close>

lemma late_confirmations:
  "let f = (accept_all :: (unit, unit) solo_formatter);
       s1 = fst (solo_subscribe t (new_solo_sub_keeper mx 0 False));
       late1 = solo_confirm_payload f 0 () (fst (solo_unsubscribe t s1));
       s2 = fst (solo_unsubscribe t (solo_confirm_payload f 0 () s1));
       s3 = fst (solo_subscribe t (solo_unsubscribe_local t s2));
       late2 = solo_confirm_payload f 0 () s3
   in fst (solo_payloads [t] s1) = [0] \<and> solo_abs late1 = ({}, {}) \<and>
      mx_sub_confirmations (sk_metrics late1) = Suc (mx_sub_confirmations mx) \<and>
      fst (solo_payloads [t] s2) = [0] \<and> solo_abs s3 = ({t}, {}) \<and> solo_abs late2 = ({}, {})"
  unfolding Let_def
  by (simp add: new_solo_sub_keeper_def solo_subscribe_def solo_unsubscribe_def solo_unsubscribe_sub_def
      solo_confirm_payload_def solo_confirm_def solo_unsubscribe_local_def accept_all_def solo_payloads_def
      solo_abs_def solo_wanted_def solo_believed_def deref_def store_def gm_set_def gm_del_def gm_get_def
      metrics_simps List.map_filter_def Let_def)

end
