(* ===== verification/Ws_Reconn.thy ===== *)
theory Ws_Reconn
  imports Ws_Solo_Keeper Ctx_Util
begin

text \<open>
  The reconnecting client (\<^verbatim>\<open>wsclient/wsreconn/client.go\<close>). A keeper is a record of its operations, as
  the Go client knows it only as an interface; the sockets below it are an oracle for the result of
  each call. \<open>process\<close> is one run of the periodic check: reset and reopen a lost connection, run the
  reconnection functions, then send every payload. The locale \<open>keeper_client\<close> draws what the client
  achieves from the contract of its keeper; it is interpreted on the keeper of single subscriptions.
\<close>

section \<open>The client\<close>

text \<open>The interface of a keeper: \<open>'k\<close> its state, \<open>'p\<close> its payloads, \<open>'m\<close> messages, \<open>'d\<close> received data.\<close>

record ('k, 'p, 'm, 'd) keeper_ops =
  ko_payloads :: "'k \<Rightarrow> 'p list \<times> int"
  ko_payload :: "'p \<Rightarrow> 'k \<Rightarrow> 'm option \<times> bool"
  ko_confirm :: "'p \<Rightarrow> 'd \<Rightarrow> 'k \<Rightarrow> 'k"
  ko_reset :: "'k \<Rightarrow> 'k"
  ko_on_change :: "nat \<Rightarrow> 'k \<Rightarrow> 'k"

record client_options =
  co_RecoveryFunc :: "nat option"
  co_BaseContext :: "ctx option"
  co_CheckAfter :: int

record client =
  rc_opts :: client_options
  rc_attempts :: nat
  rc_writes :: nat
  rc_reconnFns :: "nat list"

definition on_reconnect :: "nat \<Rightarrow> client \<Rightarrow> client" where
  "on_reconnect fn c = c\<lparr>rc_reconnFns := rc_reconnFns c @ [fn]\<rparr>"

text \<open>
  \<^verbatim>\<open>NewClient\<close>: \<open>open_res\<close> is the error of the first \<^verbatim>\<open>Open\<close>, if any; function 0 is the empty recovery
  function and \<open>trigger\<close> the number of the function that triggers a check.
\<close>

definition default_options :: "client_options \<Rightarrow> client_options" where
  "default_options opts =
     (let opts = (if co_RecoveryFunc opts = None then opts\<lparr>co_RecoveryFunc := Some 0\<rparr> else opts);
          opts = (if co_BaseContext opts = None then opts\<lparr>co_BaseContext := Some Background\<rparr> else opts)
      in if co_CheckAfter opts \<le> 0 then opts\<lparr>co_CheckAfter := 1000000000 * 30\<rparr> else opts)"

definition new_client ::
  "('k, 'p, 'm, 'd) keeper_ops \<Rightarrow> nat \<Rightarrow> go_error option \<Rightarrow> client_options \<Rightarrow> 'k \<Rightarrow> (go_error + client) \<times> 'k" where
  "new_client ops trigger open_res opts k =
     (let c = \<lparr>rc_opts = default_options opts, rc_attempts = 0, rc_writes = 0, rc_reconnFns = []\<rparr>;
          c = c\<lparr>rc_attempts := Suc (rc_attempts c)\<rparr>
      in (case open_res of
            Some err \<Rightarrow> (Inl err, k)
          | None \<Rightarrow> (Inr c, ko_on_change ops trigger k)))"

text \<open>
  \<^verbatim>\<open>sendPayload\<close>, with the result of the socket: the error, and the keeper after the confirmation.
  \<open>late\<close> is what other goroutines do to the keeper while the reply is awaited.
\<close>

definition send_payload ::
  "('k, 'p, 'm, 'd) keeper_ops \<Rightarrow> ('k \<Rightarrow> 'k) \<Rightarrow> go_error + 'd \<Rightarrow> 'p \<Rightarrow> bool \<Rightarrow> 'k \<Rightarrow> go_error option \<times> 'k" where
  "send_payload ops late res p confirm k =
     (let k = late k
      in if \<not> confirm
         then (case res of Inl err \<Rightarrow> (Some err, k) | Inr d \<Rightarrow> (None, k))
         else (case res of Inl err \<Rightarrow> (Some err, k) | Inr d \<Rightarrow> (None, ko_confirm ops p d k)))"

text \<open>
  The loop over the payloads. \<open>net i msg\<close> is the result of writing (and, with a confirmation function,
  awaiting the reply of) the \<open>i\<close>-th payload; \<open>intr i\<close> tells whether the pause after it is interrupted.
  The result: the keeper, the messages given to the socket, and whether a prompt check is triggered.
\<close>

fun send_loop ::
  "('k, 'p, 'm, 'd) keeper_ops \<Rightarrow> (nat \<Rightarrow> 'm \<Rightarrow> go_error + 'd) \<Rightarrow> (nat \<Rightarrow> 'k \<Rightarrow> 'k) \<Rightarrow> (nat \<Rightarrow> bool) \<Rightarrow> int \<Rightarrow>
   nat \<Rightarrow> 'p list \<Rightarrow> 'k \<Rightarrow> 'k \<times> 'm list \<times> bool" where
  "send_loop ops net late intr cooldown i [] k = (k, [], False)"
| "send_loop ops net late intr cooldown i (p # pp) k =
     (let (m, confirm) = ko_payload ops p k
      in (case m of
            None \<Rightarrow> send_loop ops net late intr cooldown (Suc i) pp k
          | Some msg \<Rightarrow>
              let (err, k) = send_payload ops (late i) (net i msg) p confirm k
              in if (case err of None \<Rightarrow> False | Some e \<Rightarrow> err_is e ErrConnClosed) then (k, [msg], True)
                 else if \<not> (cooldown \<le> 0 \<or> pp = []) \<and> intr i then (k, [msg], False)
                 else
                   let (k', msgs, trig) = send_loop ops net late intr cooldown (Suc i) pp k
                   in (k', msg # msgs, trig)))"

text \<open>
  One run of \<^verbatim>\<open>process\<close>: the keeper, the client's counters, the messages, the reconnection functions
  called, and whether a prompt check is triggered. \<open>locked\<close>: another run holds the lock.
\<close>

definition process ::
  "('k, 'p, 'm, 'd) keeper_ops \<Rightarrow> (nat \<Rightarrow> 'm \<Rightarrow> go_error + 'd) \<Rightarrow> (nat \<Rightarrow> 'k \<Rightarrow> 'k) \<Rightarrow> (nat \<Rightarrow> bool) \<Rightarrow>
   bool \<Rightarrow> bool \<Rightarrow> go_error option \<Rightarrow> client \<Rightarrow> 'k \<Rightarrow> client \<times> 'k \<times> 'm list \<times> nat list \<times> bool" where
  "process ops net late intr locked is_open open_res c k =
     (if locked then (c, k, [], [], False)
      else
        let c' = (if \<not> is_open then c\<lparr>rc_attempts := Suc (rc_attempts c)\<rparr> else c);
            k' = (if \<not> is_open then ko_reset ops k else k)
        in if \<not> is_open \<and> open_res \<noteq> None then (c', k', [], [], False)
           else
             let fns = (if \<not> is_open then rc_reconnFns c else []);
                 (pp, cooldown) = ko_payloads ops k';
                 (k'', msgs, trig) = send_loop ops net late intr cooldown 0 pp k'
             in (c'\<lparr>rc_writes := rc_writes c' + length msgs\<rparr>, k'', msgs, fns, trig))"

section \<open>What the client achieves with a keeper that keeps the contract\<close>

text \<open>
  \<open>effect m\<close> is what the message \<open>m\<close> does to the subscriptions that the other side holds. \<open>fmt_ok\<close>
  collects what the keeper asks of the user's formatter and \<open>good_reply\<close> says which replies confirm.
\<close>

locale keeper_client = sub_keeper invar wanted believed is_payloads valid items confirm reset_all
  for invar :: "'k \<Rightarrow> bool" and wanted :: "'k \<Rightarrow> 'r set" and believed :: "'k \<Rightarrow> 'r set"
    and is_payloads :: "'k \<Rightarrow> 'p list \<Rightarrow> bool" and valid :: "'k \<Rightarrow> 'p \<Rightarrow> bool" and items :: "'k \<Rightarrow> 'p \<Rightarrow> 'r set"
    and confirm :: "'k \<Rightarrow> 'p \<Rightarrow> 'k" and reset_all :: "'k \<Rightarrow> 'k" +
  fixes ops :: "('k, 'p, 'm, 'd) keeper_ops"
    and effect :: "'m \<Rightarrow> 'r set \<Rightarrow> 'r set"
    and good_reply :: "'d \<Rightarrow> bool"
    and fmt_ok :: bool
  assumes ops_payloads: "fmt_ok \<Longrightarrow> invar k \<Longrightarrow> is_payloads k (fst (ko_payloads ops k))"
    and ops_reset: "fmt_ok \<Longrightarrow> invar k \<Longrightarrow>
      invar (ko_reset ops k) \<and> wanted (ko_reset ops k) = wanted k \<and> believed (ko_reset ops k) = {}"
    and ops_payload: "fmt_ok \<Longrightarrow> invar k \<Longrightarrow> valid k p \<Longrightarrow>
      \<exists>m. ko_payload ops p k = (Some m, True) \<and> (\<forall>r. effect m r = delivered (items k p) (wanted k) r)"
    and ops_confirm: "fmt_ok \<Longrightarrow> invar k \<Longrightarrow> valid k p \<Longrightarrow> good_reply d \<Longrightarrow> ko_confirm ops p d k = confirm k p"
begin

lemma send_loop_delivers:
  assumes "fmt_ok" and "invar k" and "separate valid items k pp"
    and "\<forall>i m. \<exists>d. net i m = Inr d \<and> good_reply d" and "\<forall>i. \<not> intr i"
  shows "\<exists>k' msgs. send_loop ops net (\<lambda>_ k. k) intr cooldown i pp k = (k', msgs, False) \<and>
    deliver_all items wanted confirm pp (k, r) = (k', fold effect msgs r)"
  using assms(2,3)
proof (induction pp arbitrary: k i r)
  case Nil
  then show ?case by simp
next
  case (Cons p pp)
  have v: "valid k p" using Cons.prems(2) by simp
  obtain m where m: "ko_payload ops p k = (Some m, True)" "\<forall>r. effect m r = delivered (items k p) (wanted k) r"
    using ops_payload [OF assms(1) Cons.prems(1) v] by blast
  obtain d where d: "net i m = Inr d" "good_reply d" using assms(4) by blast
  have c: "ko_confirm ops p d k = confirm k p"
    using ops_confirm [OF assms(1) Cons.prems(1) v d(2)] .
  have sp: "send_payload ops (\<lambda>k. k) (net i m) p True k = (None, confirm k p)"
    by (simp add: send_payload_def d(1) c)
  have s: "separate valid items (confirm k p) pp"
    using confirm_rest [OF Cons.prems(1) v, of pp] Cons.prems(2) by simp
  have inv: "invar (confirm k p)" using confirm_correct [OF Cons.prems(1) v] by simp
  obtain k' msgs where l:
    "send_loop ops net (\<lambda>_ k. k) intr cooldown (Suc i) pp (confirm k p) = (k', msgs, False)"
    "deliver_all items wanted confirm pp (confirm k p, delivered (items k p) (wanted k) r) =
       (k', fold effect msgs (delivered (items k p) (wanted k) r))"
    using Cons.IH [OF inv s, of "Suc i"] by metis
  have "send_loop ops net (\<lambda>_ k. k) intr cooldown i (p # pp) k = (k', m # msgs, False)"
    using assms(5) l(1) by (simp add: m(1) sp)
  moreover have "deliver_all items wanted confirm (p # pp) (k, r) = (k', fold effect (m # msgs) r)"
    using l(2) m(2) by simp
  ultimately show ?case by blast
qed

text \<open>A run over a healthy connection brings the other side in step, after a loss or not.\<close>

lemma process_synchronises:
  assumes "fmt_ok" and "invar k" and "\<forall>i m. \<exists>d. net i m = Inr d \<and> good_reply d" and "\<forall>i. \<not> intr i"
    and "process ops net (\<lambda>_ k. k) intr False is_open None c k = (c', k', msgs, fns, trig)"
    and "r = (if is_open then believed k else {})"
  shows "invar k' \<and> wanted k' = wanted k \<and> believed k' = wanted k \<and> fold effect msgs r = wanted k \<and> \<not> trig"
proof -
  let ?k = "if \<not> is_open then ko_reset ops k else k"
  have k: "invar ?k" "wanted ?k = wanted k" "believed ?k = r"
    using ops_reset [OF assms(1,2)] assms(2,6) by auto
  obtain pp cooldown where pp: "ko_payloads ops ?k = (pp, cooldown)" by force
  have isp: "is_payloads ?k pp" using ops_payloads [OF assms(1) k(1)] pp by simp
  obtain k1 msgs1 where l: "send_loop ops net (\<lambda>_ k. k) intr cooldown 0 pp ?k = (k1, msgs1, False)"
    "deliver_all items wanted confirm pp (?k, r) = (k1, fold effect msgs1 r)"
    using send_loop_delivers [OF assms(1) k(1) payloads_separate [OF k(1) isp] assms(3,4)] by metis
  have e: "k' = k1" "msgs = msgs1" "\<not> trig"
    using assms(5) pp l(1) by (simp_all add: process_def Let_def)
  have "deliver_all items wanted confirm pp (?k, believed ?k) = (k1, fold effect msgs1 r)"
    using l(2) k(3) by simp
  from round_synchronises [OF k(1) isp this] show ?thesis
    using e k(2) by simp
qed

text \<open>What such a run sends: only about differences of what is wanted and what is believed.\<close>

lemma send_loop_messages:
  assumes "fmt_ok" and "invar k" and "separate valid items k pp"
    and "\<forall>i m. \<exists>d. net i m = Inr d \<and> good_reply d" and "\<forall>i. \<not> intr i"
    and "send_loop ops net (\<lambda>_ k. k) intr cooldown i pp k = (k', msgs, trig)"
  shows "\<forall>m \<in> set msgs. \<exists>p \<in> set pp. \<forall>r. effect m r = delivered (items k p) (wanted k) r"
  using assms(2,3,6)
proof (induction pp arbitrary: k i k' msgs trig)
  case (Cons p pp)
  have v: "valid k p" using Cons.prems(2) by simp
  obtain m where m: "ko_payload ops p k = (Some m, True)" "\<forall>r. effect m r = delivered (items k p) (wanted k) r"
    using ops_payload [OF assms(1) Cons.prems(1) v] by blast
  obtain d where d: "net i m = Inr d" "good_reply d" using assms(4) by blast
  have c: "ko_confirm ops p d k = confirm k p"
    using ops_confirm [OF assms(1) Cons.prems(1) v d(2)] .
  have sp: "send_payload ops (\<lambda>k. k) (net i m) p True k = (None, confirm k p)"
    by (simp add: send_payload_def d(1) c)
  have s: "separate valid items (confirm k p) pp" "\<forall>q \<in> set pp. items (confirm k p) q = items k q"
    using confirm_rest [OF Cons.prems(1) v, of pp] Cons.prems(2) by simp_all
  have inv: "invar (confirm k p)" "wanted (confirm k p) = wanted k" using confirm_correct [OF Cons.prems(1) v] by simp_all
  obtain k1 msgs1 trig1 where l: "send_loop ops net (\<lambda>_ k. k) intr cooldown (Suc i) pp (confirm k p) = (k1, msgs1, trig1)"
    by (metis prod_cases3)
  have "intr = (\<lambda>_. False)" using assms(5) by (simp add: fun_eq_iff)
  then have "msgs = m # msgs1" using Cons.prems(3) l by (simp add: m(1) sp)
  then show ?case using Cons.IH [OF inv(1) s(1) l] inv(2) s(2) m(2) by auto
qed simp

lemma process_messages:
  assumes "fmt_ok" and "invar k" and "\<forall>i m. \<exists>d. net i m = Inr d \<and> good_reply d" and "\<forall>i. \<not> intr i"
    and "process ops net (\<lambda>_ k. k) intr False is_open None c k = (c', k', msgs, fns, trig)"
    and "r0 = (if is_open then believed k else {})" and "m \<in> set msgs"
  shows "\<exists>X \<subseteq> (wanted k - r0) \<union> (r0 - wanted k). \<forall>r. effect m r = delivered X (wanted k) r"
proof -
  let ?k = "if \<not> is_open then ko_reset ops k else k"
  have k: "invar ?k" "wanted ?k = wanted k" "believed ?k = r0"
    using ops_reset [OF assms(1,2)] assms(2,6) by auto
  obtain pp cooldown where pp: "ko_payloads ops ?k = (pp, cooldown)" by force
  have isp: "is_payloads ?k pp" using ops_payloads [OF assms(1) k(1)] pp by simp
  obtain k1 msgs1 trig1 where l: "send_loop ops net (\<lambda>_ k. k) intr cooldown 0 pp ?k = (k1, msgs1, trig1)"
    by (metis prod_cases3)
  have "msgs = msgs1" using assms(5) pp l by (simp add: process_def Let_def)
  then obtain p where p: "p \<in> set pp" "\<forall>r. effect m r = delivered (items ?k p) (wanted ?k) r"
    using send_loop_messages [OF assms(1) k(1) payloads_separate [OF k(1) isp] assms(3,4) l] assms(7) by blast
  have "items ?k p \<subseteq> (wanted ?k - believed ?k) \<union> (believed ?k - wanted ?k)"
    using payloads_cover [OF k(1) isp] p(1) by blast
  then show ?thesis using p(2) k(2,3) by metis
qed

text \<open>Whatever the network does, a run forgets nothing that is wanted and keeps the invariant.\<close>

lemma send_payload_cases:
  assumes "fmt_ok" and "invar k" and "valid k p" and "\<forall>d. res = Inr d \<longrightarrow> good_reply d"
    and "send_payload ops (\<lambda>k. k) res p b k = (err, k1)"
  shows "k1 = k \<or> k1 = confirm k p"
  using assms ops_confirm by (auto simp: send_payload_def split: sum.splits if_splits)

lemma send_loop_safe:
  assumes "fmt_ok" and "\<forall>i m d. net i m = Inr d \<longrightarrow> good_reply d"
    and "invar k" and "separate valid items k pp"
    and "send_loop ops net (\<lambda>_ k. k) intr cooldown i pp k = (k', msgs, trig)"
  shows "invar k' \<and> wanted k' = wanted k"
  using assms(3-5)
proof (induction pp arbitrary: k i k' msgs trig)
  case Nil
  then show ?case by simp
next
  case (Cons p pp)
  have v: "valid k p" and s: "separate valid items k pp" using Cons.prems(2) by simp_all
  obtain m where m: "ko_payload ops p k = (Some m, True)"
    using ops_payload [OF assms(1) Cons.prems(1) v] by blast
  obtain err k1 where sp: "send_payload ops (\<lambda>k. k) (net i m) p True k = (err, k1)" by force
  have "k1 = k \<or> k1 = confirm k p"
    using send_payload_cases [OF assms(1) Cons.prems(1) v _ sp] assms(2) by blast
  then have k1: "invar k1" "wanted k1 = wanted k" "separate valid items k1 pp"
    using Cons.prems(1) confirm_correct [OF Cons.prems(1) v] confirm_rest [OF Cons.prems(1) v] Cons.prems(2) by auto
  obtain k2 msgs2 trig2 where r: "send_loop ops net (\<lambda>_ k. k) intr cooldown (Suc i) pp k1 = (k2, msgs2, trig2)"
    by (metis prod_cases3)
  have "k' = k1 \<or> k' = k2"
    using Cons.prems(3) by (simp add: m sp r split: if_splits)
  then show ?case
    using k1 Cons.IH [OF k1(1,3) r] by auto
qed

lemma process_safe:
  assumes "fmt_ok" and "invar k" and "\<forall>i m d. net i m = Inr d \<longrightarrow> good_reply d"
    and "process ops net (\<lambda>_ k. k) intr locked is_open open_res c k = (c', k', msgs, fns, trig)"
  shows "invar k' \<and> wanted k' = wanted k"
proof -
  let ?k = "if \<not> is_open then ko_reset ops k else k"
  have k: "invar ?k" "wanted ?k = wanted k"
    using ops_reset [OF assms(1,2)] assms(2) by auto
  obtain pp cooldown where pp: "ko_payloads ops ?k = (pp, cooldown)" by force
  have isp: "is_payloads ?k pp" using ops_payloads [OF assms(1) k(1)] pp by simp
  obtain k1 msgs1 trig1 where l: "send_loop ops net (\<lambda>_ k. k) intr cooldown 0 pp ?k = (k1, msgs1, trig1)"
    by (metis prod_cases3)
  have "k' = k \<or> k' = ?k \<or> k' = k1"
    using assms(4) pp l unfolding process_def Let_def by (simp split: if_splits)
  then show ?thesis
    using send_loop_safe [OF assms(1,3) k(1) payloads_separate [OF k(1) isp] l] k assms(2) by auto
qed

end


section \<open>The client with the keeper of single subscriptions\<close>

text \<open>The keeper as the client sees it; \<open>ordf\<close> gives the order in which a loop visits a map.\<close>

definition solo_ops ::
  "((string, nat) gomap \<Rightarrow> string list) \<Rightarrow> ('m, 'd) solo_formatter \<Rightarrow> (solo_keeper, nat, 'm, 'd) keeper_ops" where
  "solo_ops ordf f =
     \<lparr>ko_payloads = (\<lambda>s. solo_payloads (ordf (sk_subs s)) s), ko_payload = solo_payload f,
      ko_confirm = solo_confirm_payload f, ko_reset = (\<lambda>s. solo_reset_all (ordf (sk_subs s)) s),
      ko_on_change = solo_on_change\<rparr>"

text \<open>
  What is asked of the user's formatter: messages that add and remove their topic on the other side,
  and that good replies are recognised.
\<close>

definition solo_formatter_ok ::
  "('m, 'd) solo_formatter \<Rightarrow> ('m \<Rightarrow> string set \<Rightarrow> string set) \<Rightarrow> ('d \<Rightarrow> bool) \<Rightarrow> bool" where
  "solo_formatter_ok f effect good \<longleftrightarrow>
     (\<forall>t. (\<exists>m. sf_SubMessage f t = Some m \<and> (\<forall>r. effect m r = insert t r)) \<and>
          (\<exists>m. sf_UnsubMessage f t = Some m \<and> (\<forall>r. effect m r = r - {t})) \<and>
          (\<forall>d. good d \<longrightarrow> sf_ConfirmSub f t d \<and> sf_ConfirmUnsub f t d))"

interpretation solo_client: keeper_client "solo_mode False" solo_wanted solo_believed solo_is_payloads solo_valid
  solo_items solo_confirmed solo_reset "solo_ops ordf f" effect good
  "solo_formatter_ok f effect good \<and> orders_ok ordf" for ordf f effect good
proof
  fix s :: solo_keeper
  assume ok: "solo_formatter_ok f effect good \<and> orders_ok ordf" and mode: "solo_mode False s"
  then have inv: "solo_inv s" and ord: "range_order (sk_subs s) (ordf (sk_subs s))"
    by (simp_all add: solo_mode_def orders_ok_def solo_inv_def)
  show "solo_is_payloads s (fst (ko_payloads (solo_ops ordf f) s))"
    using ord by (auto simp: solo_is_payloads_def solo_ops_def)
  show "solo_mode False (ko_reset (solo_ops ordf f) s) \<and> solo_wanted (ko_reset (solo_ops ordf f) s) = solo_wanted s \<and>
      solo_believed (ko_reset (solo_ops ordf f) s) = {}"
    using solo_reset_all_correct [OF inv ord] mode by (simp add: solo_ops_def solo_mode_def solo_reset_all_def)
  fix a d
  assume v: "solo_valid s a"
  have w: "ss_topic (deref s a) \<in> solo_wanted s \<longleftrightarrow> ss_subbed (deref s a)"
    using v solo_abs_Some(1) by (simp add: solo_valid_def)
  have del: "delivered {t} (solo_wanted s) r = (if t \<in> solo_wanted s then insert t r else r - {t})" for t r
    by (auto simp: delivered_def)
  obtain m1 m2 where "sf_SubMessage f (ss_topic (deref s a)) = Some m1" "\<forall>r. effect m1 r = insert (ss_topic (deref s a)) r"
    "sf_UnsubMessage f (ss_topic (deref s a)) = Some m2" "\<forall>r. effect m2 r = r - {ss_topic (deref s a)}"
    using ok unfolding solo_formatter_ok_def by meson
  then show "\<exists>m. ko_payload (solo_ops ordf f) a s = (Some m, True) \<and>
      (\<forall>r. effect m r = delivered (solo_items s a) (solo_wanted s) r)"
    using mode w by (simp add: solo_ops_def solo_payload_def solo_items_def solo_mode_def del)
  assume "good d"
  then have "sf_ConfirmSub f (ss_topic (deref s a)) d" "sf_ConfirmUnsub f (ss_topic (deref s a)) d"
    using ok by (simp_all add: solo_formatter_ok_def)
  then show "ko_confirm (solo_ops ordf f) a d s = solo_confirmed s a"
    by (simp add: solo_ops_def solo_confirm_payload_def solo_confirmed_def Let_def)
qed

text \<open>
  C29. Resubscription. One run of \<open>process\<close> over a connection on which every payload is answered by a
  good reply, with the keeper of single subscriptions: if the connection was lost and is reopened, the
  messages sent make a server that knows nothing hold exactly the topics that the application wants; if
  it was open, they bring a server in the believed state there. Afterwards the keeper believes exactly
  what is wanted, and what is wanted has not changed.
\<close>

theorem client_resubscribes:
  assumes "solo_mode False s" and "solo_formatter_ok f effect good" and "orders_ok ordf"
    and "\<forall>i m. \<exists>d. net i m = Inr d \<and> good d" and "\<forall>i. \<not> intr i"
    and "process (solo_ops ordf f) net (\<lambda>_ k. k) intr False is_open None c s = (c', s', msgs, fns, trig)"
  shows "solo_wanted s' = solo_wanted s \<and> solo_believed s' = solo_wanted s \<and>
    fold effect msgs (if is_open then solo_believed s else {}) = solo_wanted s \<and> \<not> trig"
  using solo_client.process_synchronises [OF _ assms(1,4,5,6) refl] assms(2,3) by blast

text \<open>A formatter whose messages are the topics themselves, tagged.\<close>

definition sample_formatter :: "(string + string, unit) solo_formatter" where
  "sample_formatter = \<lparr>sf_SubMessage = (\<lambda>t. Some (Inl t)), sf_UnsubMessage = (\<lambda>t. Some (Inr t)),
     sf_ConfirmSub = (\<lambda>_ _. True), sf_ConfirmUnsub = (\<lambda>_ _. True)\<rparr>"

definition sample_effect :: "string + string \<Rightarrow> string set \<Rightarrow> string set" where
  "sample_effect m r = (case m of Inl t \<Rightarrow> insert t r | Inr t \<Rightarrow> r - {t})"

lemma sample_formatter_ok: "solo_formatter_ok sample_formatter sample_effect (\<lambda>_. True)"
  by (simp add: solo_formatter_ok_def sample_formatter_def sample_effect_def)

lemma sample_solo_mode: "solo_mode False sample_solo"
  using sample_solo_facts(1) by (simp add: solo_mode_def sample_solo_def solo_subscribe_def new_solo_sub_keeper_def Let_def)

definition sample_client :: client where
  "sample_client = \<lparr>rc_opts = default_options \<lparr>co_RecoveryFunc = None, co_BaseContext = None, co_CheckAfter = 0\<rparr>,
     rc_attempts = 1, rc_writes = 0, rc_reconnFns = []\<rparr>"

theorem client_resubscribes_witness:
  "\<exists>c' s' msgs fns. process (solo_ops gm_keys sample_formatter) (\<lambda>_ _. Inr ()) (\<lambda>_ k. k) (\<lambda>_. False) False False None
     sample_client sample_solo = (c', s', msgs, fns, False) \<and> fold sample_effect msgs {} = {''btc''}"
proof -
  obtain c' s' msgs fns trig where p: "process (solo_ops gm_keys sample_formatter) (\<lambda>_ _. Inr ()) (\<lambda>_ k. k) (\<lambda>_. False)
     False False None sample_client sample_solo = (c', s', msgs, fns, trig)" by (metis prod_cases5)
  show ?thesis
    using client_resubscribes [OF sample_solo_mode sample_formatter_ok orders_ok_keys _ _ p] p sample_solo_facts(2)
    by (simp add: solo_abs_def)
qed



end
