(* ===== verification/Ws_End_To_End.thy ===== *)
theory Ws_End_To_End
  imports Ws_Server Ws_Reconn
begin

text \<open>
  The reconnecting client against the server of the same library: what \<open>process\<close> sends over a new
  connection is read by the reader of that connection, and the server ends up with exactly the
  subscriptions the application wants. The message encoding between the two (JSON) is third-party code:
  a message is its topic string with its descriptor, and the request gets some id.
\<close>

section \<open>The protocol\<close>

datatype wire = WireSub string | WireUnsub string

fun raw_topic :: "wire \<Rightarrow> string" where
  "raw_topic (WireSub t) = descriptor_sub @ ''~'' @ t"
| "raw_topic (WireUnsub t) = descriptor_unsub @ ''~'' @ t"

text \<open>A formatter that speaks the server's protocol, and confirms by the success of the response.\<close>

definition wire_formatter :: "(wire, response) solo_formatter" where
  "wire_formatter =
     \<lparr>sf_SubMessage = (\<lambda>t. Some (WireSub t)), sf_UnsubMessage = (\<lambda>t. Some (WireUnsub t)),
      sf_ConfirmSub = (\<lambda>t d. resp_Success d), sf_ConfirmUnsub = (\<lambda>t d. resp_Success d)\<rparr>"

fun wire_effect :: "wire \<Rightarrow> string set \<Rightarrow> string set" where
  "wire_effect (WireSub t) r = insert t r"
| "wire_effect (WireUnsub t) r = r - {t}"

lemma wire_formatter_ok: "solo_formatter_ok wire_formatter wire_effect resp_Success"
  by (simp add: solo_formatter_ok_def wire_formatter_def)

lemma wire_effect_delivered:
  assumes "\<forall>r. wire_effect m r = delivered X W r"
  shows "(\<exists>t \<in> W. X = {t} \<and> m = WireSub t) \<or> (\<exists>t. t \<in> X \<and> t \<notin> W \<and> m = WireUnsub t)"
proof (cases m)
  case (WireSub t)
  then have "insert t r = (r - X) \<union> (X \<inter> W)" for r using assms by (simp add: delivered_def)
  from this [of "{}"] this [of UNIV] show ?thesis using WireSub by auto
next
  case (WireUnsub t)
  then have "r - {t} = (r - X) \<union> (X \<inter> W)" for r using assms by (simp add: delivered_def)
  from this [of "{}"] this [of UNIV] show ?thesis using WireUnsub by auto
qed

section \<open>What the server makes of a topic\<close>

text \<open>The entries that a request for a topic may add; \<open>served\<close>: the request is valid, and a pattern matches.\<close>

definition routes :: "'r server \<Rightarrow> string \<Rightarrow> (string \<times> (string \<Rightarrow> string option)) set" where
  "routes sv t = {(k, gm_get ps) | k v ps tpc. parse_topic (raw_topic (WireSub t)) = Ret tpc \<and>
     gm_get (r_topics (s_router sv)) k = Some v \<and> match_topic (t_pattern v) tpc = Some ps}"

definition served :: "'r server \<Rightarrow> string \<Rightarrow> bool" where
  "served sv t \<longleftrightarrow> (\<exists>tpc. parse_topic (raw_topic (WireSub t)) = Ret tpc \<and> Descriptor tpc = descriptor_sub \<and> bound sv tpc)"

definition patterns :: "'r server \<Rightarrow> string \<Rightarrow> pattern option" where
  "patterns sv k = map_option t_pattern (gm_get (r_topics (s_router sv)) k)"

lemma by_patterns:
  "routes sv t = {(k, gm_get ps) | k p ps tpc. parse_topic (raw_topic (WireSub t)) = Ret tpc \<and>
     patterns sv k = Some p \<and> match_topic p tpc = Some ps}"
  "bound sv tpc \<longleftrightarrow> (\<exists>k p. patterns sv k = Some p \<and> match_topic p tpc \<noteq> None)"
  "unambiguous (r_topics (s_router sv)) \<longleftrightarrow>
     (\<forall>k p k' p'. patterns sv k = Some p \<and> patterns sv k' = Some p' \<and> k \<noteq> k' \<longrightarrow> \<not> overlap p p')"
  by (auto simp: routes_def bound_def patterns_def unambiguous_def) (metis option.map(2))+

lemma same_patterns:
  assumes "patterns sv' = patterns sv"
  shows "routes sv' t = routes sv t" "served sv' t = served sv t"
    "unambiguous (r_topics (s_router sv')) = unambiguous (r_topics (s_router sv))"
  using assms by (simp_all add: by_patterns served_def)

section \<open>One subscription\<close>

lemma read_round_served:
  assumes "server_inv sv" and "topic_order sv ord" and "unambiguous (r_topics (s_router sv))" and "served sv t"
    and "read_round cs ord c (Request ID (raw_topic (WireSub t))) sv = (fl, sv', calls, resp, lg)"
  shows "fl = Continue \<and> resp = Some \<lparr>resp_ID = ID, resp_Success = True\<rparr> \<and> server_inv sv' \<and> topic_order sv' ord \<and>
    patterns sv' = patterns sv \<and> only_subs_of c sv sv' \<and> subs_of c sv' = subs_of c sv \<union> routes sv t"
proof -
  obtain tpc where tpc: "parse_topic (raw_topic (WireSub t)) = Ret tpc" "Descriptor tpc = descriptor_sub" "bound sv tpc"
    using assms(4) by (auto simp: served_def)
  have ro: "range_order (r_topics (s_router sv)) ord" using assms(2) by (simp add: topic_order_def)
  obtain k v ps where f: "find_topic (r_topics (s_router sv)) tpc ord = Some (k, v, ps)"
    using find_topic_bound [OF assms(2), of tpc] tpc(3) by (metis option.exhaust prod_cases3)
  obtain err r' cl where a: "add_topic_sub ord (s_router sv) tpc c = (err, r', cl)" by (metis prod_cases3)
  have inv: "router_inv (s_router sv)" using assms(1) by (simp add: server_inv_def)
  note ac = add_topic_sub_correct [OF inv f a]
  have run: "fl = Continue" "resp = Some \<lparr>resp_ID = ID, resp_Success = True\<rparr>" "sv' = sv\<lparr>s_router := r'\<rparr>"
    using assms(5) tpc(1,2) a ac by (simp_all add: read_round_def Let_def del: raw_topic.simps)
  have only: "only_subs_of c sv sv'" "server_inv sv'" using add_step [OF assms(1) a] run(3) by simp_all
  have "t_pattern (fst (add_sub v c ps)) = t_pattern v"
    by (simp add: add_sub_def Let_def)
  then have pat: "patterns sv' = patterns sv"
    using ac find_topic_Some [OF f] by (auto simp: patterns_def run(3) fun_eq_iff)
  have one: "routes sv t = {(k, gm_get ps)}"
    unfolding routes_def tpc(1) find_topic_unambiguous [OF assms(3) ro, symmetric]
    by (auto simp: f)
  have "subs_of c sv' = subs_of c sv \<union> routes sv t"
    using ac one by (auto simp: subs_of_def server_subs_def run(3))
  then show ?thesis using run only pat topic_order_only [OF only(1) assms(2)] by blast
qed

text \<open>Any number of them, as the reader gets them.\<close>

lemma start_reader_served:
  assumes "server_inv sv" and "unambiguous (r_topics (s_router sv))" and "\<forall>t \<in> set ts. served sv t"
    and "\<forall>ord \<in> set ords. topic_order sv ord" and "length ords = length ts" and "length ids = length ts"
    and "fs = zip ords (map (\<lambda>(ID, t). Request ID (raw_topic (WireSub t))) (zip ids ts))"
  shows "\<exists>sv' calls. start_reader cs cord c fs sv =
      \<lparr>rd_server = sv', rd_calls = calls, rd_responses = map (\<lambda>ID. \<lparr>resp_ID = ID, resp_Success = True\<rparr>) ids,
       rd_logs = [], rd_ended = None\<rparr> \<and>
    server_inv sv' \<and> only_subs_of c sv sv' \<and> subs_of c sv' = subs_of c sv \<union> (\<Union>t \<in> set ts. routes sv t)"
  using assms
proof (induction ts arbitrary: sv ords ids fs)
  case Nil
  then show ?case by (simp add: only_subs_refl)
next
  case (Cons t ts)
  obtain ord ords' ID ids' where l: "ords = ord # ords'" "ids = ID # ids'" "length ords' = length ts" "length ids' = length ts"
    using Cons.prems(5,6) by (auto simp: length_Suc_conv)
  let ?fs = "zip ords' (map (\<lambda>(ID, t). Request ID (raw_topic (WireSub t))) (zip ids' ts))"
  have fs: "fs = (ord, Request ID (raw_topic (WireSub t))) # ?fs" using Cons.prems(7) l by simp
  obtain fl sv1 calls1 resp lg where r: "read_round cs ord c (Request ID (raw_topic (WireSub t))) sv = (fl, sv1, calls1, resp, lg)"
    by (metis prod_cases5)
  have o: "topic_order sv ord" "\<forall>ord \<in> set ords'. topic_order sv ord" using Cons.prems(4) l by simp_all
  have sv: "served sv t" using Cons.prems(3) by simp
  note one = read_round_served [OF Cons.prems(1) o(1) Cons.prems(2) sv r]
  then have p: "patterns sv1 = patterns sv" and only: "only_subs_of c sv sv1" by simp_all
  note same = same_patterns [OF p]
  have lg: "lg = None" using r one sv by (auto simp: read_round_def served_def Let_def simp del: raw_topic.simps split: outcome.splits if_splits prod.splits)
  obtain sv' calls where ih: "start_reader cs cord c ?fs sv1 =
      \<lparr>rd_server = sv', rd_calls = calls, rd_responses = map (\<lambda>ID. \<lparr>resp_ID = ID, resp_Success = True\<rparr>) ids',
       rd_logs = [], rd_ended = None\<rparr>"
    "server_inv sv'" "only_subs_of c sv1 sv'" "subs_of c sv' = subs_of c sv1 \<union> (\<Union>t \<in> set ts. routes sv1 t)"
    using Cons.IH [of sv1 ords' ids' ?fs] one Cons.prems(2,3) same topic_order_only [OF only] o(2) l(3,4) by auto
  have "start_reader cs cord c fs sv =
      \<lparr>rd_server = sv', rd_calls = calls1 @ calls, rd_responses = map (\<lambda>ID. \<lparr>resp_ID = ID, resp_Success = True\<rparr>) ids,
       rd_logs = [], rd_ended = None\<rparr>"
    unfolding fs using r one ih(1) lg by (simp add: l(2) del: raw_topic.simps)
  moreover have "subs_of c sv' = subs_of c sv \<union> (\<Union>t \<in> set (t # ts). routes sv t)"
    using ih(4) one same(1) by auto
  ultimately show ?case using ih(2) only_subs_trans [OF only ih(3)] by blast
qed

section \<open>From the wish to the subscription\<close>

lemma wire_messages:
  assumes "solo_mode False s" and "orders_ok ordf" and "\<forall>i m. \<exists>d. net i m = Inr d \<and> resp_Success d" and "\<forall>i. \<not> intr i"
    and "process (solo_ops ordf wire_formatter) net (\<lambda>_ k. k) intr False False None cl s = (cl', s', msgs, fns, trig)"
  shows "\<exists>ts. msgs = map WireSub ts \<and> set ts = solo_wanted s \<and> solo_believed s' = solo_wanted s \<and> solo_wanted s' = solo_wanted s"
proof -
  have ok: "solo_formatter_ok wire_formatter wire_effect resp_Success \<and> orders_ok ordf" using wire_formatter_ok assms(2) by blast
  note sync = solo_client.process_synchronises [OF ok assms(1,3,4,5) refl]
  have sub: "\<exists>t \<in> solo_wanted s. m = WireSub t" if m: "m \<in> set msgs" for m
  proof -
    obtain X where X: "X \<subseteq> solo_wanted s" "\<forall>r. wire_effect m r = delivered X (solo_wanted s) r"
      using solo_client.process_messages [OF ok assms(1,3,4,5) refl m] by auto
    show ?thesis using wire_effect_delivered [OF X(2)] X(1) by auto
  qed
  then obtain ts where ts: "msgs = map WireSub ts" using ex_map_conv [of msgs WireSub] by auto
  have "fold wire_effect (map WireSub us) r = r \<union> set us" for us r by (induction us arbitrary: r) auto
  then have "set ts = solo_wanted s" using sync ts by simp
  then show ?thesis using ts sync by blast
qed

text \<open>
  C14. The client and the server of the library understand each other. The reconnecting client runs
  \<open>process\<close> over a connection that it has just opened, with a keeper that confirms by responses; the
  reader of that connection on a server with patterns that do not overlap gets the messages, in order
  and with any ids. If every wanted topic is served, then every request is answered with success, as the
  client expects, the reader goes on, the server holds for this connection exactly the entries of the
  wanted topics (and is unchanged for all others), and the keeper believes just that.
\<close>

theorem wishes_reach_server:
  assumes "solo_mode False s" and "orders_ok ordf" and "\<forall>i. \<not> intr i"
    and "server_inv sv" and "unambiguous (r_topics (s_router sv))" and "\<forall>t \<in> solo_wanted s. served sv t" and "subs_of c sv = {}"
    and "process (solo_ops ordf wire_formatter) (\<lambda>i m. Inr \<lparr>resp_ID = req i, resp_Success = True\<rparr>) (\<lambda>_ k. k) intr False False None cl s =
      (cl', s', msgs, fns, trig)"
    and "length ords = length msgs" and "\<forall>ord \<in> set ords. topic_order sv ord"
    and "rd = start_reader cs cord c (zip ords (map (\<lambda>(i, m). Request (req i) (raw_topic m)) (zip [0..<length msgs] msgs))) sv"
  shows "rd_ended rd = None \<and> rd_responses rd = map (\<lambda>i. \<lparr>resp_ID = req i, resp_Success = True\<rparr>) [0..<length msgs] \<and>
    subs_of c (rd_server rd) = (\<Union>t \<in> solo_wanted s. routes sv t) \<and> only_subs_of c sv (rd_server rd) \<and>
    solo_believed s' = solo_wanted s"
proof -
  obtain ts where ts: "msgs = map WireSub ts" "set ts = solo_wanted s" "solo_believed s' = solo_wanted s"
    using wire_messages [OF assms(1,2) _ assms(3,8)] by auto
  let ?ids = "map req [0..<length ts]"
  have "map (\<lambda>(i, m). Request (req i) (raw_topic m)) (zip [0..<length msgs] msgs) =
      map (\<lambda>(ID, t). Request ID (raw_topic (WireSub t))) (zip ?ids ts)"
    by (simp add: ts(1) zip_map1 zip_map2 split_beta comp_def del: raw_topic.simps)
  then have rd: "rd = start_reader cs cord c (zip ords (map (\<lambda>(ID, t). Request ID (raw_topic (WireSub t))) (zip ?ids ts))) sv"
    using assms(11) by simp
  obtain sv' calls where r: "rd = \<lparr>rd_server = sv', rd_calls = calls, rd_responses = map (\<lambda>ID. \<lparr>resp_ID = ID, resp_Success = True\<rparr>) ?ids,
       rd_logs = [], rd_ended = None\<rparr>" "only_subs_of c sv sv'" "subs_of c sv' = subs_of c sv \<union> (\<Union>t \<in> set ts. routes sv t)"
    using start_reader_served [OF assms(4,5) _ assms(10) _ _ refl, of ts ?ids cs cord c] assms(6,9) ts(1,2) rd by auto
  show ?thesis using r ts(2,3) assms(7) by (simp add: ts(1) comp_def)
qed


definition sample_wish :: string where
  "sample_wish = ''update@btc.tick''"

definition wishing_keeper :: solo_keeper where
  "wishing_keeper = fst (solo_subscribe sample_wish (new_solo_sub_keeper
     \<lparr>mx_subs = 0, mx_sub_confirmations = 0, mx_unsub_confirmations = 0\<rparr> 0 False))"

lemma wishing_keeper_facts: "solo_mode False wishing_keeper" "solo_wanted wishing_keeper = {sample_wish}"
  using solo_subscribe_correct [OF solo_new(1) surjective_pairing, of sample_wish]
  by (simp_all add: wishing_keeper_def solo_abs_def solo_new solo_mode_def)
    (simp add: solo_subscribe_def new_solo_sub_keeper_def Let_def)

lemma sample_server_serves:
  "unambiguous (r_topics (s_router sample_server))" "served sample_server sample_wish" "subs_of c sample_server = {}"
  "(sample_pattern, gm_get (sample_params ''btc'')) \<in> routes sample_server sample_wish"
proof -
  have p: "parse_topic (raw_topic (WireSub sample_wish)) = Ret (sample_request descriptor_sub)"
    unfolding sample_wish_def sample_request_def by code_simp
  have f: "find_topic (r_topics (s_router sample_server)) (sample_request descriptor_sub) [sample_pattern] =
      Some (sample_pattern, sample_topic, sample_params ''btc'')"
    using sample_router_facts(4) [of descriptor_sub] sample_server_facts(1) by simp
  show "unambiguous (r_topics (s_router sample_server))"
    by (simp add: unambiguous_def sample_server_facts(1) sample_router_def gm_get_def)
  show "served sample_server sample_wish"
    unfolding served_def using p f find_topic_bound [OF sample_server_facts(4), of "sample_request descriptor_sub"]
    by (simp add: sample_request_def del: raw_topic.simps)
  show "subs_of c sample_server = {}" by (simp add: subs_of_def sample_server_facts(5))
  show "(sample_pattern, gm_get (sample_params ''btc'')) \<in> routes sample_server sample_wish"
    unfolding routes_def using p find_topic_Some [OF f] by auto
qed

theorem wishes_reach_server_witness:
  "\<exists>cl' s' msgs fns trig rd. process (solo_ops gm_keys wire_formatter) (\<lambda>i m. Inr \<lparr>resp_ID = of_nat (Suc i), resp_Success = True\<rparr>)
       (\<lambda>_ k. k) (\<lambda>_. False) False False None sample_client wishing_keeper = (cl', s', msgs, fns, trig) \<and>
     rd = start_reader sample_cs [sample_pattern] (sample_conn 1 ''a'')
       (zip (replicate (length msgs) [sample_pattern])
         (map (\<lambda>(i, m). Request (of_nat (Suc i)) (raw_topic m)) (zip [0..<length msgs] msgs))) sample_server \<and>
     (sample_pattern, gm_get (sample_params ''btc'')) \<in> subs_of (sample_conn 1 ''a'') (rd_server rd)"
proof -
  obtain cl' s' msgs fns trig where p: "process (solo_ops gm_keys wire_formatter)
      (\<lambda>i m. Inr \<lparr>resp_ID = of_nat (Suc i), resp_Success = True\<rparr>)
       (\<lambda>_ k. k) (\<lambda>_. False) False False None sample_client wishing_keeper = (cl', s', msgs, fns, trig)" by (metis prod_cases5)
  have w: "\<forall>t \<in> solo_wanted wishing_keeper. served sample_server t"
    using wishing_keeper_facts(2) sample_server_serves(2) by simp
  have ords: "\<forall>ord \<in> set (replicate (length msgs) [sample_pattern]). topic_order sample_server ord"
    using sample_server_facts(4) by simp
  have "subs_of (sample_conn 1 ''a'') (rd_server (start_reader sample_cs [sample_pattern] (sample_conn 1 ''a'')
       (zip (replicate (length msgs) [sample_pattern])
         (map (\<lambda>(i, m). Request (of_nat (Suc i)) (raw_topic m)) (zip [0..<length msgs] msgs))) sample_server)) =
      (\<Union>t \<in> solo_wanted wishing_keeper. routes sample_server t)"
    using wishes_reach_server [OF wishing_keeper_facts(1) orders_ok_keys _ sample_server_facts(3) sample_server_serves(1) w
        sample_server_serves(3) p _ ords refl, of sample_cs "[sample_pattern]"] by simp
  then show ?thesis using p sample_server_serves(4) wishing_keeper_facts(2) by auto
qed


end
