(* ===== verification/Ws_Client.thy ===== *)
theory Ws_Client
  imports Go_Prelude Ws_Errors "HOL-Library.Word"
begin

text \<open>
  The client's state and its critical sections (\<^verbatim>\<open>wsclient/client.go\<close>): \<^verbatim>\<open>New\<close>, \<^verbatim>\<open>Open\<close>, \<^verbatim>\<open>reset\<close>,
  \<^verbatim>\<open>OnRead\<close>, the allocation of request numbers in \<^verbatim>\<open>Send\<close>, and the dispatch of received data. A
  connection and the context made for it share a number; callers of \<^verbatim>\<open>Send\<close> and read functions are
  known by numbers. JSON is the type \<open>'j\<close>: reading an \<^verbatim>\<open>id\<close> out of it (gjson) and setting it (sjson)
  are third-party functions, parameters here. The goroutines are in \<open>Ws_Client_Run\<close>.
\<close>

section \<open>Options, state and construction\<close>

record ws_options =
  wo_URL :: string
  wo_URLFunc :: bool
  wo_ReadLimit :: int
  wo_PingInterval :: int
  wo_Cron :: bool
  wo_RecoveryFunc :: "nat option"
  wo_SerialReads :: bool

record 'j ws_client =
  wc_opts :: ws_options
  wc_stop :: "nat option"
  wc_conn :: "nat option"
  wc_readFns :: "nat list"
  wc_readCh :: "'j list option"
  wc_serialOnce :: bool
  wc_nextID :: "64 word"
  wc_respFns :: "(64 word, nat) gomap"

definition default_read_limit :: int where
  "default_read_limit = 32768"

definition default_req_id :: "64 word" where
  "default_req_id = 1"

definition default_ping_interval :: int where
  "default_ping_interval = 30 * 1000000000"

definition serial_reads_buffer :: nat where
  "serial_reads_buffer = 512"

text \<open>Function 0 is the empty recovery function. A nil channel is \<open>None\<close>, a buffered one its contents.\<close>

definition new_ws_client :: "ws_options \<Rightarrow> 'j ws_client" where
  "new_ws_client opts =
     (let opts = (if wo_ReadLimit opts = 0 then opts\<lparr>wo_ReadLimit := default_read_limit\<rparr> else opts);
          opts = (if wo_RecoveryFunc opts = None then opts\<lparr>wo_RecoveryFunc := Some 0\<rparr> else opts);
          c = \<lparr>wc_opts = opts, wc_stop = None, wc_conn = None, wc_readFns = [], wc_readCh = None,
               wc_serialOnce = False, wc_nextID = default_req_id, wc_respFns = []\<rparr>
      in if wo_SerialReads opts then c\<lparr>wc_readCh := Some []\<rparr> else c)"

definition ping_interval :: "ws_options \<Rightarrow> int" where
  "ping_interval opts = (if wo_PingInterval opts = 0 then default_ping_interval else wo_PingInterval opts)"

definition ws_is_open :: "'j ws_client \<Rightarrow> bool" where
  "ws_is_open c \<longleftrightarrow> wc_conn c \<noteq> None"

section \<open>Opening and resetting\<close>

text \<open>What the operations do outside of the client's own fields, in order.\<close>

datatype ws_event =
    SetReadLimit nat int | GoSerial | GoReader nat | GoWriter nat | GoPinger nat
  | CronStart | CronStop | IncWsOpenConnections | DecWsOpenConnections
  | CloseConn nat | CancelCtx nat | NilStop

text \<open>
  \<open>url_res\<close> is the result of \<^verbatim>\<open>URLFunc\<close>, used only if the option is set; \<open>dial url\<close> that of
  \<^verbatim>\<open>websocket.Dial\<close>, a fresh connection on success.
\<close>

definition ws_open ::
  "go_error + string \<Rightarrow> (string \<Rightarrow> go_error + nat) \<Rightarrow> 'j ws_client \<Rightarrow> go_error option \<times> 'j ws_client \<times> ws_event list" where
  "ws_open url_res dial c =
     (if ws_is_open c then (Some (Plain ErrConnOpen), c, [])
      else
        case (if wo_URLFunc (wc_opts c) then url_res else Inr (wo_URL (wc_opts c))) of
          Inl err \<Rightarrow> (Some err, c, [])
        | Inr url \<Rightarrow>
            (case dial url of
               Inl err \<Rightarrow> (Some err, c, [])
             | Inr k \<Rightarrow>
                 let c = c\<lparr>wc_conn := Some k, wc_stop := Some k\<rparr>;
                     (c, serial) = (if wc_readCh c \<noteq> None \<and> \<not> wc_serialOnce c
                                    then (c\<lparr>wc_serialOnce := True\<rparr>, [GoSerial]) else (c, []))
                 in (None, c,
                     [SetReadLimit k (wo_ReadLimit (wc_opts c))] @ serial @ [GoReader k, GoWriter k, GoPinger k] @
                     (if wo_Cron (wc_opts c) then [CronStart] else []) @ [IncWsOpenConnections])))"

text \<open>
  \<^verbatim>\<open>reset\<close>, the deferred call of every goroutine of a connection and the first half of \<^verbatim>\<open>Close\<close>. \<open>NilStop\<close>
  marks the panic of calling a nil cancel function.
\<close>

definition ws_reset :: "'j ws_client \<Rightarrow> 'j ws_client \<times> ws_event list" where
  "ws_reset c =
     (case wc_conn c of
        None \<Rightarrow> (c, [])
      | Some k \<Rightarrow>
          (case wc_stop c of
             None \<Rightarrow> (c, [CloseConn k, NilStop])
           | Some j \<Rightarrow>
               (c\<lparr>wc_conn := None, wc_stop := None, wc_nextID := default_req_id, wc_respFns := []\<rparr>,
                [CloseConn k, CancelCtx j] @ (if wo_Cron (wc_opts c) then [CronStop] else []) @
                [DecWsOpenConnections])))"

definition ws_on_read :: "nat \<Rightarrow> 'j ws_client \<Rightarrow> 'j ws_client" where
  "ws_on_read fn c = c\<lparr>wc_readFns := wc_readFns c @ [fn]\<rparr>"

section \<open>Requests and dispatch\<close>

text \<open>The critical sections of \<^verbatim>\<open>Send\<close>: a request takes the next number; its deferred call removes it.\<close>

definition ws_register :: "nat \<Rightarrow> 'j ws_client \<Rightarrow> 64 word \<times> 'j ws_client" where
  "ws_register caller c =
     (let i = wc_nextID c
      in (i, c\<lparr>wc_respFns := gm_set (wc_respFns c) i caller, wc_nextID := i + 1\<rparr>))"

definition ws_unregister :: "64 word \<Rightarrow> 'j ws_client \<Rightarrow> 'j ws_client" where
  "ws_unregister i c = c\<lparr>wc_respFns := gm_del (wc_respFns c) i\<rparr>"

text \<open>Where received data goes: to the caller of a request, into the channel, or to every read function.\<close>

datatype routing = ToCaller nat | ToChannel | ToFns "nat list"

definition ws_route :: "('j \<Rightarrow> 64 word) \<Rightarrow> 'j ws_client \<Rightarrow> 'j \<Rightarrow> routing" where
  "ws_route id_of c data =
     (let i = id_of data;
          respFn = (if i \<ge> default_req_id then gm_get (wc_respFns c) i else None)
      in (case respFn of
            Some caller \<Rightarrow> ToCaller caller
          | None \<Rightarrow> if wc_readCh c \<noteq> None then ToChannel else ToFns (wc_readFns c)))"

text \<open>
  One event of the serial processor: the read functions in order, until one panics (\<open>panics\<close>).
\<close>

fun run_read_fns :: "(nat \<Rightarrow> 'j \<Rightarrow> bool) \<Rightarrow> nat list \<Rightarrow> 'j \<Rightarrow> (nat \<times> 'j) list" where
  "run_read_fns panics [] data = []"
| "run_read_fns panics (fn # fns) data =
     (fn, data) # (if panics fn data then [] else run_read_fns panics fns data)"

section \<open>Opening alternates with closing\<close>

datatype 'j ws_op =
    WOpen "go_error + string" "string \<Rightarrow> go_error + nat" | WReset | WOnRead nat | WRegister nat | WUnregister "64 word"
  | WSetCh "'j list option"

fun ws_step :: "'j ws_client \<Rightarrow> 'j ws_op \<Rightarrow> 'j ws_client \<times> ws_event list" where
  "ws_step c (WOpen url_res dial) = snd (ws_open url_res dial c)"
| "ws_step c WReset = ws_reset c"
| "ws_step c (WOnRead fn) = (ws_on_read fn c, [])"
| "ws_step c (WRegister caller) = (snd (ws_register caller c), [])"
| "ws_step c (WUnregister i) = (ws_unregister i c, [])"
| "ws_step c (WSetCh ch) = (c\<lparr>wc_readCh := ch\<rparr>, [])"

text \<open>The cancel function is that of the connection, and requests are registered under numbers in use only.\<close>

definition ws_inv :: "'j ws_client \<Rightarrow> bool" where
  "ws_inv c \<longleftrightarrow> wc_stop c = wc_conn c \<and> gm_wf (wc_respFns c)"

lemma ws_open_cases:
  obtains (fails) err where "ws_open url_res dial c = (Some err, c, [])"
  | (opens) k serial where "\<not> ws_is_open c"
    "ws_open url_res dial c = (None, c\<lparr>wc_conn := Some k, wc_stop := Some k,
       wc_serialOnce := wc_serialOnce c \<or> wc_readCh c \<noteq> None\<rparr>,
       [SetReadLimit k (wo_ReadLimit (wc_opts c))] @ serial @ [GoReader k, GoWriter k, GoPinger k] @
       (if wo_Cron (wc_opts c) then [CronStart] else []) @ [IncWsOpenConnections])"
    "serial = (if wc_readCh c \<noteq> None \<and> \<not> wc_serialOnce c then [GoSerial] else [])"
    "\<exists>url. dial url = Inr k \<and> (if wo_URLFunc (wc_opts c) then url_res = Inr url else url = wo_URL (wc_opts c))"
proof (cases "ws_is_open c")
  case True
  then show ?thesis using fails by (simp add: ws_open_def)
next
  case closed: False
  let ?u = "if wo_URLFunc (wc_opts c) then url_res else Inr (wo_URL (wc_opts c))"
  show ?thesis
  proof (cases ?u)
    case (Inl err)
    with closed show ?thesis using fails by (simp add: ws_open_def)
  next
    case u: (Inr url)
    show ?thesis
    proof (cases "dial url")
      case (Inl err)
      with closed u show ?thesis using fails by (simp add: ws_open_def)
    next
      case (Inr k)
      have "\<exists>url. dial url = Inr k \<and> (if wo_URLFunc (wc_opts c) then url_res = Inr url else url = wo_URL (wc_opts c))"
        using u Inr by (auto split: if_splits)
      with closed u Inr show ?thesis
        by (intro opens [of k "if wc_readCh c \<noteq> None \<and> \<not> wc_serialOnce c then [GoSerial] else []"])
          (auto simp: ws_open_def Let_def)
    qed
  qed
qed

lemma ws_reset_inv:
  "ws_inv c \<Longrightarrow> ws_reset c =
     (case wc_conn c of None \<Rightarrow> (c, [])
      | Some k \<Rightarrow>
          (c\<lparr>wc_conn := None, wc_stop := None, wc_nextID := default_req_id, wc_respFns := []\<rparr>,
           [CloseConn k, CancelCtx k] @ (if wo_Cron (wc_opts c) then [CronStop] else []) @ [DecWsOpenConnections]))"
  by (auto simp: ws_reset_def ws_inv_def split: option.split)

lemma ws_step_inv:
  assumes "ws_inv c"
  shows "ws_inv (fst (ws_step c x))" "wc_opts (fst (ws_step c x)) = wc_opts c"
proof -
  have "ws_inv (fst (ws_step c x)) \<and> wc_opts (fst (ws_step c x)) = wc_opts c"
  proof (cases x)
    case (WOpen url_res dial)
    show ?thesis
      by (rule ws_open_cases [of url_res dial c]) (use assms in \<open>simp_all add: WOpen ws_inv_def\<close>)
  next
    case WReset
    then show ?thesis using assms by (auto simp: ws_reset_inv [OF assms] ws_inv_def split: option.split)
  qed (use assms in \<open>auto simp: ws_inv_def ws_on_read_def ws_register_def ws_unregister_def Let_def\<close>)
  then show "ws_inv (fst (ws_step c x))" "wc_opts (fst (ws_step c x)) = wc_opts c" by blast+
qed

text \<open>The two resources that follow the connection: the gauge of open connections, and the cron instance.\<close>

lemma ws_step_toggles:
  assumes "ws_inv c"
  shows "toggles (\<lambda>e. e = IncWsOpenConnections) (\<lambda>e. e = DecWsOpenConnections) (ws_is_open c) (snd (ws_step c x)) =
      Some (ws_is_open (fst (ws_step c x)))"
    "wo_Cron (wc_opts c) \<Longrightarrow> toggles (\<lambda>e. e = CronStart) (\<lambda>e. e = CronStop) (ws_is_open c) (snd (ws_step c x)) =
      Some (ws_is_open (fst (ws_step c x)))"
proof -
  have "toggles (\<lambda>e. e = IncWsOpenConnections) (\<lambda>e. e = DecWsOpenConnections) (ws_is_open c) (snd (ws_step c x)) =
      Some (ws_is_open (fst (ws_step c x))) \<and>
    (wo_Cron (wc_opts c) \<longrightarrow> toggles (\<lambda>e. e = CronStart) (\<lambda>e. e = CronStop) (ws_is_open c) (snd (ws_step c x)) =
      Some (ws_is_open (fst (ws_step c x))))"
  proof (cases x)
    case (WOpen url_res dial)
    show ?thesis
      by (rule ws_open_cases [of url_res dial c]) (simp_all add: WOpen ws_is_open_def toggles_append)
  next
    case WReset
    then show ?thesis by (simp add: ws_reset_inv [OF assms] ws_is_open_def split: option.split)
  qed (simp_all add: ws_is_open_def ws_on_read_def ws_register_def ws_unregister_def Let_def)
  then show "toggles (\<lambda>e. e = IncWsOpenConnections) (\<lambda>e. e = DecWsOpenConnections) (ws_is_open c) (snd (ws_step c x)) =
      Some (ws_is_open (fst (ws_step c x)))"
    "wo_Cron (wc_opts c) \<Longrightarrow> toggles (\<lambda>e. e = CronStart) (\<lambda>e. e = CronStop) (ws_is_open c) (snd (ws_step c x)) =
      Some (ws_is_open (fst (ws_step c x)))" by blast+
qed

interpretation open_gauge: lifecycle ws_step "\<lambda>_ _. True" ws_inv ws_is_open
  "\<lambda>e. e = IncWsOpenConnections" "\<lambda>e. e = DecWsOpenConnections"
  by unfold_locales (simp_all add: ws_step_inv ws_step_toggles)

interpretation cron_runs: lifecycle ws_step "\<lambda>_ _. True" "\<lambda>c. ws_inv c \<and> wo_Cron (wc_opts c)" ws_is_open
  "\<lambda>e. e = CronStart" "\<lambda>e. e = CronStop"
  by unfold_locales (simp_all add: ws_step_inv ws_step_toggles)


text \<open>
  C24. Over any sequence of calls of the client's operations on a new client, in any order, the gauge of
  open connections goes up and down in turns, starting with up, and it is up exactly while a connection
  is open; the cron instance, if there is one, is started and stopped in the same way. Calling the
  cancel function of a missing connection never happens.
\<close>

theorem open_gauge_alternates:
  "let (c, es) = run_ops ws_step (new_ws_client opts) xs
   in toggles (\<lambda>e. e = IncWsOpenConnections) (\<lambda>e. e = DecWsOpenConnections) False es = Some (ws_is_open c) \<and>
      length (filter (\<lambda>e. e = IncWsOpenConnections) es) =
        length (filter (\<lambda>e. e = DecWsOpenConnections) es) + (if ws_is_open c then 1 else 0) \<and>
      (wo_Cron opts \<longrightarrow> toggles (\<lambda>e. e = CronStart) (\<lambda>e. e = CronStop) False es = Some (ws_is_open c)) \<and>
      NilStop \<notin> set es"
proof -
  let ?c = "new_ws_client opts"
  have new: "ws_inv ?c" "ws_is_open ?c = False" "wo_Cron (wc_opts ?c) = wo_Cron opts"
    by (simp_all add: new_ws_client_def ws_inv_def ws_is_open_def Let_def)
  have ok: "run_ok ws_step (\<lambda>_ _. True) c xs" for c by (induction xs arbitrary: c) simp_all
  obtain c es where r: "run_ops ws_step ?c xs = (c, es)" by force
  have "NilStop \<notin> set (snd (run_ops ws_step c xs))" if "ws_inv c" for c
    using that
  proof (induction xs arbitrary: c)
    case (Cons x xs)
    have "NilStop \<notin> set (snd (ws_step c x))"
    proof (cases x)
      case (WOpen url_res dial)
      show ?thesis by (rule ws_open_cases [of url_res dial c]) (simp_all add: WOpen)
    next
      case WReset
      then show ?thesis by (simp add: ws_reset_inv [OF Cons.prems] split: option.split)
    qed simp_all
    with Cons show ?case using ws_step_inv(1) [OF Cons.prems, of x] by (simp add: case_prod_unfold Let_def)
  qed simp
  from this [OF new(1)] r have "NilStop \<notin> set es" by simp
  moreover have g: "toggles (\<lambda>e. e = IncWsOpenConnections) (\<lambda>e. e = DecWsOpenConnections) False es = Some (ws_is_open c)"
    using open_gauge.run_toggles [OF new(1) ok, unfolded new(2)] r by simp
  moreover have "toggles (\<lambda>e. e = CronStart) (\<lambda>e. e = CronStop) False es = Some (ws_is_open c)" if "wo_Cron opts"
  proof -
    have "ws_inv ?c \<and> wo_Cron (wc_opts ?c)" using new that by simp
    from cron_runs.run_toggles [OF this ok, unfolded new(2)] show ?thesis using r by simp
  qed
  moreover note toggles_count [OF _ g]
  ultimately show ?thesis using r by simp
qed

theorem open_gauge_alternates_witness:
  "let (c, es) = run_ops ws_step (new_ws_client \<lparr>wo_URL = ''ws:'', wo_URLFunc = False, wo_ReadLimit = 0,
       wo_PingInterval = 0, wo_Cron = True, wo_RecoveryFunc = None, wo_SerialReads = True\<rparr>)
       [WOpen (Inr ''u'') (\<lambda>_. Inr 0), WReset, WReset, WOpen (Inr ''u'') (\<lambda>_. Inr 1) :: unit ws_op]
   in ws_is_open c \<and> toggles (\<lambda>e. e = CronStart) (\<lambda>e. e = CronStop) False es = Some True"
  using open_gauge_alternates [of "\<lparr>wo_URL = ''ws:'', wo_URLFunc = False, wo_ReadLimit = 0,
       wo_PingInterval = 0, wo_Cron = True, wo_RecoveryFunc = None, wo_SerialReads = True\<rparr>"
       "[WOpen (Inr ''u'') (\<lambda>_. Inr 0), WReset, WReset, WOpen (Inr ''u'') (\<lambda>_. Inr 1) :: unit ws_op]"]
  by (simp add: Let_def new_ws_client_def ws_open_def ws_reset_def ws_is_open_def)

text \<open>
  The outcome of \<open>Open\<close> in all cases. It fails without any effect exactly if a connection is open
  (with its own error), or the URL function or the dial fails (with their error); the URL dialled is
  that of the function if there is one. Otherwise the new connection is in place, limited and with its
  three goroutines, the serial processor is started at the first time only, and a reset then brings
  back a client with no connection, no request and the first number.
\<close>

lemma open_outcome:
  assumes "ws_open url_res dial c = (err, c', es)"
  shows "(ws_is_open c \<longrightarrow> err = Some (Plain ErrConnOpen)) \<and> (err \<noteq> None \<longrightarrow> c' = c \<and> es = []) \<and>
    (\<not> ws_is_open c \<longrightarrow>
       err = (case if wo_URLFunc (wc_opts c) then url_res else Inr (wo_URL (wc_opts c)) of
                Inl e \<Rightarrow> Some e | Inr url \<Rightarrow> (case dial url of Inl e \<Rightarrow> Some e | Inr k \<Rightarrow> None))) \<and>
    (err = None \<longrightarrow>
       (\<exists>k. wc_conn c' = Some k \<and> wc_stop c' = Some k \<and> {SetReadLimit k (wo_ReadLimit (wc_opts c)), GoReader k, GoWriter k, GoPinger k} \<subseteq> set es \<and>
          (GoSerial \<in> set es \<longleftrightarrow> wc_readCh c \<noteq> None \<and> \<not> wc_serialOnce c) \<and> wc_readFns c' = wc_readFns c \<and> wc_readCh c' = wc_readCh c \<and>
          fst (ws_reset c') = c\<lparr>wc_conn := None, wc_stop := None, wc_nextID := 1, wc_respFns := [],
            wc_serialOnce := wc_serialOnce c \<or> wc_readCh c \<noteq> None\<rparr>))"
proof (cases "ws_is_open c")
  case True
  then show ?thesis using assms by (auto simp: ws_open_def)
next
  case False
  then show ?thesis
    using assms by (auto simp: ws_open_def ws_reset_def Let_def default_req_id_def split: sum.splits if_splits)
qed

lemma open_outcome_witness:
  "let c = (new_ws_client \<lparr>wo_URL = ''ws:'', wo_URLFunc = True, wo_ReadLimit = 0,
       wo_PingInterval = 0, wo_Cron = False, wo_RecoveryFunc = None, wo_SerialReads = True\<rparr> :: unit ws_client)
   in fst (ws_open (Inl (Plain EOF)) (\<lambda>_. Inr 0) c) = Some (Plain EOF) \<and>
      fst (ws_open (Inr ''u'') (\<lambda>_. Inr 0) c) = None"
proof -
  let ?c = "new_ws_client \<lparr>wo_URL = ''ws:'', wo_URLFunc = True, wo_ReadLimit = 0,
       wo_PingInterval = 0, wo_Cron = False, wo_RecoveryFunc = None, wo_SerialReads = True\<rparr> :: unit ws_client"
  have c: "\<not> ws_is_open ?c" "wo_URLFunc (wc_opts ?c)"
    by (simp_all add: new_ws_client_def ws_is_open_def Let_def)
  obtain err1 c1 es1 err2 c2 es2 where o: "ws_open (Inl (Plain EOF)) (\<lambda>_. Inr 0) ?c = (err1, c1, es1)"
    "ws_open (Inr ''u'') (\<lambda>_. Inr 0) ?c = (err2, c2, es2)" by (metis prod_cases3)
  have "err1 = Some (Plain EOF)" "err2 = None"
    using open_outcome [OF o(1)] open_outcome [OF o(2)] c by simp_all
  then show ?thesis unfolding Let_def o by simp
qed

section \<open>Request numbers\<close>

text \<open>Requests that are registered one after the other on one connection.\<close>

fun ws_register_all :: "nat list \<Rightarrow> 'j ws_client \<Rightarrow> 64 word list \<times> 'j ws_client" where
  "ws_register_all [] c = ([], c)"
| "ws_register_all (caller # callers) c =
     (let (i, c) = ws_register caller c; (is, c) = ws_register_all callers c in (i # is, c))"

lemma ws_register_all_ids:
  assumes "ws_register_all callers c = (is, c')"
  shows "is = map (\<lambda>n. wc_nextID c + of_nat n) [0..<length callers] \<and>
    gm_get (wc_respFns c') i = (case map_of (rev (zip is callers)) i of None \<Rightarrow> gm_get (wc_respFns c) i | Some t \<Rightarrow> Some t)"
  using assms
proof (induction callers arbitrary: c "is")
  case (Cons caller callers)
  obtain i1 c1 where r: "ws_register caller c = (i1, c1)" by force
  obtain is2 where l: "ws_register_all callers c1 = (is2, c')" and i: "is = i1 # is2"
    using Cons.prems r by (auto simp: case_prod_unfold Let_def prod_eq_iff)
  have c1: "i1 = wc_nextID c" "wc_nextID c1 = wc_nextID c + 1" "wc_respFns c1 = gm_set (wc_respFns c) i1 caller"
    using r by (auto simp: ws_register_def Let_def)
  have "map (\<lambda>n. wc_nextID c + of_nat n) [0..<Suc (length callers)] =
      wc_nextID c # map (\<lambda>n. wc_nextID c1 + of_nat n) [0..<length callers]"
    unfolding c1(2) by (subst upt_conv_Cons) (simp_all add: map_Suc_upt [symmetric] ac_simps del: upt_Suc)
  then show ?case using Cons.IH [OF l] c1(1,3) i by (auto simp: map_add_def split: option.split)
qed simp

lemma ws_register_all_next:
  "ws_register_all callers c = (is, c') \<Longrightarrow> wc_nextID c' = wc_nextID c + of_nat (length callers)"
  by (induction callers arbitrary: c "is") (auto simp: ws_register_def Let_def case_prod_unfold prod_eq_iff ac_simps)

lemma word_of_nat_inj: "a < 2 ^ 64 \<Longrightarrow> b < 2 ^ 64 \<Longrightarrow> (of_nat a :: 64 word) = of_nat b \<longleftrightarrow> a = b"
  by (auto simp: unat_of_nat dest: arg_cong [of _ _ unat])

text \<open>
  Request numbers. The first 2 ^ 64 - 1 requests of a connection get the numbers 1, 2, 3 and so on,
  all different, and a response with the number of a request is handed to its caller and nobody else.
  The bound is sharp: the number after them is 0, and data with number 0 is never taken for a response.
\<close>

lemma request_ids:
  assumes "wc_nextID c = default_req_id" and "length callers < 2 ^ 64"
    and "ws_register_all callers c = (is, c')"
  shows "distinct is \<and> length is = length callers \<and>
    (\<forall>n < length callers. is ! n = of_nat (Suc n) \<and> unat (is ! n) = Suc n \<and>
       (\<forall>d. id_of d = is ! n \<longrightarrow> ws_route id_of c' d = ToCaller (callers ! n))) \<and>
    (length callers = 2 ^ 64 - 1 \<longrightarrow> wc_nextID c' = 0) \<and>
    (\<forall>d t. id_of d = 0 \<longrightarrow> ws_route id_of c' d \<noteq> ToCaller t)"
proof -
  note r = ws_register_all_ids [OF assms(3)]
  have is1: "is = map (\<lambda>n. of_nat (Suc n)) [0..<length callers]"
    using r assms(1) by (simp add: default_req_id_def)
  then have d: "distinct is"
    using assms(2) by (auto simp: distinct_map inj_on_def word_of_nat_inj simp del: of_nat_Suc)
  have n: "is ! n = of_nat (Suc n)" "unat (is ! n) = Suc n" "is ! n \<ge> 1" if "n < length callers" for n
  proof -
    show i: "is ! n = of_nat (Suc n)" using that is1 by simp
    show u: "unat (is ! n) = Suc n" using that assms(2) by (simp add: i unat_of_nat del: of_nat_Suc)
    show "is ! n \<ge> 1" by (simp add: word_le_nat_alt u)
  qed
  have g: "gm_get (wc_respFns c') (is ! n) = Some (callers ! n)" if "n < length callers" for n
  proof -
    have "distinct (map fst (rev (zip is callers)))" using d is1 by (simp add: rev_map [symmetric])
    moreover have "(is ! n, callers ! n) \<in> set (rev (zip is callers))" using that is1 by (auto simp: in_set_zip simp del: of_nat_Suc intro!: exI [of _ n])
    ultimately have "map_of (rev (zip is callers)) (is ! n) = Some (callers ! n)" by (rule map_of_is_SomeI)
    then show ?thesis using r by simp
  qed
  have nx: "wc_nextID c' = wc_nextID c + of_nat (length callers)"
    using assms(3) by (rule ws_register_all_next)
  then have "length callers = 2 ^ 64 - 1 \<longrightarrow> wc_nextID c' = 0"
    using assms(1) by (auto simp: default_req_id_def)
  moreover have "ws_route id_of c' d = ToCaller (callers ! n)" if "n < length callers" "id_of d = is ! n" for n d
    using that n(3) g by (simp add: ws_route_def default_req_id_def)
  moreover have "ws_route id_of c' d \<noteq> ToCaller t" if "id_of d = 0" for d t
    using that by (simp add: ws_route_def default_req_id_def)
  ultimately show ?thesis using d n(1,2) is1 by simp
qed

lemma request_ids_witness:
  "let c = (new_ws_client \<lparr>wo_URL = ''ws:'', wo_URLFunc = False, wo_ReadLimit = 0, wo_PingInterval = 0,
        wo_Cron = False, wo_RecoveryFunc = None, wo_SerialReads = True\<rparr> :: (64 word) ws_client)
   in ws_route (\<lambda>d. d) (snd (ws_register_all [7, 8] c)) 2 = ToCaller 8"
proof -
  let ?c = "new_ws_client \<lparr>wo_URL = ''ws:'', wo_URLFunc = False, wo_ReadLimit = 0, wo_PingInterval = 0,
        wo_Cron = False, wo_RecoveryFunc = None, wo_SerialReads = True\<rparr> :: (64 word) ws_client"
  have "wc_nextID ?c = default_req_id" by (simp add: new_ws_client_def Let_def)
  from request_ids [OF this, of "[7, 8]" _ _ "\<lambda>d. d", OF _ prod.collapse [symmetric]]
  show ?thesis by (auto simp: Let_def less_Suc_eq)
qed

end
