(* ===== verification/Ws_Client_Run.thy ===== *)
theory Ws_Client_Run
  imports Ws_Client "HOL-Library.Sublist"
begin

text \<open>
  The client at work (\<^verbatim>\<open>wsclient/client.go\<close>): the goroutines of every connection (reader, writer,
  pinger), the serial processor, the callers of \<^verbatim>\<open>Send\<close> and \<^verbatim>\<open>Write\<close>, and the goroutines that hand a
  response over. Each is a small program with a state per point where another goroutine can intervene;
  \<open>act\<close> executes one atomic step of one of them, if that step is possible. A run is a list of such
  steps, chosen by the scheduler and by the outside: results of the socket, cancelled contexts, calls.
  Goroutines are numbered as their connections are; a connection's context has the connection's number.
\<close>

section \<open>Goroutines\<close>

text \<open>
  \<open>RDefer\<close>, \<open>WDefer\<close>, \<open>PDefer\<close>: returned, the deferred \<^verbatim>\<open>reset\<close> is still to come.
\<close>

datatype 'j reader_state = RLoop | RRead nat | RGot 'j | RPush 'j | RDefer | RGone

datatype 'j writer_state = WLoop | WGot 'j | WOn nat 'j | WDefer | WGone

datatype pinger_state = PLoop | PTick | POn nat | PDefer | PGone

text \<open>
  A call of \<^verbatim>\<open>Send\<close> or \<^verbatim>\<open>Write\<close>: marshalled; at the channel of the writer (with its number if it is a
  request); waiting for the response; before the deferred removal; returned.
\<close>

datatype 'j call_state =
    CMarshalled 'j | CWriting "64 word option" 'j | CAwaiting "64 word"
  | CCleaning "64 word" "go_error + 'j" | CReturned "64 word option" "go_error + 'j option"

text \<open>
  The state of a run. \<open>sy_replies\<close> are the goroutines that run a response function. The last five fields
  only record what happened: steps outside, messages written to a connection, what readers put into the
  channel or wanted to, what the serial processor has taken, and the calls of read functions.
\<close>

record 'j sys =
  sy_client :: "'j ws_client"
  sy_readers :: "'j reader_state list"
  sy_writers :: "'j writer_state list"
  sy_pingers :: "pinger_state list"
  sy_calls :: "'j call_state list"
  sy_replies :: "(nat \<times> 'j) list"
  sy_cancelled :: "nat list"
  sy_done :: "(nat, go_error) gomap"
  sy_events :: "ws_event list"
  sy_written :: "(nat \<times> 'j) list"
  sy_arrived :: "(nat \<times> 'j) list"
  sy_pushed :: "(nat \<times> 'j) list"
  sy_handled :: "'j list"
  sy_fn_calls :: "(nat \<times> 'j) list"

definition init_sys :: "ws_options \<Rightarrow> 'j sys" where
  "init_sys opts =
     \<lparr>sy_client = new_ws_client opts, sy_readers = [], sy_writers = [], sy_pingers = [], sy_calls = [],
      sy_replies = [], sy_cancelled = [], sy_done = [], sy_events = [], sy_written = [], sy_arrived = [],
      sy_pushed = [], sy_handled = [], sy_fn_calls = []\<rparr>"

text \<open>Third-party functions and the panics of read functions.\<close>

record 'j ws_env =
  we_id_of :: "'j \<Rightarrow> 64 word"
  we_set_id :: "64 word \<Rightarrow> 'j \<Rightarrow> 'j"
  we_close_status :: close_status
  we_panics :: "nat \<Rightarrow> 'j \<Rightarrow> bool"

section \<open>Steps\<close>

definition sys_open :: "go_error + string \<Rightarrow> go_error option \<Rightarrow> 'j sys \<Rightarrow> 'j sys" where
  "sys_open url_res dial_err s =
     (let k = length (sy_readers s);
          (err, c, es) = ws_open url_res (\<lambda>_. case dial_err of Some e \<Rightarrow> Inl e | None \<Rightarrow> Inr k) (sy_client s);
          s = s\<lparr>sy_client := c, sy_events := sy_events s @ es\<rparr>
      in if err = None
         then s\<lparr>sy_readers := sy_readers s @ [RLoop], sy_writers := sy_writers s @ [WLoop],
                sy_pingers := sy_pingers s @ [PLoop]\<rparr>
         else s)"

definition sys_reset :: "'j sys \<Rightarrow> 'j sys" where
  "sys_reset s =
     (let (c, es) = ws_reset (sy_client s)
      in s\<lparr>sy_client := c, sy_events := sy_events s @ es,
           sy_cancelled := sy_cancelled s @ List.map_filter (\<lambda>e. case e of CancelCtx k \<Rightarrow> Some k | _ \<Rightarrow> None) es\<rparr>)"

datatype 'j reader_act = RTop | RResult "go_error + 'j" | RRoute | RSend | RDone | RDeferred

definition set_reader :: "nat \<Rightarrow> 'j reader_state \<Rightarrow> 'j sys \<Rightarrow> 'j sys" where
  "set_reader g st s = s\<lparr>sy_readers := (sy_readers s)[g := st]\<rparr>"

fun ws_reader_step :: "'j ws_env \<Rightarrow> nat \<Rightarrow> 'j reader_state \<Rightarrow> 'j reader_act \<Rightarrow> 'j sys \<Rightarrow> 'j sys option" where
  "ws_reader_step env g RLoop RTop s =
     (case wc_conn (sy_client s) of
        None \<Rightarrow> Some (set_reader g RDefer s)
      | Some k \<Rightarrow> Some (set_reader g (RRead k) s))"
| "ws_reader_step env g (RRead k) (RResult (Inl err)) s =
     Some (set_reader g (if is_closure (we_close_status env) err [] then RDefer else RLoop) s)"
| "ws_reader_step env g (RRead k) (RResult (Inr data)) s = Some (set_reader g (RGot data) s)"
| "ws_reader_step env g (RGot data) RRoute s =
     (case ws_route (we_id_of env) (sy_client s) data of
        ToCaller t \<Rightarrow> Some (set_reader g RLoop s\<lparr>sy_replies := sy_replies s @ [(t, data)]\<rparr>)
      | ToChannel \<Rightarrow> Some (set_reader g (RPush data) s\<lparr>sy_arrived := sy_arrived s @ [(g, data)]\<rparr>)
      | ToFns fns \<Rightarrow> Some (set_reader g RLoop s\<lparr>sy_fn_calls := sy_fn_calls s @ map (\<lambda>fn. (fn, data)) fns\<rparr>))"
| "ws_reader_step env g (RPush data) RSend s =
     (case wc_readCh (sy_client s) of
        Some buf \<Rightarrow>
          if length buf < serial_reads_buffer
          then Some (set_reader g RLoop
                 s\<lparr>sy_client := (sy_client s)\<lparr>wc_readCh := Some (buf @ [data])\<rparr>, sy_pushed := sy_pushed s @ [(g, data)]\<rparr>)
          else None
      | None \<Rightarrow> None)"
| "ws_reader_step env g (RPush data) RDone s =
     (if g \<in> set (sy_cancelled s) then Some (set_reader g RDefer s) else None)"
| "ws_reader_step env g RDefer RDeferred s = Some (set_reader g RGone (sys_reset s))"
| "ws_reader_step env g st x s = None"

datatype writer_act = WDone | WTake nat | WConn | WResult "go_error option" | WDeferred

definition set_writer :: "nat \<Rightarrow> 'j writer_state \<Rightarrow> 'j sys \<Rightarrow> 'j sys" where
  "set_writer g st s = s\<lparr>sy_writers := (sy_writers s)[g := st]\<rparr>"

definition set_call :: "nat \<Rightarrow> 'j call_state \<Rightarrow> 'j sys \<Rightarrow> 'j sys" where
  "set_call t st s = s\<lparr>sy_calls := (sy_calls s)[t := st]\<rparr>"

fun writer_step :: "'j ws_env \<Rightarrow> nat \<Rightarrow> 'j writer_state \<Rightarrow> writer_act \<Rightarrow> 'j sys \<Rightarrow> 'j sys option" where
  "writer_step env g WLoop WDone s =
     (if g \<in> set (sy_cancelled s) then Some (set_writer g WDefer s) else None)"
| "writer_step env g WLoop (WTake t) s =
     (if t < length (sy_calls s)
      then case sy_calls s ! t of
             CWriting None data \<Rightarrow> Some (set_writer g (WGot data) (set_call t (CReturned None (Inr None)) s))
           | CWriting (Some i) data \<Rightarrow> Some (set_writer g (WGot data) (set_call t (CAwaiting i) s))
           | _ \<Rightarrow> None
      else None)"
| "writer_step env g (WGot data) WConn s =
     (case wc_conn (sy_client s) of
        None \<Rightarrow> Some (set_writer g WDefer s)
      | Some k \<Rightarrow> Some (set_writer g (WOn k data) s))"
| "writer_step env g (WOn k data) (WResult None) s =
     Some (set_writer g WLoop s\<lparr>sy_written := sy_written s @ [(k, data)]\<rparr>)"
| "writer_step env g (WOn k data) (WResult (Some err)) s =
     Some (set_writer g (if is_closure (we_close_status env) err [] then WDefer else WLoop) s)"
| "writer_step env g WDefer WDeferred s = Some (set_writer g WGone (sys_reset s))"
| "writer_step env g st x s = None"

datatype pinger_act = PDone | PTicked | PConn | PResult "go_error option" | PDeferred

definition set_pinger :: "nat \<Rightarrow> pinger_state \<Rightarrow> 'j sys \<Rightarrow> 'j sys" where
  "set_pinger g st s = s\<lparr>sy_pingers := (sy_pingers s)[g := st]\<rparr>"

fun pinger_step :: "'j ws_env \<Rightarrow> nat \<Rightarrow> pinger_state \<Rightarrow> pinger_act \<Rightarrow> 'j sys \<Rightarrow> 'j sys option" where
  "pinger_step env g PLoop PDone s =
     (if g \<in> set (sy_cancelled s) then Some (set_pinger g PDefer s) else None)"
| "pinger_step env g PLoop PTicked s = Some (set_pinger g PTick s)"
| "pinger_step env g PTick PConn s =
     (case wc_conn (sy_client s) of
        None \<Rightarrow> Some (set_pinger g PDefer s)
      | Some k \<Rightarrow> Some (set_pinger g (POn k) s))"
| "pinger_step env g (POn k) (PResult None) s = Some (set_pinger g PLoop s)"
| "pinger_step env g (POn k) (PResult (Some err)) s =
     Some (set_pinger g (if is_closure (we_close_status env) err [] then PDefer else PLoop) s)"
| "pinger_step env g PDefer PDeferred s = Some (set_pinger g PGone (sys_reset s))"
| "pinger_step env g st x s = None"

text \<open>
  The calls. \<open>CtxDone\<close>: the select takes the branch of the caller's context, whose error is \<open>err\<close>.
\<close>

datatype call_act = Register | CtxDone | Clean

fun call_step :: "'j ws_env \<Rightarrow> nat \<Rightarrow> 'j call_state \<Rightarrow> call_act \<Rightarrow> 'j sys \<Rightarrow> 'j sys option" where
  "call_step env t (CMarshalled raw) Register s =
     (let (i, c) = ws_register t (sy_client s)
      in Some (set_call t (CWriting (Some i) (we_set_id env i raw)) s\<lparr>sy_client := c\<rparr>))"
| "call_step env t (CWriting w data) CtxDone s =
     (case gm_get (sy_done s) t of
        None \<Rightarrow> None
      | Some err \<Rightarrow>
          Some (set_call t (case w of None \<Rightarrow> CReturned None (Inl err) | Some i \<Rightarrow> CCleaning i (Inl err)) s))"
| "call_step env t (CAwaiting i) CtxDone s =
     (case gm_get (sy_done s) t of None \<Rightarrow> None | Some err \<Rightarrow> Some (set_call t (CCleaning i (Inl err)) s))"
| "call_step env t (CCleaning i res) Clean s =
     Some (set_call t (CReturned (Some i) (map_sum (\<lambda>e. e) Some res)) s\<lparr>sy_client := ws_unregister i (sy_client s)\<rparr>)"
| "call_step env t st x s = None"

definition serial_step :: "'j ws_env \<Rightarrow> 'j sys \<Rightarrow> 'j sys option" where
  "serial_step env s =
     (if wc_serialOnce (sy_client s)
      then case wc_readCh (sy_client s) of
             Some (data # buf) \<Rightarrow>
               Some (s\<lparr>sy_client := (sy_client s)\<lparr>wc_readCh := Some buf\<rparr>, sy_handled := sy_handled s @ [data],
                       sy_fn_calls := sy_fn_calls s @ run_read_fns (we_panics env) (wc_readFns (sy_client s)) data\<rparr>)
           | _ \<Rightarrow> None
      else None)"

text \<open>A response goroutine hands its data to the waiting caller, or ends with the caller's context.\<close>

definition remove_nth :: "nat \<Rightarrow> 'a list \<Rightarrow> 'a list" where
  "remove_nth j xs = take j xs @ drop (Suc j) xs"

definition reply_step :: "nat \<Rightarrow> bool \<Rightarrow> 'j sys \<Rightarrow> 'j sys option" where
  "reply_step j deliver s =
     (if j < length (sy_replies s)
      then let (t, data) = sy_replies s ! j; s' = s\<lparr>sy_replies := remove_nth j (sy_replies s)\<rparr>
           in if deliver
              then (if t < length (sy_calls s)
                    then case sy_calls s ! t of CAwaiting i \<Rightarrow> Some (set_call t (CCleaning i (Inr data)) s') | _ \<Rightarrow> None
                    else None)
              else if gm_get (sy_done s) t \<noteq> None then Some s' else None
      else None)"

text \<open>The beginnings of \<^verbatim>\<open>Send\<close> and \<^verbatim>\<open>Write\<close>; \<open>res\<close> is the result of \<^verbatim>\<open>json.Marshal\<close>.\<close>

definition start_call :: "bool \<Rightarrow> go_error + 'j \<Rightarrow> 'j sys \<Rightarrow> 'j call_state" where
  "start_call request res s =
     (if \<not> ws_is_open (sy_client s) then CReturned None (Inl (Plain ErrConnClosed))
      else case res of
             Inl err \<Rightarrow> CReturned None (Inl err)
           | Inr raw \<Rightarrow> if request then CMarshalled raw else CWriting None raw)"

datatype 'j action =
    AOpen "go_error + string" "go_error option" | AClose | AOnRead nat
  | AReader nat "'j reader_act" | AWriter nat writer_act | APinger nat pinger_act
  | AStart bool "go_error + 'j" | ACall nat call_act | ACancel nat go_error
  | ASerial | AReply nat bool

fun act :: "'j ws_env \<Rightarrow> 'j action \<Rightarrow> 'j sys \<Rightarrow> 'j sys option" where
  "act env (AOpen url_res dial_err) s = Some (sys_open url_res dial_err s)"
| "act env AClose s = Some (sys_reset s)"
| "act env (AOnRead fn) s = Some (s\<lparr>sy_client := ws_on_read fn (sy_client s)\<rparr>)"
| "act env (AReader g x) s = (if g < length (sy_readers s) then ws_reader_step env g (sy_readers s ! g) x s else None)"
| "act env (AWriter g x) s = (if g < length (sy_writers s) then writer_step env g (sy_writers s ! g) x s else None)"
| "act env (APinger g x) s = (if g < length (sy_pingers s) then pinger_step env g (sy_pingers s ! g) x s else None)"
| "act env (AStart request res) s = Some (s\<lparr>sy_calls := sy_calls s @ [start_call request res s]\<rparr>)"
| "act env (ACall t x) s = (if t < length (sy_calls s) then call_step env t (sy_calls s ! t) x s else None)"
| "act env (ACancel t err) s =
     (if gm_get (sy_done s) t = None then Some (s\<lparr>sy_done := gm_set (sy_done s) t err\<rparr>) else None)"
| "act env ASerial s = serial_step env s"
| "act env (AReply j deliver) s = reply_step j deliver s"

fun run_acts :: "'j ws_env \<Rightarrow> 'j action list \<Rightarrow> 'j sys \<Rightarrow> 'j sys option" where
  "run_acts env [] s = Some s"
| "run_acts env (x # xs) s = (case act env x s of None \<Rightarrow> None | Some s' \<Rightarrow> run_acts env xs s')"


fun_cases reader_stepE: "ws_reader_step env g st x s = Some s'"
fun_cases writer_stepE: "writer_step env g st x s = Some s'"
fun_cases pinger_stepE: "pinger_step env g st x s = Some s'"
fun_cases call_stepE: "call_step env t st x s = Some s'"
fun_cases actE: "act env x s = Some s'"

lemmas set_defs = set_reader_def set_writer_def set_pinger_def set_call_def

lemma run_acts_append:
  "run_acts env (xs @ ys) s = (case run_acts env xs s of None \<Rightarrow> None | Some s' \<Rightarrow> run_acts env ys s')"
  by (induction xs arbitrary: s) (auto split: option.split)

lemma run_acts_invariant:
  assumes "\<And>x s s'. P s \<Longrightarrow> act env x s = Some s' \<Longrightarrow> P s'"
  shows "P s \<Longrightarrow> run_acts env xs s = Some s' \<Longrightarrow> P s'"
  by (induction xs arbitrary: s) (auto split: option.splits dest: assms)

section \<open>The client's own operations are all that happens to it\<close>

text \<open>Every step is, for the client's fields, one operation of \<open>Ws_Client\<close>; most of them do nothing there.\<close>

definition client_op :: "'j sys \<Rightarrow> 'j sys \<Rightarrow> bool" where
  "client_op s s' \<longleftrightarrow> (\<exists>op. sy_client s' = fst (ws_step (sy_client s) op) \<and>
     sy_events s' = sy_events s @ snd (ws_step (sy_client s) op))"

lemma client_op_same: "sy_client s' = sy_client s \<Longrightarrow> sy_events s' = sy_events s \<Longrightarrow> client_op s s'"
  unfolding client_op_def by (rule exI [of _ "WSetCh (wc_readCh (sy_client s))"]) simp

lemma client_op_reset: "sy_client s' = sy_client (sys_reset s) \<Longrightarrow> sy_events s' = sy_events (sys_reset s) \<Longrightarrow> client_op s s'"
  unfolding client_op_def by (rule exI [of _ WReset]) (simp add: sys_reset_def case_prod_unfold Let_def)

lemma client_op_silent:
  "sy_client s' = fst (ws_step (sy_client s) op) \<Longrightarrow> snd (ws_step (sy_client s) op) = [] \<Longrightarrow> sy_events s' = sy_events s \<Longrightarrow> client_op s s'"
  unfolding client_op_def by (rule exI [of _ op]) simp

lemmas step_splits = option.splits routing.splits if_splits call_state.splits list.splits prod.splits

text \<open>What a step of a goroutine of a connection does to the client's own fields: nothing, a reset, or an event in the channel.\<close>

lemma reader_step_client:
  assumes "ws_reader_step env g st x s = Some s'"
  shows "client_op s s'"
proof -
  have "sy_client s' = sy_client s \<and> sy_events s' = sy_events s \<or>
      sy_client s' = sy_client (sys_reset s) \<and> sy_events s' = sy_events (sys_reset s) \<or>
      (\<exists>ch. sy_client s' = (sy_client s)\<lparr>wc_readCh := ch\<rparr> \<and> sy_events s' = sy_events s)"
    using assms by (rule reader_stepE) (auto simp: set_defs split: step_splits)
  then show ?thesis
    using client_op_same client_op_reset client_op_silent [of s' s "WSetCh _"] by auto
qed

lemma writer_step_client:
  assumes "writer_step env g st x s = Some s'"
  shows "client_op s s'"
proof -
  have "sy_client s' = sy_client s \<and> sy_events s' = sy_events s \<or>
      sy_client s' = sy_client (sys_reset s) \<and> sy_events s' = sy_events (sys_reset s)"
    using assms by (rule writer_stepE) (auto simp: set_defs split: step_splits)
  then show ?thesis using client_op_same client_op_reset by auto
qed

lemma pinger_step_client:
  assumes "pinger_step env g st x s = Some s'"
  shows "client_op s s'"
proof -
  have "sy_client s' = sy_client s \<and> sy_events s' = sy_events s \<or>
      sy_client s' = sy_client (sys_reset s) \<and> sy_events s' = sy_events (sys_reset s)"
    using assms by (rule pinger_stepE) (auto simp: set_defs split: step_splits)
  then show ?thesis using client_op_same client_op_reset by auto
qed

lemma call_step_client:
  assumes "call_step env t st x s = Some s'"
  shows "client_op s s'"
  using assms
proof (rule call_stepE, goal_cases)
  case (1 raw)
  then show ?case
    by (intro client_op_silent [of _ _ "WRegister t"]) (auto simp: set_defs ws_register_def Let_def)
next
  case (4 i res)
  then show ?case by (intro client_op_silent [of _ _ "WUnregister i"]) (simp_all add: set_defs)
qed (auto simp: set_defs split: step_splits intro: client_op_same)

lemma act_client_op:
  assumes "act env x s = Some s'"
  shows "client_op s s'"
  using assms
proof (rule actE, goal_cases)
  case (1 url_res dial_err)
  show ?case
    unfolding client_op_def 1
    by (rule exI [of _ "WOpen url_res (\<lambda>_. case dial_err of Some e \<Rightarrow> Inl e | None \<Rightarrow> Inr (length (sy_readers s)))"])
      (simp add: sys_open_def case_prod_unfold Let_def)
next
  case 2
  then show ?case by (intro client_op_reset) simp_all
next
  case (3 fn)
  then show ?case by (intro client_op_silent [of _ _ "WOnRead fn"]) simp_all
next
  case (4 g x)
  then show ?case by (auto split: if_splits intro: reader_step_client)
next
  case (5 g x)
  then show ?case by (auto split: if_splits intro: writer_step_client)
next
  case (6 g x)
  then show ?case by (auto split: if_splits intro: pinger_step_client)
next
  case (8 t x)
  then show ?case by (auto split: if_splits intro: call_step_client)
next
  case 10
  then show ?case
    by (auto simp: serial_step_def split: step_splits intro!: client_op_silent [of _ _ "WSetCh _"])
next
  case (11 j deliver)
  then show ?case by (auto simp: reply_step_def set_defs Let_def split: step_splits intro!: client_op_same)
qed (auto split: if_splits intro!: client_op_same)


lemma act_ws_inv: "act env x s = Some s' \<Longrightarrow> ws_inv (sy_client s) \<Longrightarrow> ws_inv (sy_client s')"
  using act_client_op ws_step_inv(1) by (metis client_op_def)

section \<open>Connections and contexts\<close>

text \<open>The part of the state that says which connections there were and which is open.\<close>

definition conn_view :: "'j sys \<Rightarrow> nat option \<times> nat \<times> nat \<times> nat \<times> nat set" where
  "conn_view s = (wc_conn (sy_client s), length (sy_readers s), length (sy_writers s), length (sy_pingers s), set (sy_cancelled s))"

lemma set_client [simp]:
  "sy_client (set_reader g r s) = sy_client s" "sy_client (set_writer g w s) = sy_client s"
  "sy_client (set_pinger g p s) = sy_client s" "sy_client (set_call t st s) = sy_client s"
  by (simp_all add: set_defs)

lemma set_reader_fields [simp]:
  "sy_arrived (set_reader g r s) = sy_arrived s" "sy_pushed (set_reader g r s) = sy_pushed s"
  "sy_handled (set_reader g r s) = sy_handled s" "sy_fn_calls (set_reader g r s) = sy_fn_calls s"
  "sy_cancelled (set_reader g r s) = sy_cancelled s"
  by (simp_all add: set_reader_def)

lemma set_conn_view [simp]:
  "conn_view (set_reader g r s) = conn_view s" "conn_view (set_writer g w s) = conn_view s"
  "conn_view (set_pinger g p s) = conn_view s" "conn_view (set_call t st s) = conn_view s"
  "conn_view (s\<lparr>sy_calls := cs\<rparr>) = conn_view s" "conn_view (s\<lparr>sy_replies := rs\<rparr>) = conn_view s"
  "conn_view (s\<lparr>sy_done := ds\<rparr>) = conn_view s" "conn_view (s\<lparr>sy_written := ws\<rparr>) = conn_view s"
  "conn_view (s\<lparr>sy_arrived := as\<rparr>) = conn_view s" "conn_view (s\<lparr>sy_pushed := ps\<rparr>) = conn_view s"
  "conn_view (s\<lparr>sy_handled := hs\<rparr>) = conn_view s" "conn_view (s\<lparr>sy_fn_calls := fs\<rparr>) = conn_view s"
  "wc_conn c = wc_conn (sy_client s) \<Longrightarrow> conn_view (s\<lparr>sy_client := c\<rparr>) = conn_view s"
  by (simp_all add: conn_view_def set_defs)

lemma act_conn_view:
  assumes "act env x s = Some s'"
  shows "conn_view s' = conn_view s \<or> conn_view s' = conn_view (sys_reset s) \<or>
    (\<exists>url_res dial_err. conn_view s' = conn_view (sys_open url_res dial_err s))"
  using assms
proof (rule actE, goal_cases)
  case (4 g x)
  then have "ws_reader_step env g (sy_readers s ! g) x s = Some s'" by (auto split: if_splits)
  then show ?case by (rule reader_stepE) (auto split: step_splits)
next
  case (5 g x)
  then have "writer_step env g (sy_writers s ! g) x s = Some s'" by (auto split: if_splits)
  then show ?case by (rule writer_stepE) (auto split: step_splits)
next
  case (6 g x)
  then have "pinger_step env g (sy_pingers s ! g) x s = Some s'" by (auto split: if_splits)
  then show ?case by (rule pinger_stepE) (auto split: step_splits)
next
  case (8 t x)
  then have "call_step env t (sy_calls s ! t) x s = Some s'" by (auto split: if_splits)
  then show ?case by (rule call_stepE) (auto simp: ws_register_def ws_unregister_def Let_def split: step_splits)
qed (auto simp: serial_step_def reply_step_def ws_on_read_def Let_def split: step_splits)

text \<open>
  Every connection but the open one has its context cancelled, and the open one has not.
\<close>

definition conn_inv :: "'j sys \<Rightarrow> bool" where
  "conn_inv s \<longleftrightarrow> ws_inv (sy_client s) \<and>
     (case conn_view s of (conn, nr, nw, np, dead) \<Rightarrow>
        nw = nr \<and> np = nr \<and> dead = {k. k < nr \<and> conn \<noteq> Some k} \<and> (\<forall>k. conn = Some k \<longrightarrow> k < nr))"

lemma sys_reset_view:
  "ws_inv (sy_client s) \<Longrightarrow> conn_view (sys_reset s) =
     (None, length (sy_readers s), length (sy_writers s), length (sy_pingers s),
      set (sy_cancelled s) \<union> set_option (wc_conn (sy_client s)))"
  by (auto simp: sys_reset_def ws_reset_inv conn_view_def List.map_filter_def split: option.split)

lemma sys_open_view:
  "conn_view (sys_open url_res dial_err s) = conn_view s \<or>
   \<not> ws_is_open (sy_client s) \<and> conn_view (sys_open url_res dial_err s) =
     (Some (length (sy_readers s)), Suc (length (sy_readers s)), Suc (length (sy_writers s)), Suc (length (sy_pingers s)),
      set (sy_cancelled s))"
  by (rule ws_open_cases [of url_res "\<lambda>_. case dial_err of Some e \<Rightarrow> Inl e | None \<Rightarrow> Inr (length (sy_readers s))" "sy_client s"])
    (auto simp: sys_open_def conn_view_def Let_def split: option.splits)

lemma act_conn_inv:
  assumes inv: "conn_inv s" and a: "act env x s = Some s'"
  shows "conn_inv s'"
proof -
  have ws: "ws_inv (sy_client s)" "ws_inv (sy_client s')"
    using inv act_ws_inv [OF a] by (simp_all add: conn_inv_def)
  note view = inv [unfolded conn_inv_def conn_view_def]
  from act_conn_view [OF a] consider "conn_view s' = conn_view s" | "conn_view s' = conn_view (sys_reset s)"
    | url_res dial_err where "conn_view s' = conn_view (sys_open url_res dial_err s)" by blast
  then show ?thesis
  proof cases
    case 1
    then show ?thesis using inv ws by (simp add: conn_inv_def)
  next
    case 2
    then show ?thesis using view ws by (auto simp: conn_inv_def sys_reset_view)
  next
    case 3
    with sys_open_view [of url_res dial_err s] show ?thesis
      using inv ws by (auto simp: conn_inv_def conn_view_def ws_is_open_def less_Suc_eq)
  qed
qed

lemma init_conn_inv: "conn_inv (init_sys opts)"
  by (auto simp: conn_inv_def conn_view_def init_sys_def new_ws_client_def ws_inv_def Let_def)

lemma run_conn_inv: "run_acts env xs (init_sys opts) = Some s \<Longrightarrow> conn_inv s"
  by (rule run_acts_invariant [of conn_inv, OF act_conn_inv init_conn_inv])


section \<open>Serial reads\<close>

definition of_conn :: "nat \<Rightarrow> (nat \<times> 'j) list \<Rightarrow> (nat \<times> 'j) list" where
  "of_conn g ps = filter (\<lambda>p. fst p = g) ps"

text \<open>What a reader still holds of the events that it wants to put into the channel.\<close>

fun holds :: "bool \<Rightarrow> nat \<Rightarrow> 'j reader_state \<Rightarrow> (nat \<times> 'j) list \<Rightarrow> bool" where
  "holds dead g (RPush d) rest \<longleftrightarrow> rest = [(g, d)]"
| "holds dead g RDefer rest \<longleftrightarrow> length rest \<le> 1 \<and> (rest \<noteq> [] \<longrightarrow> dead)"
| "holds dead g RGone rest \<longleftrightarrow> length rest \<le> 1 \<and> (rest \<noteq> [] \<longrightarrow> dead)"
| "holds dead g st rest \<longleftrightarrow> rest = []"

definition held :: "'j sys \<Rightarrow> nat \<Rightarrow> (nat \<times> 'j) list \<Rightarrow> bool" where
  "held s g rest \<longleftrightarrow>
     holds (g \<in> set (sy_cancelled s)) g (if g < length (sy_readers s) then sy_readers s ! g else RLoop) rest"

lemma holds_mono: "holds dead g st rest \<Longrightarrow> (dead \<Longrightarrow> dead') \<Longrightarrow> holds dead' g st rest"
  by (cases st) auto

lemma held_set_reader [simp]:
  "g < length (sy_readers s) \<Longrightarrow>
   held (set_reader g st s) h rest = (if h = g then holds (g \<in> set (sy_cancelled s)) g st rest else held s h rest)"
  by (simp add: held_def set_reader_def)

lemma held_fields [simp]:
  "held (s\<lparr>sy_client := c\<rparr>) = held s" "held (s\<lparr>sy_replies := rs\<rparr>) = held s" "held (s\<lparr>sy_arrived := as\<rparr>) = held s"
  "held (s\<lparr>sy_pushed := ps\<rparr>) = held s"
  by (simp_all add: held_def fun_eq_iff)

definition serial_inv :: "'j ws_env \<Rightarrow> 'j sys \<Rightarrow> bool" where
  "serial_inv env s \<longleftrightarrow>
     (\<exists>buf. wc_readCh (sy_client s) = Some buf \<and> length buf \<le> serial_reads_buffer \<and>
        map snd (sy_pushed s) = sy_handled s @ buf) \<and>
     (\<exists>bs. sy_fn_calls s = concat bs \<and> list_all2 (\<lambda>d b. \<exists>fns. b = run_read_fns (we_panics env) fns d) (sy_handled s) bs) \<and>
     (\<forall>g. \<exists>rest. of_conn g (sy_arrived s) = of_conn g (sy_pushed s) @ rest \<and> held s g rest)"

lemma of_conn_append [simp]: "of_conn g (xs @ ys) = of_conn g xs @ of_conn g ys" "of_conn g [] = []"
  "of_conn g [(h, d)] = (if h = g then [(h, d)] else [])"
  by (simp_all add: of_conn_def)

text \<open>The fields that the invariant is about; a cancelled context stays cancelled.\<close>

definition serial_view :: "'j sys \<Rightarrow> 'j list option \<times> (nat \<times> 'j) list \<times> (nat \<times> 'j) list \<times> 'j list \<times> (nat \<times> 'j) list" where
  "serial_view s = (wc_readCh (sy_client s), sy_arrived s, sy_pushed s, sy_handled s, sy_fn_calls s)"

lemma sys_reset_serial:
  "serial_view (sys_reset s) = serial_view s" "sy_readers (sys_reset s) = sy_readers s"
  "set (sy_cancelled s) \<subseteq> set (sy_cancelled (sys_reset s))" "sy_calls (sys_reset s) = sy_calls s"
  "sy_replies (sys_reset s) = sy_replies s" "sy_done (sys_reset s) = sy_done s"
  by (auto simp: sys_reset_def ws_reset_def serial_view_def Let_def split: option.split)

lemma sys_open_serial:
  "serial_view (sys_open url_res dial_err s) = serial_view s"
  "sy_readers (sys_open url_res dial_err s) = sy_readers s \<or> sy_readers (sys_open url_res dial_err s) = sy_readers s @ [RLoop]"
  "sy_cancelled (sys_open url_res dial_err s) = sy_cancelled s" "sy_calls (sys_open url_res dial_err s) = sy_calls s"
  "sy_replies (sys_open url_res dial_err s) = sy_replies s" "sy_done (sys_open url_res dial_err s) = sy_done s"
  "wc_respFns (sy_client (sys_open url_res dial_err s)) = wc_respFns (sy_client s)"
proof -
  let ?dial = "\<lambda>_ :: string. case dial_err of Some e \<Rightarrow> Inl e | None \<Rightarrow> Inr (length (sy_readers s))"
  show "serial_view (sys_open url_res dial_err s) = serial_view s"
    "sy_readers (sys_open url_res dial_err s) = sy_readers s \<or> sy_readers (sys_open url_res dial_err s) = sy_readers s @ [RLoop]"
    "sy_cancelled (sys_open url_res dial_err s) = sy_cancelled s" "sy_calls (sys_open url_res dial_err s) = sy_calls s"
    "sy_replies (sys_open url_res dial_err s) = sy_replies s" "sy_done (sys_open url_res dial_err s) = sy_done s"
    "wc_respFns (sy_client (sys_open url_res dial_err s)) = wc_respFns (sy_client s)"
    by (rule ws_open_cases [of url_res ?dial "sy_client s"]; simp add: sys_open_def serial_view_def Let_def)+
qed

text \<open>Steps that leave the readers and the channel alone.\<close>

lemma serial_inv_cong:
  assumes inv: "serial_inv env s" and v: "serial_view s' = serial_view s" and h: "\<And>g rest. held s g rest \<Longrightarrow> held s' g rest"
  shows "serial_inv env s'"
proof -
  have e: "wc_readCh (sy_client s') = wc_readCh (sy_client s)" "sy_arrived s' = sy_arrived s" "sy_pushed s' = sy_pushed s"
    "sy_handled s' = sy_handled s" "sy_fn_calls s' = sy_fn_calls s"
    using v by (simp_all add: serial_view_def)
  have "\<forall>g. \<exists>rest. of_conn g (sy_arrived s) = of_conn g (sy_pushed s) @ rest \<and> held s g rest"
    using inv by (simp add: serial_inv_def)
  with h have "\<forall>g. \<exists>rest. of_conn g (sy_arrived s) = of_conn g (sy_pushed s) @ rest \<and> held s' g rest" by meson
  with inv show ?thesis unfolding serial_inv_def e by (elim conjE) (intro conjI)
qed

lemma serial_inv_frame:
  assumes "serial_inv env s" and "serial_view s' = serial_view s"
    and "sy_readers s' = sy_readers s \<or> sy_readers s' = sy_readers s @ [RLoop]"
    and "set (sy_cancelled s) \<subseteq> set (sy_cancelled s')"
  shows "serial_inv env s'"
proof -
  have st: "(if g < length (sy_readers s') then sy_readers s' ! g else RLoop) =
      (if g < length (sy_readers s) then sy_readers s ! g else RLoop)" for g
    using assms(3) by (auto simp: nth_append less_Suc_eq)
  have "held s' g rest" if "held s g rest" for g rest
    using that [unfolded held_def] unfolding held_def st by (rule holds_mono) (use assms(4) in blast)
  then show ?thesis by (rule serial_inv_cong [OF assms(1,2)])
qed

text \<open>A step of one reader: its own state and what it holds.\<close>

lemma reader_step_serial:
  assumes inv: "serial_inv env s" and g: "g < length (sy_readers s)" and st: "ws_reader_step env g (sy_readers s ! g) x s = Some s'"
  shows "serial_inv env s'"
proof -
  obtain buf where buf: "wc_readCh (sy_client s) = Some buf" "length buf \<le> serial_reads_buffer" "map snd (sy_pushed s) = sy_handled s @ buf"
    using inv by (auto simp: serial_inv_def)
  have rest: "\<exists>rest. of_conn h (sy_arrived s) = of_conn h (sy_pushed s) @ rest \<and> held s h rest" for h
    using inv by (simp add: serial_inv_def)
  have calls: "\<exists>bs. sy_fn_calls s = concat bs \<and> list_all2 (\<lambda>d b. \<exists>fns. b = run_read_fns (we_panics env) fns d) (sy_handled s) bs"
    using inv by (simp add: serial_inv_def)
  have g0: "held s g r \<longleftrightarrow> holds (g \<in> set (sy_cancelled s)) g (sy_readers s ! g) r" for r
    using g by (simp add: held_def)
  have change: "serial_inv env (set_reader g r s)"
    if "\<forall>rest. holds (g \<in> set (sy_cancelled s)) g (sy_readers s ! g) rest \<longrightarrow> holds (g \<in> set (sy_cancelled s)) g r rest" for r
  proof -
    have "held (set_reader g r s) h rest" if "held s h rest" for h rest
      using that \<open>\<forall>rest. _ rest\<close> g g0 by auto
    moreover have "serial_view (set_reader g r s) = serial_view s" by (simp add: serial_view_def set_reader_def)
    ultimately show ?thesis using serial_inv_cong [OF inv] by blast
  qed
  from st show ?thesis
  proof (rule reader_stepE, goal_cases)
    case 1
    then show ?case by (auto split: option.splits intro!: change)
  next
    case (2 k err)
    then show ?case by (auto intro!: change)
  next
    case (3 k data)
    then show ?case by (auto intro!: change)
  next
    case (4 data)
    consider (caller) t where "s' = set_reader g RLoop s\<lparr>sy_replies := sy_replies s @ [(t, data)]\<rparr>"
      | (channel) "s' = set_reader g (RPush data) s\<lparr>sy_arrived := sy_arrived s @ [(g, data)]\<rparr>"
      using 4(3) buf(1) by (auto simp: ws_route_def Let_def split: option.splits if_splits)
    then show ?case
    proof cases
      case caller
      have "serial_inv env (set_reader g RLoop s)" using 4(1) by (intro change) simp
      then show ?thesis unfolding caller serial_inv_def by simp
    next
      case channel
      show ?thesis unfolding serial_inv_def
      proof (intro conjI allI)
        fix h
        obtain r where r: "of_conn h (sy_arrived s) = of_conn h (sy_pushed s) @ r" "held s h r" using rest by blast
        show "\<exists>rest. of_conn h (sy_arrived s') = of_conn h (sy_pushed s') @ rest \<and> held s' h rest"
          using r g g0 4(1) unfolding channel
          by (intro exI [of _ "r @ of_conn h [(g, data)]"]) auto
      qed (use buf calls in \<open>simp_all add: channel set_reader_def\<close>)
    qed
  next
    case (5 data)
    then have s': "s' = set_reader g RLoop
        s\<lparr>sy_client := (sy_client s)\<lparr>wc_readCh := Some (buf @ [data])\<rparr>, sy_pushed := sy_pushed s @ [(g, data)]\<rparr>"
      and l: "length buf < serial_reads_buffer"
      using buf(1) by (auto split: if_splits)
    show ?case unfolding serial_inv_def
    proof (intro conjI allI)
      fix h
      obtain r where r: "of_conn h (sy_arrived s) = of_conn h (sy_pushed s) @ r" "held s h r" using rest by blast
      show "\<exists>rest. of_conn h (sy_arrived s') = of_conn h (sy_pushed s') @ rest \<and> held s' h rest"
        using r g g0 5(1) unfolding s' by (intro exI [of _ "if h = g then [] else r"]) auto
    qed (use buf l calls in \<open>simp_all add: s' set_reader_def\<close>)
  next
    case (6 data)
    then show ?case by (auto intro!: change split: if_splits)
  next
    case 7
    have r: "serial_inv env (sys_reset s)"
      by (rule serial_inv_frame [OF inv]) (use sys_reset_serial [of s] in auto)
    have "held (set_reader g RGone (sys_reset s)) h rest" if "held (sys_reset s) h rest" for h rest
    proof -
      have "g < length (sy_readers (sys_reset s))" using g by (simp add: sys_reset_serial(2))
      from held_set_reader [OF this] show ?thesis
        using that g 7(1) by (auto simp: held_def sys_reset_serial(2))
    qed
    moreover have "serial_view (set_reader g RGone (sys_reset s)) = serial_view (sys_reset s)"
      by (simp add: serial_view_def set_reader_def)
    ultimately show ?case unfolding 7(3) using serial_inv_cong [OF r] by blast
  qed
qed


lemma serial_frame_fields [simp]:
  "serial_view (set_writer g w s) = serial_view s" "sy_readers (set_writer g w s) = sy_readers s"
  "sy_cancelled (set_writer g w s) = sy_cancelled s"
  "serial_view (set_pinger g p s) = serial_view s" "sy_readers (set_pinger g p s) = sy_readers s"
  "sy_cancelled (set_pinger g p s) = sy_cancelled s"
  "serial_view (set_call t st s) = serial_view s" "sy_readers (set_call t st s) = sy_readers s"
  "sy_cancelled (set_call t st s) = sy_cancelled s"
  "serial_view (s\<lparr>sy_calls := cs\<rparr>) = serial_view s" "serial_view (s\<lparr>sy_replies := rs\<rparr>) = serial_view s"
  "serial_view (s\<lparr>sy_done := ds\<rparr>) = serial_view s" "serial_view (s\<lparr>sy_written := ws\<rparr>) = serial_view s"
  by (simp_all add: serial_view_def set_defs)

lemma serial_view_client: "wc_readCh c = wc_readCh (sy_client s) \<Longrightarrow> serial_view (s\<lparr>sy_client := c\<rparr>) = serial_view s"
  by (simp add: serial_view_def)

lemma act_serial_inv:
  assumes inv: "serial_inv env s" and a: "act env x s = Some s'"
  shows "serial_inv env s'"
proof -
  have frame: ?thesis
    if "serial_view s' = serial_view s \<and> sy_readers s' = sy_readers s \<and> set (sy_cancelled s) \<subseteq> set (sy_cancelled s')"
    using serial_inv_frame [OF inv] that by blast
  from a show ?thesis
  proof (rule actE, goal_cases)
    case (1 url_res dial_err)
    then show ?case using serial_inv_frame [OF inv] sys_open_serial [of url_res dial_err s] by simp
  next
    case 2
    then show ?case using sys_reset_serial [of s] by (intro frame) simp
  next
    case (3 fn)
    then show ?case by (intro frame) (simp add: serial_view_client ws_on_read_def)
  next
    case (4 g x)
    then show ?case using reader_step_serial [OF inv, of g x s'] by (simp split: if_splits)
  next
    case (5 g x)
    then have "writer_step env g (sy_writers s ! g) x s = Some s'" by (simp split: if_splits)
    then have "serial_view s' = serial_view s \<and> sy_readers s' = sy_readers s \<and> set (sy_cancelled s) \<subseteq> set (sy_cancelled s')"
      by (rule writer_stepE) (auto simp: sys_reset_serial dest: subsetD [OF sys_reset_serial(3)] split: step_splits)
    then show ?case by (rule frame)
  next
    case (6 g x)
    then have "pinger_step env g (sy_pingers s ! g) x s = Some s'" by (simp split: if_splits)
    then have "serial_view s' = serial_view s \<and> sy_readers s' = sy_readers s \<and> set (sy_cancelled s) \<subseteq> set (sy_cancelled s')"
      by (rule pinger_stepE) (auto simp: sys_reset_serial dest: subsetD [OF sys_reset_serial(3)] split: step_splits)
    then show ?case by (rule frame)
  next
    case (8 t x)
    then have "call_step env t (sy_calls s ! t) x s = Some s'" by (simp split: if_splits)
    then have "serial_view s' = serial_view s \<and> sy_readers s' = sy_readers s \<and> set (sy_cancelled s) \<subseteq> set (sy_cancelled s')"
      by (rule call_stepE)
        (auto simp: serial_view_client ws_register_def ws_unregister_def Let_def split: step_splits)
    then show ?case by (rule frame)
  next
    case 10
    obtain buf where buf: "wc_readCh (sy_client s) = Some buf" "length buf \<le> serial_reads_buffer" "map snd (sy_pushed s) = sy_handled s @ buf"
      using inv by (auto simp: serial_inv_def)
    obtain bs where bs: "sy_fn_calls s = concat bs" "list_all2 (\<lambda>d b. \<exists>fns. b = run_read_fns (we_panics env) fns d) (sy_handled s) bs"
      using inv by (auto simp: serial_inv_def)
    obtain d buf' where s': "buf = d # buf'" "s' = s\<lparr>sy_client := (sy_client s)\<lparr>wc_readCh := Some buf'\<rparr>, sy_handled := sy_handled s @ [d],
        sy_fn_calls := sy_fn_calls s @ run_read_fns (we_panics env) (wc_readFns (sy_client s)) d\<rparr>"
      using 10(2) buf(1) by (auto simp: serial_step_def split: if_splits list.splits)
    let ?b = "run_read_fns (we_panics env) (wc_readFns (sy_client s)) d"
    have "held s' = held s" by (simp add: s'(2) held_def fun_eq_iff)
    moreover have "sy_fn_calls s' = concat (bs @ [?b])"
      "list_all2 (\<lambda>d b. \<exists>fns. b = run_read_fns (we_panics env) fns d) (sy_handled s') (bs @ [?b])"
      using bs by (auto simp: s'(2) intro!: list_all2_appendI)
    ultimately show ?case
      using inv buf unfolding serial_inv_def
      by (intro conjI exI [of _ "bs @ [?b]"] exI [of _ buf']) (simp_all add: s')
  next
    case (11 j deliver)
    then show ?case by (intro frame) (auto simp: reply_step_def Let_def split: step_splits)
  qed (intro frame; simp split: if_splits)+
qed

lemma init_serial_inv: "wo_SerialReads opts \<Longrightarrow> serial_inv env (init_sys opts)"
  by (simp add: serial_inv_def init_sys_def new_ws_client_def Let_def held_def)

lemma run_serial_inv: "run_acts env xs (init_sys opts) = Some s \<Longrightarrow> wo_SerialReads opts \<Longrightarrow> serial_inv env s"
  by (rule run_acts_invariant [of "serial_inv env", OF act_serial_inv init_serial_inv])

text \<open>
  C21. With serial reads, whatever the goroutines, the callers and the network do, in any order: the
  channel never holds more than 512 events; the events that the serial processor has taken, followed by
  those in the channel, are the events that the readers put in, none lost or reordered; the calls of read
  functions are those for one event after the other, for each event until a function panics; and of each
  connection, the events put in are the first of its events in arrival order, all of them except possibly
  the last one, which its reader either still holds or has dropped after the connection was closed.
\<close>

theorem serial_reads_in_order:
  assumes "run_acts env xs (init_sys opts) = Some s" and "wo_SerialReads opts"
  shows "(\<exists>buf. wc_readCh (sy_client s) = Some buf \<and> length buf \<le> 512 \<and> map snd (sy_pushed s) = sy_handled s @ buf) \<and>
    (\<exists>bs. sy_fn_calls s = concat bs \<and>
       list_all2 (\<lambda>d b. \<exists>fns. b = run_read_fns (we_panics env) fns d) (sy_handled s) bs) \<and>
    (\<forall>g. prefix (of_conn g (sy_pushed s)) (of_conn g (sy_arrived s)) \<and>
       length (of_conn g (sy_arrived s)) \<le> Suc (length (of_conn g (sy_pushed s))) \<and>
       (of_conn g (sy_arrived s) \<noteq> of_conn g (sy_pushed s) \<longrightarrow>
          (\<exists>d. sy_readers s ! g = RPush d) \<or> wc_conn (sy_client s) \<noteq> Some g))"
proof -
  note inv = run_serial_inv [OF assms]
  have c: "wc_conn (sy_client s) \<noteq> Some g" if "g \<in> set (sy_cancelled s)" for g
    using run_conn_inv [OF assms(1)] that by (auto simp: conn_inv_def conn_view_def)
  have "prefix (of_conn g (sy_pushed s)) (of_conn g (sy_arrived s)) \<and>
       length (of_conn g (sy_arrived s)) \<le> Suc (length (of_conn g (sy_pushed s))) \<and>
       (of_conn g (sy_arrived s) \<noteq> of_conn g (sy_pushed s) \<longrightarrow>
          (\<exists>d. sy_readers s ! g = RPush d) \<or> wc_conn (sy_client s) \<noteq> Some g)" for g
  proof -
    obtain rest where r: "of_conn g (sy_arrived s) = of_conn g (sy_pushed s) @ rest" "held s g rest"
      using inv by (auto simp: serial_inv_def)
    have "length rest \<le> 1" "rest \<noteq> [] \<Longrightarrow> (\<exists>d. sy_readers s ! g = RPush d) \<or> g \<in> set (sy_cancelled s)"
      using r(2) by (cases "g < length (sy_readers s)"; cases "sy_readers s ! g"; simp add: held_def)+
    then show ?thesis using r(1) c by auto
  qed
  then show ?thesis using inv unfolding serial_inv_def by (simp add: serial_reads_buffer_def)
qed


text \<open>Runs to evaluate: data are pairs of a number and a payload, number 0 means none.\<close>

definition sample_ws_options :: "bool \<Rightarrow> ws_options" where
  "sample_ws_options serial = \<lparr>wo_URL = ''ws:'', wo_URLFunc = False, wo_ReadLimit = 0, wo_PingInterval = 0, wo_Cron = False,
     wo_RecoveryFunc = None, wo_SerialReads = serial\<rparr>"

definition sample_env :: "(64 word \<times> nat) ws_env" where
  "sample_env = \<lparr>we_id_of = fst, we_set_id = (\<lambda>i d. (i, snd d)), we_close_status = (\<lambda>_. -1), we_panics = (\<lambda>_ d. snd d = 13)\<rparr>"

definition sample_events :: "(64 word \<times> nat) action list" where
  "sample_events = [AOnRead 1, AOnRead 2, AOpen (Inr '''') None,
     AReader 0 RTop, AReader 0 (RResult (Inr (0, 13))), AReader 0 RRoute, AReader 0 RSend, ASerial,
     AReader 0 RTop, AReader 0 (RResult (Inr (0, 5))), AReader 0 RRoute, AReader 0 RSend,
     AReader 0 RTop, AReader 0 (RResult (Inr (0, 6))), AReader 0 RRoute, AClose, AReader 0 RDone, ASerial]"

theorem serial_reads_in_order_witness:
  "\<exists>s. run_acts sample_env sample_events (init_sys (sample_ws_options True)) = Some s \<and>
     sy_handled s = [(0, 13), (0, 5)] \<and> sy_fn_calls s = [(1, (0, 13)), (1, (0, 5)), (2, (0, 5))] \<and>
     prefix (of_conn 0 (sy_pushed s)) (of_conn 0 (sy_arrived s)) \<and> of_conn 0 (sy_arrived s) \<noteq> of_conn 0 (sy_pushed s)"
proof -
  have e: "map_option (\<lambda>s. (sy_handled s, sy_fn_calls s, of_conn 0 (sy_arrived s) = of_conn 0 (sy_pushed s)))
      (run_acts sample_env sample_events (init_sys (sample_ws_options True))) =
      Some ([(0, 13), (0, 5)], [(1, (0, 13)), (1, (0, 5)), (2, (0, 5))], False)"
    by code_simp
  then obtain s where s: "run_acts sample_env sample_events (init_sys (sample_ws_options True)) = Some s"
    by (cases "run_acts sample_env sample_events (init_sys (sample_ws_options True))") simp_all
  have "prefix (of_conn 0 (sy_pushed s)) (of_conn 0 (sy_arrived s))"
    using serial_reads_in_order [OF s] by (simp add: sample_ws_options_def)
  with e s show ?thesis by simp
qed


section \<open>Responses\<close>

text \<open>The number of a call's request, once it has one.\<close>

fun call_id :: "'j call_state \<Rightarrow> 64 word option" where
  "call_id (CMarshalled raw) = None"
| "call_id (CWriting w data) = w"
| "call_id (CAwaiting i) = Some i"
| "call_id (CCleaning i res) = Some i"
| "call_id (CReturned w res) = w"

text \<open>What is written for a request carries its number; what a call got as its response, too.\<close>

fun call_ok :: "'j ws_env \<Rightarrow> 'j call_state \<Rightarrow> bool" where
  "call_ok env (CWriting (Some i) data) \<longleftrightarrow> we_id_of env data = i"
| "call_ok env (CCleaning i (Inr data)) \<longleftrightarrow> we_id_of env data = i"
| "call_ok env (CReturned w (Inr (Some data))) \<longleftrightarrow> w = Some (we_id_of env data)"
| "call_ok env st \<longleftrightarrow> True"

definition resp_inv :: "'j ws_env \<Rightarrow> 'j sys \<Rightarrow> bool" where
  "resp_inv env s \<longleftrightarrow>
     (\<forall>i t. gm_get (wc_respFns (sy_client s)) i = Some t \<longrightarrow> t < length (sy_calls s) \<and> call_id (sy_calls s ! t) = Some i) \<and>
     (\<forall>t d. (t, d) \<in> set (sy_replies s) \<longrightarrow> t < length (sy_calls s) \<and> call_id (sy_calls s ! t) = Some (we_id_of env d)) \<and>
     (\<forall>st \<in> set (sy_calls s). call_ok env st)"

text \<open>Steps that change one call, keep its number, register nothing and start no response goroutine.\<close>

lemma resp_inv_frame:
  assumes inv: "resp_inv env s"
    and calls: "sy_calls s' = sy_calls s \<or> sy_calls s' = (sy_calls s)[t := st] \<and>
      (call_id (sy_calls s ! t) \<noteq> None \<longrightarrow> call_id st = call_id (sy_calls s ! t)) \<and> call_ok env st"
    and fns: "wc_respFns (sy_client s') = wc_respFns (sy_client s) \<or> wc_respFns (sy_client s') = [] \<or>
      (\<exists>i. wc_respFns (sy_client s') = gm_del (wc_respFns (sy_client s)) i)"
    and replies: "set (sy_replies s') \<subseteq> set (sy_replies s)"
  shows "resp_inv env s'"
proof -
  have len: "length (sy_calls s') = length (sy_calls s)" using calls by auto
  have id: "call_id (sy_calls s' ! u) = Some i" if "call_id (sy_calls s ! u) = Some i" "u < length (sy_calls s)" for u i
    using calls that by (cases "t = u") auto
  have get: "gm_get (wc_respFns (sy_client s)) i = Some u" if "gm_get (wc_respFns (sy_client s')) i = Some u" for i u
    using fns that by (auto split: if_splits)
  have ok: "call_ok env st'" if "st' \<in> set (sy_calls s')" for st'
  proof -
    have "st' \<in> set (sy_calls s) \<or> st' = st \<and> call_ok env st"
      using calls that set_update_subset_insert [of "sy_calls s" t st] by auto
    then show ?thesis using inv by (auto simp: resp_inv_def)
  qed
  show ?thesis unfolding resp_inv_def
  proof (intro conjI allI impI ballI)
    fix i u
    assume "gm_get (wc_respFns (sy_client s')) i = Some u"
    from get [OF this] have "u < length (sy_calls s) \<and> call_id (sy_calls s ! u) = Some i" using inv by (simp add: resp_inv_def)
    then show "u < length (sy_calls s')" "call_id (sy_calls s' ! u) = Some i" using len id by simp_all
  next
    fix u d
    assume "(u, d) \<in> set (sy_replies s')"
    then have "u < length (sy_calls s) \<and> call_id (sy_calls s ! u) = Some (we_id_of env d)"
      using replies inv by (auto simp: resp_inv_def)
    then show "u < length (sy_calls s')" "call_id (sy_calls s' ! u) = Some (we_id_of env d)" using len id by simp_all
  qed (rule ok)
qed

lemma sys_reset_resp: "wc_respFns (sy_client (sys_reset s)) = wc_respFns (sy_client s) \<or> wc_respFns (sy_client (sys_reset s)) = []"
  by (simp add: sys_reset_def ws_reset_def Let_def split: option.split)

lemma set_reader_resp [simp]:
  "sy_calls (set_reader g r s) = sy_calls s" "sy_replies (set_reader g r s) = sy_replies s"
  "sy_calls (set_writer g w s) = sy_calls s" "sy_replies (set_writer g w s) = sy_replies s"
  "sy_calls (set_pinger g p s) = sy_calls s" "sy_replies (set_pinger g p s) = sy_replies s"
  "sy_calls (set_call t st s) = (sy_calls s)[t := st]" "sy_replies (set_call t st s) = sy_replies s"
  by (simp_all add: set_defs)

lemma call_ok_nth: "resp_inv env s \<Longrightarrow> t < length (sy_calls s) \<Longrightarrow> call_ok env (sy_calls s ! t)"
  by (simp add: resp_inv_def)

lemma reader_step_resp:
  assumes inv: "resp_inv env s" and "ws_reader_step env g st x s = Some s'"
  shows "resp_inv env s'"
  using assms(2)
proof (rule reader_stepE, goal_cases)
  case (4 data)
  show ?case
  proof (cases "ws_route (we_id_of env) (sy_client s) data")
    case (ToCaller t)
    then have "gm_get (wc_respFns (sy_client s)) (we_id_of env data) = Some t"
      by (auto simp: ws_route_def Let_def split: option.splits if_splits)
    then have "t < length (sy_calls s) \<and> call_id (sy_calls s ! t) = Some (we_id_of env data)"
      using inv by (simp add: resp_inv_def)
    then show ?thesis using inv 4(3) ToCaller unfolding resp_inv_def by auto
  qed (use 4(3) in \<open>auto intro!: resp_inv_frame [OF inv]\<close>)
qed (use sys_reset_resp [of s] in \<open>auto simp: sys_reset_serial split: step_splits intro!: resp_inv_frame [OF inv]\<close>)

lemma writer_step_resp:
  assumes inv: "resp_inv env s" and "writer_step env g st x s = Some s'"
  shows "resp_inv env s'"
  using assms(2)
proof (rule writer_stepE, goal_cases)
  case (2 t)
  then obtain w data where c: "t < length (sy_calls s)" "sy_calls s ! t = CWriting w data"
    "s' = set_writer g (WGot data) (set_call t (case w of None \<Rightarrow> CReturned None (Inr None) | Some i \<Rightarrow> CAwaiting i) s)"
    by (auto split: step_splits)
  show ?case
    unfolding c(3)
    by (rule resp_inv_frame [OF inv, where t = t and st = "case w of None \<Rightarrow> CReturned None (Inr None) | Some i \<Rightarrow> CAwaiting i"])
      (use c in \<open>auto split: option.splits\<close>)
qed (use sys_reset_resp [of s] in \<open>auto simp: sys_reset_serial split: step_splits intro!: resp_inv_frame [OF inv]\<close>)

lemma pinger_step_resp:
  assumes inv: "resp_inv env s" and "pinger_step env g st x s = Some s'"
  shows "resp_inv env s'"
  using assms(2)
  by (rule pinger_stepE)
    (use sys_reset_resp [of s] in \<open>auto simp: sys_reset_serial split: step_splits intro!: resp_inv_frame [OF inv]\<close>)


lemma call_step_resp:
  assumes inv: "resp_inv env s" and law: "\<forall>i d. we_id_of env (we_set_id env i d) = i"
    and t: "t < length (sy_calls s)" and st: "call_step env t (sy_calls s ! t) x s = Some s'"
  shows "resp_inv env s'"
  using st
proof (rule call_stepE, goal_cases)
  case (1 raw)
  let ?i = "wc_nextID (sy_client s)"
  let ?st = "CWriting (Some ?i) (we_set_id env ?i raw)"
  have s': "s' = set_call t ?st s\<lparr>sy_client := snd (ws_register t (sy_client s))\<rparr>"
    using 1(3) by (simp add: ws_register_def Let_def)
  have "resp_inv env (set_call t ?st s)"
    by (rule resp_inv_frame [OF inv, where t = t and st = ?st]) (use 1(1) law in auto)
  moreover have "call_id (sy_calls (set_call t ?st s) ! t) = Some ?i" using t by simp
  ultimately show ?case
    using t unfolding s' resp_inv_def by (simp add: ws_register_def Let_def)
next
  case (2 w data)
  then obtain err where "s' = set_call t (case w of None \<Rightarrow> CReturned None (Inl err) | Some i \<Rightarrow> CCleaning i (Inl err)) s"
    by (auto split: option.splits)
  with 2(1) show ?case
    by (intro resp_inv_frame [OF inv, where t = t and
          st = "case w of None \<Rightarrow> CReturned None (Inl err) | Some i \<Rightarrow> CCleaning i (Inl err)"])
      (auto split: option.splits)
next
  case (3 i)
  then obtain err where "s' = set_call t (CCleaning i (Inl err)) s"
    by (auto split: option.splits)
  with 3(1) show ?case
    by (intro resp_inv_frame [OF inv, where t = t and st = "CCleaning i (Inl err)"]) auto
next
  case (4 i res)
  have "call_ok env (CReturned (Some i) (map_sum (\<lambda>e. e) Some res))"
    using call_ok_nth [OF inv t] 4(1) by (cases res) auto
  with 4 show ?case
    by (intro resp_inv_frame [OF inv, where t = t and st = "CReturned (Some i) (map_sum (\<lambda>e. e) Some res)"])
      (auto simp: ws_unregister_def)
qed

lemma set_remove_nth: "set (remove_nth j xs) \<subseteq> set xs"
  by (auto simp: remove_nth_def dest: in_set_takeD in_set_dropD)

lemma reply_step_resp:
  assumes inv: "resp_inv env s" and "reply_step j deliver s = Some s'"
  shows "resp_inv env s'"
proof -
  obtain t data where r: "j < length (sy_replies s)" "sy_replies s ! j = (t, data)"
    using assms(2) by (cases "sy_replies s ! j") (auto simp: reply_step_def split: if_splits)
  then have mem: "(t, data) \<in> set (sy_replies s)" by (metis nth_mem)
  show ?thesis
  proof (cases deliver)
    case True
    then obtain i where c: "t < length (sy_calls s)" "sy_calls s ! t = CAwaiting i"
      "s' = set_call t (CCleaning i (Inr data)) (s\<lparr>sy_replies := remove_nth j (sy_replies s)\<rparr>)"
      using assms(2) r by (auto simp: reply_step_def Let_def split: if_splits call_state.splits)
    have "we_id_of env data = i" using inv mem c(2) by (fastforce simp: resp_inv_def)
    then show ?thesis
      unfolding c(3) using c(2) set_remove_nth [of j "sy_replies s"]
      by (intro resp_inv_frame [OF inv, where t = t and st = "CCleaning i (Inr data)"]) (auto simp: set_call_def)
  next
    case False
    then have "s' = s\<lparr>sy_replies := remove_nth j (sy_replies s)\<rparr>"
      using assms(2) r by (auto simp: reply_step_def Let_def split: if_splits)
    then show ?thesis
      using set_remove_nth [of j "sy_replies s"] by (intro resp_inv_frame [OF inv]) auto
  qed
qed

lemma act_resp_inv:
  assumes law: "\<forall>i d. we_id_of env (we_set_id env i d) = i" and inv: "resp_inv env s" and a: "act env x s = Some s'"
  shows "resp_inv env s'"
  using a
proof (rule actE, goal_cases)
  case (1 url_res dial_err)
  then show ?case using sys_open_serial [of url_res dial_err s] by (intro resp_inv_frame [OF inv]) simp_all
next
  case 2
  then show ?case using sys_reset_serial [of s] sys_reset_resp [of s] by (intro resp_inv_frame [OF inv]) auto
next
  case (3 fn)
  then show ?case by (intro resp_inv_frame [OF inv]) (simp_all add: ws_on_read_def)
next
  case (4 g x)
  then show ?case using reader_step_resp [OF inv, of g _ x s'] by (simp split: if_splits)
next
  case (5 g x)
  then show ?case using writer_step_resp [OF inv, of g _ x s'] by (simp split: if_splits)
next
  case (6 g x)
  then show ?case using pinger_step_resp [OF inv, of g _ x s'] by (simp split: if_splits)
next
  case (7 request res)
  then have s': "s' = s\<lparr>sy_calls := sy_calls s @ [start_call request res s]\<rparr>" by simp
  have "call_ok env (start_call request res s)" by (auto simp: start_call_def split: sum.split)
  then show ?case using inv unfolding s' resp_inv_def by (fastforce simp: nth_append)
next
  case (8 t x)
  then show ?case using call_step_resp [OF inv law, of t x s'] by (simp split: if_splits)
next
  case (9 t err)
  then show ?case by (intro resp_inv_frame [OF inv]) (simp_all split: if_splits)
next
  case 10
  then show ?case by (intro resp_inv_frame [OF inv]) (auto simp: serial_step_def split: step_splits)
next
  case (11 j deliver)
  then show ?case using reply_step_resp [OF inv] by simp
qed

lemma run_resp_inv:
  assumes "run_acts env xs (init_sys opts) = Some s" and "\<forall>i d. we_id_of env (we_set_id env i d) = i"
  shows "resp_inv env s"
proof -
  have "resp_inv env (init_sys opts)"
    by (simp add: resp_inv_def init_sys_def new_ws_client_def Let_def)
  from run_acts_invariant [where P = "resp_inv env", OF _ this assms(1)] act_resp_inv [OF assms(2)]
  show "resp_inv env s" by metis
qed

text \<open>
  C22. A response belongs to its request. In every run, if \<open>Send\<close> returns a response, its \<open>id\<close> is the
  number of this call's request, and the message handed to the writer for it had the same \<open>id\<close>; a
  response is only ever handed to the call whose request has its number. (The number alone: across
  connections it does not identify the request, see \<open>stale_goroutines\<close>.) It is assumed that sjson sets
  what gjson reads.
\<close>

theorem response_has_request_id:
  assumes "run_acts env xs (init_sys opts) = Some s" and "\<forall>i d. we_id_of env (we_set_id env i d) = i"
    and "t < length (sy_calls s)"
  shows "(\<forall>w d. sy_calls s ! t = CReturned w (Inr (Some d)) \<longrightarrow> w = Some (we_id_of env d)) \<and>
    (\<forall>i d. sy_calls s ! t = CWriting (Some i) d \<longrightarrow> we_id_of env d = i) \<and>
    (\<forall>d. (t, d) \<in> set (sy_replies s) \<longrightarrow> call_id (sy_calls s ! t) = Some (we_id_of env d))"
proof -
  have inv: "resp_inv env s" using run_resp_inv [OF assms(1,2)] .
  then show ?thesis using call_ok_nth [OF inv assms(3)] by (auto simp: resp_inv_def)
qed

definition sample_request_acts :: "(64 word \<times> nat) action list" where
  "sample_request_acts = [AOpen (Inr '''') None, AStart True (Inr (0, 5)), ACall 0 Register, AWriter 0 (WTake 0), AWriter 0 WConn,
     AWriter 0 (WResult None), AReader 0 RTop, AReader 0 (RResult (Inr (1, 6))), AReader 0 RRoute, AReply 0 True, ACall 0 Clean]"

theorem response_has_request_id_witness:
  "\<exists>s w. run_acts sample_env sample_request_acts (init_sys (sample_ws_options False)) = Some s \<and>
     sy_calls s = [CReturned w (Inr (Some (1, 6)))] \<and> w = Some 1"
proof -
  have e: "map_option sy_calls (run_acts sample_env sample_request_acts (init_sys (sample_ws_options False))) =
      Some [CReturned (Some 1) (Inr (Some (1, 6)))]"
    by code_simp
  then obtain s where s: "run_acts sample_env sample_request_acts (init_sys (sample_ws_options False)) = Some s"
    by (cases "run_acts sample_env sample_request_acts (init_sys (sample_ws_options False))") simp_all
  have "\<forall>i d. we_id_of sample_env (we_set_id sample_env i d) = i" by (simp add: sample_env_def)
  from response_has_request_id [OF s this, of 0] e s show ?thesis by (simp add: sample_env_def)
qed


section \<open>Who closes a connection\<close>

lemma reader_step_conn:
  "ws_reader_step env g st x s = Some s' \<Longrightarrow> (st = RDefer \<and> x = RDeferred) \<or> wc_conn (sy_client s') = wc_conn (sy_client s)"
  by (erule reader_stepE) (auto split: step_splits)

lemma writer_step_conn:
  "writer_step env g st x s = Some s' \<Longrightarrow> (st = WDefer \<and> x = WDeferred) \<or> wc_conn (sy_client s') = wc_conn (sy_client s)"
  by (erule writer_stepE) (auto split: step_splits)

lemma pinger_step_conn:
  "pinger_step env g st x s = Some s' \<Longrightarrow> (st = PDefer \<and> x = PDeferred) \<or> wc_conn (sy_client s') = wc_conn (sy_client s)"
  by (erule pinger_stepE) (auto split: step_splits)

lemma call_step_conn: "call_step env t st x s = Some s' \<Longrightarrow> wc_conn (sy_client s') = wc_conn (sy_client s)"
  by (erule call_stepE) (auto simp: ws_register_def ws_unregister_def Let_def split: step_splits)

lemma sys_open_conn: "wc_conn (sy_client s) = Some g \<Longrightarrow> wc_conn (sy_client (sys_open url_res dial_err s)) = Some g"
  by (simp add: sys_open_def ws_open_def ws_is_open_def Let_def)

text \<open>The open connection is the last one that was opened.\<close>

definition last_conn :: "'j sys \<Rightarrow> bool" where
  "last_conn s \<longleftrightarrow> conn_inv s \<and> (\<forall>k. wc_conn (sy_client s) = Some k \<longrightarrow> Suc k = length (sy_readers s))"

lemma act_last_conn:
  assumes "last_conn s" and "act env x s = Some s'"
  shows "last_conn s'"
proof -
  have ws: "ws_inv (sy_client s)" using assms(1) by (simp add: last_conn_def conn_inv_def)
  from act_conn_view [OF assms(2)] consider "conn_view s' = conn_view s" | "conn_view s' = conn_view (sys_reset s)"
    | url_res dial_err where "conn_view s' = conn_view (sys_open url_res dial_err s)" by blast
  then have "\<forall>k. wc_conn (sy_client s') = Some k \<longrightarrow> Suc k = length (sy_readers s')"
  proof cases
    case 3
    with sys_open_view [of url_res dial_err s] show ?thesis
      using assms(1) by (auto simp: last_conn_def conn_view_def)
  qed (use assms(1) sys_reset_view [OF ws] in \<open>auto simp: last_conn_def conn_view_def\<close>)
  then show ?thesis using act_conn_inv [OF _ assms(2)] assms(1) by (simp add: last_conn_def)
qed

lemma run_last_conn:
  assumes "run_acts env xs (init_sys opts) = Some s" and "wc_conn (sy_client s) = Some g"
  shows "length (sy_readers s) = Suc g"
proof -
  have "last_conn (init_sys opts)"
    by (simp only: last_conn_def init_conn_inv) (simp add: init_sys_def new_ws_client_def Let_def)
  from run_acts_invariant [where P = last_conn, OF act_last_conn this assms(1)] assms(2)
  show ?thesis by (simp add: last_conn_def)
qed

text \<open>
  C23. Who closes a connection. As long as all goroutines of earlier connections are gone, the open
  connection is closed by nothing but \<open>Close\<close> and the deferred resets of its own three goroutines.
  (Without the condition a goroutine of an earlier connection may close it, see \<open>stale_goroutines\<close>.)
\<close>

theorem connection_closed_by:
  assumes "run_acts env xs (init_sys opts) = Some s" and "wc_conn (sy_client s) = Some g"
    and "\<forall>h < g. sy_readers s ! h = RGone \<and> sy_writers s ! h = WGone \<and> sy_pingers s ! h = PGone"
    and "act env x s = Some s'" and "wc_conn (sy_client s') \<noteq> Some g"
  shows "x = AClose \<or> x = AReader g RDeferred \<or> x = AWriter g WDeferred \<or> x = APinger g PDeferred"
proof -
  have "conn_inv s" using run_conn_inv [OF assms(1)] .
  then have len: "length (sy_readers s) = Suc g" "length (sy_writers s) = Suc g" "length (sy_pingers s) = Suc g"
    using run_last_conn [OF assms(1,2)] by (simp_all add: conn_inv_def conn_view_def)
  from assms(4) show ?thesis
  proof (rule actE, goal_cases)
    case (1 url_res dial_err)
    then show ?case using sys_open_conn [OF assms(2)] assms(5) by simp
  next
    case (4 h y)
    then have "h < Suc g" "ws_reader_step env h (sy_readers s ! h) y s = Some s'" using len by (simp_all split: if_splits)
    then show ?case using reader_step_conn [of env h _ y s s'] assms(2,3,5) 4(1) by (auto simp: less_Suc_eq)
  next
    case (5 h y)
    then have "h < Suc g" "writer_step env h (sy_writers s ! h) y s = Some s'" using len by (simp_all split: if_splits)
    then show ?case using writer_step_conn [of env h _ y s s'] assms(2,3,5) 5(1) by (auto simp: less_Suc_eq)
  next
    case (6 h y)
    then have "h < Suc g" "pinger_step env h (sy_pingers s ! h) y s = Some s'" using len by (simp_all split: if_splits)
    then show ?case using pinger_step_conn [of env h _ y s s'] assms(2,3,5) 6(1) by (auto simp: less_Suc_eq)
  next
    case (8 t y)
    then have "wc_conn (sy_client s') = Some g" using call_step_conn [of env t _ y s s'] assms(2) by (simp split: if_splits)
    then show ?case using assms(5) by simp
  qed (use assms(2,5) in \<open>auto simp: serial_step_def reply_step_def ws_on_read_def Let_def split: step_splits\<close>)
qed

definition sample_reopen_acts :: "(64 word \<times> nat) action list" where
  "sample_reopen_acts = [AOpen (Inr '''') None, AReader 0 RTop, AReader 0 (RResult (Inl (Plain NetClosed))), AReader 0 RDeferred,
     AWriter 0 WDone, AWriter 0 WDeferred, APinger 0 PDone, APinger 0 PDeferred, AOpen (Inr '''') None,
     APinger 1 PTicked, APinger 1 PConn, APinger 1 (PResult (Some (Plain NetClosed)))]"

theorem connection_closed_by_witness:
  "\<exists>s s'. run_acts sample_env sample_reopen_acts (init_sys (sample_ws_options False)) = Some s \<and>
     act sample_env (APinger 1 PDeferred) s = Some s' \<and> wc_conn (sy_client s) = Some 1 \<and> wc_conn (sy_client s') = None \<and>
     (\<forall>x s''. act sample_env x s = Some s'' \<and> wc_conn (sy_client s'') \<noteq> Some 1 \<longrightarrow>
        x = AClose \<or> x = AReader 1 RDeferred \<or> x = AWriter 1 WDeferred \<or> x = APinger 1 PDeferred)"
proof -
  let ?run = "run_acts sample_env sample_reopen_acts (init_sys (sample_ws_options False))"
  have e: "map_option (\<lambda>s. (wc_conn (sy_client s), sy_readers s ! 0, sy_writers s ! 0, sy_pingers s ! 0,
      map_option (\<lambda>s'. wc_conn (sy_client s')) (act sample_env (APinger 1 PDeferred) s))) ?run =
      Some (Some 1, RGone, WGone, PGone, Some None)"
    by code_simp
  then obtain s where s: "?run = Some s" by (cases ?run) simp_all
  with e obtain s' where s': "act sample_env (APinger 1 PDeferred) s = Some s'" "wc_conn (sy_client s') = None" by auto
  have c: "wc_conn (sy_client s) = Some 1" using e s by simp
  have g: "\<forall>h < 1. sy_readers s ! h = RGone \<and> sy_writers s ! h = WGone \<and> sy_pingers s ! h = PGone"
    using e s by simp
  note r = connection_closed_by [OF s c g]
  show ?thesis using s s' c r by blast
qed


section \<open>Goroutines of earlier connections and requests\<close>

text \<open>The pinger of connection 0 notices its end, and the client is opened anew, while the reader of 0 is still reading.\<close>

definition reopened :: "(64 word \<times> nat) action list" where
  "reopened = [APinger 0 PTicked, APinger 0 PConn, APinger 0 (PResult (Some (Plain NetClosed))), APinger 0 PDeferred,
     AOpen (Inr '''') None]"

text \<open>A request on connection 0, given to its writer.\<close>

definition requested :: "nat \<Rightarrow> nat \<Rightarrow> nat \<Rightarrow> (64 word \<times> nat) action list" where
  "requested g t payload = [AStart True (Inr (0, payload)), ACall t Register, AWriter g (WTake t)]"

definition stale_reset :: "(64 word \<times> nat) action list" where
  "stale_reset = [AOpen (Inr '''') None, AReader 0 RTop] @ reopened @
     [AReader 1 RTop, AReader 0 (RResult (Inl (Plain NetClosed))), AReader 0 RDeferred]"

definition stale_removal :: "(64 word \<times> nat) action list" where
  "stale_removal = [AOnRead 1, AOpen (Inr '''') None] @ requested 0 0 5 @ reopened @ requested 1 1 6 @
     [ACancel 0 (Plain Canceled), ACall 0 CtxDone, ACall 0 Clean, AReader 1 RTop, AReader 1 (RResult (Inr (1, 60))), AReader 1 RRoute]"

definition stale_response :: "(64 word \<times> nat) action list" where
  "stale_response = [AOpen (Inr '''') None] @ requested 0 0 5 @ [AWriter 0 WConn, AWriter 0 (WResult None),
     AReader 0 RTop, AReader 0 (RResult (Inr (1, 50)))] @ reopened @ requested 1 1 6 @
     [AReader 0 RRoute, AReply 0 True, ACall 1 Clean]"


text \<open>A response goroutine whose call has already returned, with a context that is not done.\<close>

definition stuck :: "nat \<Rightarrow> 'j \<Rightarrow> 'j sys \<Rightarrow> bool" where
  "stuck t d s \<longleftrightarrow> (t, d) \<in> set (sy_replies s) \<and> gm_get (sy_done s) t = None \<and>
     t < length (sy_calls s) \<and> (\<exists>w r. sy_calls s ! t = CReturned w r)"

lemma stuck_frame:
  assumes "stuck t d s" and "set (sy_replies s) \<subseteq> set (sy_replies s')" and "sy_done s' = sy_done s"
    and "sy_calls s' = sy_calls s \<or> (\<exists>st. sy_calls s' = sy_calls s @ [st]) \<or> (\<exists>u st. u \<noteq> t \<and> sy_calls s' = (sy_calls s)[u := st])"
  shows "stuck t d s'"
  using assms by (auto simp: stuck_def nth_append)

lemma set_done [simp]:
  "sy_done (set_reader g r s) = sy_done s" "sy_done (set_writer g w s) = sy_done s"
  "sy_done (set_pinger g p s) = sy_done s" "sy_done (set_call t st s) = sy_done s"
  by (simp_all add: set_defs)

lemma in_remove_nth: "x \<in> set xs \<Longrightarrow> xs ! j \<noteq> x \<Longrightarrow> x \<in> set (remove_nth j xs)"
  by (induction xs arbitrary: j) (auto simp: remove_nth_def nth_Cons split: nat.splits)

lemma act_stuck:
  assumes st: "stuck t d s" and a: "act env x s = Some s'" and x: "\<forall>err. x \<noteq> ACancel t err"
  shows "stuck t d s'"
  using a
proof (rule actE, goal_cases)
  case (1 url_res dial_err)
  then show ?case using sys_open_serial [of url_res dial_err s] by (intro stuck_frame [OF st]) simp_all
next
  case 2
  then show ?case using sys_reset_serial [of s] by (intro stuck_frame [OF st]) simp_all
next
  case (3 fn)
  then show ?case by (intro stuck_frame [OF st]) simp_all
next
  case (4 g y)
  then have "ws_reader_step env g (sy_readers s ! g) y s = Some s'" by (simp split: if_splits)
  then show ?case
    by (rule reader_stepE) (auto simp: sys_reset_serial split: step_splits intro!: stuck_frame [OF st])
next
  case (5 g y)
  then have "writer_step env g (sy_writers s ! g) y s = Some s'" by (simp split: if_splits)
  then show ?case
  proof (rule writer_stepE, goal_cases)
    case (2 u)
    then have "u \<noteq> t" using st by (auto simp: stuck_def split: call_state.splits if_splits)
    moreover have "(\<exists>st. sy_calls s' = (sy_calls s)[u := st]) \<and> sy_replies s' = sy_replies s \<and> sy_done s' = sy_done s"
      using 2 by (auto split: step_splits)
    ultimately show ?case by (intro stuck_frame [OF st]) auto
  qed (auto simp: sys_reset_serial split: step_splits intro!: stuck_frame [OF st])
next
  case (6 g y)
  then have "pinger_step env g (sy_pingers s ! g) y s = Some s'" by (simp split: if_splits)
  then show ?case
    by (rule pinger_stepE) (auto simp: sys_reset_serial split: step_splits intro!: stuck_frame [OF st])
next
  case (7 request res)
  then show ?case by (intro stuck_frame [OF st]) simp_all
next
  case (8 u y)
  then have c: "call_step env u (sy_calls s ! u) y s = Some s'" by (simp split: if_splits)
  then have "u \<noteq> t" using st by (auto simp: stuck_def elim!: call_stepE)
  moreover have "(\<exists>st. sy_calls s' = (sy_calls s)[u := st]) \<and> sy_replies s' = sy_replies s \<and> sy_done s' = sy_done s"
    using c by (elim call_stepE) (auto simp: ws_register_def Let_def split: step_splits)
  ultimately show ?case by (intro stuck_frame [OF st]) auto
next
  case (9 u err)
  then have "u \<noteq> t" using x by auto
  then show ?case using 9 st by (auto simp: stuck_def split: if_splits)
next
  case 10
  then show ?case by (intro stuck_frame [OF st]) (auto simp: serial_step_def split: step_splits)
next
  case (11 j deliver)
  obtain u e where r: "j < length (sy_replies s)" "sy_replies s ! j = (u, e)"
    using 11(2) by (cases "sy_replies s ! j") (auto simp: reply_step_def split: if_splits)
  have s': "u \<noteq> t \<and> sy_done s' = sy_done s \<and> sy_replies s' = remove_nth j (sy_replies s) \<and>
      (sy_calls s' = sy_calls s \<or> (\<exists>st. sy_calls s' = (sy_calls s)[u := st]))"
    using 11(2) r st by (auto simp: reply_step_def stuck_def Let_def set_call_def split: step_splits)
  then have "sy_replies s ! j \<noteq> (t, d)" using r by auto
  then have "(t, d) \<in> set (sy_replies s')" using s' st in_remove_nth by (auto simp: stuck_def)
  then show ?case using s' st by (auto simp: stuck_def)
qed

definition answered_twice :: "(64 word \<times> nat) action list" where
  "answered_twice = [AOpen (Inr '''') None] @ requested 0 0 5 @
     [AReader 0 RTop, AReader 0 (RResult (Inr (1, 50))), AReader 0 RRoute,
      AReader 0 RTop, AReader 0 (RResult (Inr (1, 51))), AReader 0 RRoute, AReply 0 True, ACall 0 Clean]"

text \<open>
  A second response with the same \<open>id\<close>, read before the caller has removed its request, leaves a
  goroutine behind that can never end unless the caller's context is cancelled: \<open>Send\<close> has returned the
  first response and nobody receives the second, whatever happens afterwards. (\<open>Close\<close> waits for it.)
\<close>

lemma second_response_blocks:
  "\<exists>s. run_acts sample_env answered_twice (init_sys (sample_ws_options False)) = Some s \<and>
     sy_calls s = [CReturned (Some 1) (Inr (Some (1, 50)))] \<and>
     (\<forall>xs s'. (\<forall>err. ACancel 0 err \<notin> set xs) \<and> run_acts sample_env xs s = Some s' \<longrightarrow> (0, (1, 51)) \<in> set (sy_replies s'))"
proof -
  have e: "map_option (\<lambda>s. (sy_calls s, sy_replies s, sy_done s))
      (run_acts sample_env answered_twice (init_sys (sample_ws_options False))) =
      Some ([CReturned (Some 1) (Inr (Some (1, 50)))], [(0, (1, 51))], [])"
    by code_simp
  then obtain s where s: "run_acts sample_env answered_twice (init_sys (sample_ws_options False)) = Some s"
    "sy_calls s = [CReturned (Some 1) (Inr (Some (1, 50)))]" "sy_replies s = [(0, (1, 51))]" "sy_done s = []"
    by (auto simp: map_option_eq_Some)
  have "stuck 0 (1, 51) s'" if "stuck 0 (1, 51) s" "\<forall>err. ACancel 0 err \<notin> set xs" "run_acts sample_env xs s = Some s'" for xs s s'
    using that
  proof (induction xs arbitrary: s)
    case (Cons x xs)
    then show ?case using act_stuck [of 0 "(1, 51)" s sample_env x] by (auto split: option.splits)
  qed simp
  moreover have "stuck 0 (1, 51) s" using s by (simp add: stuck_def)
  ultimately show ?thesis using s(1,2) by (metis stuck_def)
qed

lemma second_response_blocks_witness:
  "\<exists>s s'. run_acts sample_env answered_twice (init_sys (sample_ws_options False)) = Some s \<and>
     run_acts sample_env [] s = Some s' \<and> (0, (1, 51)) \<in> set (sy_replies s')"
proof -
  from second_response_blocks obtain s where s: "run_acts sample_env answered_twice (init_sys (sample_ws_options False)) = Some s"
    "\<forall>xs s'. (\<forall>err. ACancel 0 err \<notin> set xs) \<and> run_acts sample_env xs s = Some s' \<longrightarrow> (0, (1, 51)) \<in> set (sy_replies s')"
    by (elim exE conjE) (rule that)
  have "(0, (1, 51)) \<in> set (sy_replies s)" using s(2) [rule_format, of "[]" s] by simp
  then show ?thesis using s(1) by simp
qed

section \<open>Well-formed states\<close>

text \<open>
  C25. In every state of every run the fields of the client fit together: the cancel function is that of
  the connection, which is the last one opened; each connection has had its reader, writer and pinger;
  exactly the contexts of the connections that are no longer open are cancelled; and the table of
  requests has each number once, with a call that exists and made the request under this number.
\<close>

theorem client_state_ok:
  assumes "run_acts env xs (init_sys opts) = Some s" and "\<forall>i d. we_id_of env (we_set_id env i d) = i"
  shows "wc_stop (sy_client s) = wc_conn (sy_client s) \<and>
    (\<forall>k. wc_conn (sy_client s) = Some k \<longrightarrow> length (sy_readers s) = Suc k) \<and>
    length (sy_writers s) = length (sy_readers s) \<and> length (sy_pingers s) = length (sy_readers s) \<and>
    set (sy_cancelled s) = {k. k < length (sy_readers s) \<and> wc_conn (sy_client s) \<noteq> Some k} \<and>
    distinct (gm_keys (wc_respFns (sy_client s))) \<and>
    (\<forall>i t. gm_get (wc_respFns (sy_client s)) i = Some t \<longrightarrow> t < length (sy_calls s) \<and> call_id (sy_calls s ! t) = Some i)"
proof -
  have "resp_inv env s" using run_resp_inv [OF assms] .
  moreover have "conn_inv s" using run_conn_inv [OF assms(1)] .
  ultimately show ?thesis
    using run_last_conn [OF assms(1)]
    by (simp add: conn_inv_def conn_view_def ws_inv_def resp_inv_def gm_wf_def gm_keys_def)
qed

theorem client_state_ok_witness:
  "\<exists>s. run_acts sample_env sample_request_acts (init_sys (sample_ws_options False)) = Some s \<and>
     set (sy_cancelled s) = {} \<and> wc_stop (sy_client s) = Some 0"
proof -
  have e: "map_option (\<lambda>s. (wc_conn (sy_client s), length (sy_readers s)))
      (run_acts sample_env sample_request_acts (init_sys (sample_ws_options False))) = Some (Some 0, 1)"
    by code_simp
  then obtain s where s: "run_acts sample_env sample_request_acts (init_sys (sample_ws_options False)) = Some s"
    by (cases "run_acts sample_env sample_request_acts (init_sys (sample_ws_options False))") simp_all
  have "\<forall>i d. we_id_of sample_env (we_set_id sample_env i d) = i" by (simp add: sample_env_def)
  from client_state_ok [OF s this] e s have "set (sy_cancelled s) = {k. k < 1 \<and> 0 \<noteq> k}" and st: "wc_stop (sy_client s) = Some 0"
    by simp_all
  note this(1)
  moreover have "{k :: nat. k < 1 \<and> 0 \<noteq> k} = {}" by auto
  ultimately have "set (sy_cancelled s) = {}" by (rule trans)
  with s st show ?thesis by simp
qed

end
