(* ===== verification/Time_Util.thy ===== *)
theory Time_Util
  imports Go_Prelude
begin

text \<open>
  Periodic execution and interruptible sleep (\<^verbatim>\<open>internal/timeutil/timeutil.go\<close>).

  The loop of \<^verbatim>\<open>PeriodicExec.Start\<close> is a state machine: it waits in one of its two \<^verbatim>\<open>select\<close>
  statements, and each case it can take there is an action. Time is an action too, in nanoseconds; it may
  pass in any state, so a run may be as late as a scheduler can make it. \<open>prompt\<close> singles out the runs in
  which the loop takes a case as soon as there is one. Instants are unbounded integers: the run-time
  saturates an instant that does not fit 64 bits. What the executed function does is the user's, it runs on
  a goroutine of its own; the supervisor that starts it is third-party code.
\<close>

section \<open>Timers\<close>

text \<open>
  A timer that was created or reset has an instant at which its channel becomes ready; a timer that was
  received from or stopped has none. \<^verbatim>\<open>Stop\<close> says whether there was something to stop, and leaves no
  stale value in the channel.
\<close>

type_synonym timer = "int option"

definition timer_ready :: "int \<Rightarrow> timer \<Rightarrow> bool" where
  "timer_ready now tm = (case tm of None \<Rightarrow> False | Some at \<Rightarrow> at \<le> now)"

definition timer_stop :: "timer \<Rightarrow> bool \<times> timer" where
  "timer_stop tm = (tm \<noteq> None, None)"

section \<open>The state\<close>

record periodic_exec =
  pe_repeatAfter :: int
  pe_cooldown :: int
  pe_fastStart :: bool

definition new_periodic_exec :: "int \<Rightarrow> int \<Rightarrow> bool \<Rightarrow> periodic_exec" where
  "new_periodic_exec repeatAfter cooldown fastStart =
     (let cooldown = (if cooldown > repeatAfter then repeatAfter else cooldown)
      in \<lparr>pe_repeatAfter = repeatAfter, pe_cooldown = cooldown, pe_fastStart = fastStart\<rparr>)"

text \<open>
  Outside of \<^verbatim>\<open>Start\<close>, in the select of the loop, or in the select of a cooldown that ends at an instant.
\<close>

datatype pe_phase = Idle | Waiting | Cooling timer

text \<open>
  \<open>pr_pending\<close> is the buffer of \<^verbatim>\<open>triggerCh\<close>, which has room for one element. \<open>pr_start\<close> and \<open>pr_execs\<close> record
  when the present call of \<^verbatim>\<open>Start\<close> began, and its executions, the last one first: the instant, and whether
  it was triggered.
\<close>

record pe_run =
  pr_now :: int
  pr_timer :: timer
  pr_pending :: bool
  pr_phase :: pe_phase
  pr_start :: int
  pr_execs :: "(int \<times> bool) list"

definition new_pe_run :: "int \<Rightarrow> pe_run" where
  "new_pe_run now = \<lparr>pr_now = now, pr_timer = None, pr_pending = False, pr_phase = Idle, pr_start = now, pr_execs = []\<rparr>"

section \<open>The steps\<close>

definition start_after :: "periodic_exec \<Rightarrow> int" where
  "start_after p = (if pe_fastStart p then 0 else pe_repeatAfter p)"

definition pe_start :: "periodic_exec \<Rightarrow> pe_run \<Rightarrow> pe_run" where
  "pe_start p s = s\<lparr>pr_timer := Some (pr_now s + start_after p), pr_phase := Waiting, pr_start := pr_now s, pr_execs := []\<rparr>"

text \<open>The local function \<^verbatim>\<open>stop\<close>: a timer that has expired is drained.\<close>

definition pe_stop_timer :: "pe_run \<Rightarrow> pe_run" where
  "pe_stop_timer s =
     (let (active, tm) = timer_stop (pr_timer s)
      in if \<not> active then (if timer_ready (pr_now s) tm then s\<lparr>pr_timer := None\<rparr> else s\<lparr>pr_timer := tm\<rparr>)
         else s\<lparr>pr_timer := tm\<rparr>)"

text \<open>The body of the loop after the first select: execute, and reset the timer.\<close>

definition pe_exec :: "periodic_exec \<Rightarrow> bool \<Rightarrow> pe_run \<Rightarrow> pe_run" where
  "pe_exec p trg s = s\<lparr>pr_execs := (pr_now s, trg) # pr_execs s, pr_timer := Some (pr_now s + pe_repeatAfter p)\<rparr>"

definition pe_trigger :: "pe_run \<Rightarrow> pe_run" where
  "pe_trigger s = (if pr_pending s then s else s\<lparr>pr_pending := True\<rparr>)"

text \<open>
  The cases are taken only when their channels are ready. \<^verbatim>\<open>Stop\<close> hands its value over without a buffer, so
  it waits as long as the loop does not receive it, for ever when there is no loop.
\<close>

datatype pe_act = Elapse int | CallStart | CallTrigger | TimerCase | TriggerCase | CooldownCase | StopCase

fun pe_step :: "periodic_exec \<Rightarrow> pe_act \<Rightarrow> pe_run \<Rightarrow> pe_run option" where
  "pe_step p (Elapse d) s = (if 0 \<le> d then Some (s\<lparr>pr_now := pr_now s + d\<rparr>) else None)"
| "pe_step p CallStart s = (if pr_phase s = Idle then Some (pe_start p s) else None)"
| "pe_step p CallTrigger s = Some (pe_trigger s)"
| "pe_step p TimerCase s =
     (if pr_phase s = Waiting \<and> timer_ready (pr_now s) (pr_timer s)
      then Some (pe_exec p False (s\<lparr>pr_timer := None\<rparr>)) else None)"
| "pe_step p TriggerCase s =
     (if pr_phase s = Waiting \<and> pr_pending s
      then Some ((pe_exec p True (pe_stop_timer (s\<lparr>pr_pending := False\<rparr>)))\<lparr>pr_phase := Cooling (Some (pr_now s + pe_cooldown p))\<rparr>)
      else None)"
| "pe_step p CooldownCase s =
     (case pr_phase s of
        Cooling tm \<Rightarrow> if timer_ready (pr_now s) tm then Some (s\<lparr>pr_phase := Waiting\<rparr>) else None
      | _ \<Rightarrow> None)"
| "pe_step p StopCase s =
     (case pr_phase s of
        Idle \<Rightarrow> None
      | Waiting \<Rightarrow> Some (pe_stop_timer (s\<lparr>pr_phase := Idle\<rparr>))
      | Cooling tm \<Rightarrow> Some (pe_stop_timer (s\<lparr>pr_phase := Idle\<rparr>)))"

fun pe_steps :: "periodic_exec \<Rightarrow> pe_act list \<Rightarrow> pe_run \<Rightarrow> pe_run option" where
  "pe_steps p [] s = Some s"
| "pe_steps p (x # xs) s = (case pe_step p x s of None \<Rightarrow> None | Some s' \<Rightarrow> pe_steps p xs s')"

text \<open>Prompt runs: time passes only up to the instant at which the loop can take a case by itself.\<close>

fun prompt_act :: "pe_act \<Rightarrow> pe_run \<Rightarrow> bool" where
  "prompt_act (Elapse d) s =
     (case pr_phase s of
        Idle \<Rightarrow> True
      | Waiting \<Rightarrow> d = 0 \<or> \<not> pr_pending s \<and> (case pr_timer s of None \<Rightarrow> True | Some at \<Rightarrow> pr_now s + d \<le> at)
      | Cooling tm \<Rightarrow> d = 0 \<or> (case tm of None \<Rightarrow> True | Some at \<Rightarrow> pr_now s + d \<le> at))"
| "prompt_act x s = True"

fun prompt :: "periodic_exec \<Rightarrow> pe_act list \<Rightarrow> pe_run \<Rightarrow> bool" where
  "prompt p [] s = True"
| "prompt p (x # xs) s = (prompt_act x s \<and> (case pe_step p x s of None \<Rightarrow> True | Some s' \<Rightarrow> prompt p xs s'))"

fun_cases pe_stepE: "pe_step p x s = Some s'"

lemma pe_steps_append:
  "pe_steps p (xs @ ys) s = (case pe_steps p xs s of None \<Rightarrow> None | Some s' \<Rightarrow> pe_steps p ys s')"
  by (induction xs arbitrary: s) (auto split: option.splits)

lemma pe_steps_invariant:
  assumes "\<And>x s s'. I s \<Longrightarrow> pe_step p x s = Some s' \<Longrightarrow> I s'"
  shows "pe_steps p xs s = Some s' \<Longrightarrow> I s \<Longrightarrow> I s'"
  by (induction xs arbitrary: s) (auto split: option.splits intro: assms)

lemma prompt_invariant:
  assumes "\<And>x s s'. I s \<Longrightarrow> x \<in> A \<Longrightarrow> prompt_act x s \<Longrightarrow> pe_step p x s = Some s' \<Longrightarrow> I s'"
  shows "pe_steps p xs s = Some s' \<Longrightarrow> prompt p xs s \<Longrightarrow> set xs \<subseteq> A \<Longrightarrow> I s \<Longrightarrow> I s'"
  by (induction xs arbitrary: s) (auto split: option.splits intro: assms)

lemma pe_stop_timer_eq [simp]: "pe_stop_timer s = s\<lparr>pr_timer := None\<rparr>"
  by (simp add: pe_stop_timer_def timer_stop_def)

lemma timer_ready_simps [simp]: "timer_ready now None = False" "timer_ready now (Some at) \<longleftrightarrow> at \<le> now"
  by (simp_all add: timer_ready_def)

lemmas pe_ops = pe_start_def pe_exec_def pe_trigger_def

section \<open>No execution comes too early\<close>

text \<open>
  The last execution first: one by the timer comes a whole period after the one before, and any comes a
  cooldown after a triggered one.
\<close>

fun gaps_ok :: "periodic_exec \<Rightarrow> int \<Rightarrow> (int \<times> bool) list \<Rightarrow> bool" where
  "gaps_ok p start [] = True"
| "gaps_ok p start [(t, trg)] = (start + (if trg then 0 else start_after p) \<le> t)"
| "gaps_ok p start ((t, trg) # (t', trg') # es) =
     ((\<not> trg \<longrightarrow> t' + pe_repeatAfter p \<le> t) \<and> (trg' \<longrightarrow> t' + pe_cooldown p \<le> t) \<and> t' \<le> t \<and> gaps_ok p start ((t', trg') # es))"

definition due :: "periodic_exec \<Rightarrow> pe_run \<Rightarrow> int" where
  "due p s = (case pr_execs s of [] \<Rightarrow> pr_start s + start_after p | (t, _) # es \<Rightarrow> t + pe_repeatAfter p)"

definition last_exec :: "pe_run \<Rightarrow> int" where
  "last_exec s = (case pr_execs s of [] \<Rightarrow> pr_start s | (t, _) # es \<Rightarrow> t)"

definition pe_inv :: "periodic_exec \<Rightarrow> pe_run \<Rightarrow> bool" where
  "pe_inv p s \<longleftrightarrow>
     gaps_ok p (pr_start s) (pr_execs s) \<and> last_exec s \<le> pr_now s \<and>
     (case pr_phase s of
        Idle \<Rightarrow> pr_timer s = None
      | Waiting \<Rightarrow> pr_timer s = Some (due p s) \<and>
          (case pr_execs s of (t, True) # es \<Rightarrow> t + pe_cooldown p \<le> pr_now s | _ \<Rightarrow> True)
      | Cooling tm \<Rightarrow> pr_timer s = Some (due p s) \<and>
          (case pr_execs s of (t, trg) # es \<Rightarrow> trg \<and> tm = Some (t + pe_cooldown p) | [] \<Rightarrow> False))"

lemma gaps_ok_Cons:
  "gaps_ok p start ((t, trg) # es) \<longleftrightarrow>
     (case es of [] \<Rightarrow> start + (if trg then 0 else start_after p) \<le> t
      | (t', trg') # es' \<Rightarrow> (\<not> trg \<longrightarrow> t' + pe_repeatAfter p \<le> t) \<and> (trg' \<longrightarrow> t' + pe_cooldown p \<le> t) \<and> t' \<le> t \<and> gaps_ok p start es)"
  by (auto split: list.splits)

lemma pe_inv_step: "pe_inv p s \<Longrightarrow> pe_step p x s = Some s' \<Longrightarrow> pe_inv p s'"
proof (erule pe_stepE, goal_cases)
  case (1 d)
  then show ?case
    by (auto simp: pe_inv_def due_def last_exec_def split: if_splits pe_phase.splits list.splits bool.splits)
next
  case 2
  then show ?case by (auto simp: pe_inv_def pe_start_def due_def last_exec_def split: if_splits)
next
  case 3
  then show ?case
    by (auto simp: pe_inv_def pe_trigger_def due_def last_exec_def split: if_splits pe_phase.splits list.splits)
next
  case 4
  then show ?case
    by (cases "pr_execs s")
      (auto simp: pe_inv_def pe_exec_def gaps_ok_Cons due_def last_exec_def split: if_splits list.splits bool.splits)
next
  case 5
  then show ?case
    by (cases "pr_execs s")
      (auto simp: pe_inv_def pe_exec_def gaps_ok_Cons due_def last_exec_def split: if_splits list.splits bool.splits)
next
  case 6
  then show ?case
    by (auto simp: pe_inv_def due_def last_exec_def split: if_splits pe_phase.splits list.splits bool.splits)
next
  case 7
  then show ?case by (auto simp: pe_inv_def last_exec_def split: pe_phase.splits list.splits)
qed

lemma pe_inv_new: "pe_inv p (new_pe_run now)"
  by (simp add: pe_inv_def new_pe_run_def last_exec_def)

lemma pe_inv_steps: "pe_steps p xs s = Some s' \<Longrightarrow> pe_inv p s \<Longrightarrow> pe_inv p s'"
  by (rule pe_steps_invariant [where I = "pe_inv p"]) (rule pe_inv_step)

definition timed_execs :: "(int \<times> bool) list \<Rightarrow> nat" where
  "timed_execs es = length (filter (\<lambda>(t, trg). \<not> trg) es)"

definition triggered_execs :: "(int \<times> bool) list \<Rightarrow> nat" where
  "triggered_execs es = length (filter (\<lambda>(t, trg). trg) es)"

lemma exec_counts [simp]:
  "timed_execs [] = 0" "timed_execs ((t, trg) # es) = (if trg then 0 else 1) + timed_execs es"
  "triggered_execs [] = 0" "triggered_execs ((t, trg) # es) = (if trg then 1 else 0) + triggered_execs es"
  by (simp_all add: timed_execs_def triggered_execs_def)

lemma length_execs: "length es = timed_execs es + triggered_execs es"
  by (induction es) auto

lemma timed_execs_time:
  "gaps_ok p start es \<Longrightarrow> 0 \<le> pe_repeatAfter p \<Longrightarrow> es = (t, trg) # es' \<Longrightarrow>
   start + int (timed_execs es) * pe_repeatAfter p \<le> t + (if pe_fastStart p then pe_repeatAfter p else 0)"
proof (induction p start es arbitrary: t trg es' rule: gaps_ok.induct)
  case (2 p start t' trg')
  then show ?case by (auto simp: start_after_def)
next
  case (3 p start t1 trg1 t2 trg2 es)
  have "start + int (timed_execs ((t2, trg2) # es)) * pe_repeatAfter p \<le> t2 + (if pe_fastStart p then pe_repeatAfter p else 0)"
    using 3(1) [OF _ 3(3) refl] 3(2) by simp
  then show ?case using 3(2-4) by (auto simp: algebra_simps split: if_splits)
qed simp

lemma triggered_execs_steps:
  assumes "pe_steps p xs s = Some s'"
  shows "triggered_execs (pr_execs s') + of_bool (pr_pending s') \<le>
    count_list xs CallTrigger + triggered_execs (pr_execs s) + of_bool (pr_pending s)"
  using assms
proof (induction xs arbitrary: s)
  case (Cons x xs)
  then obtain u where u: "pe_step p x s = Some u" "pe_steps p xs u = Some s'" by (auto split: option.splits)
  have "triggered_execs (pr_execs u) + of_bool (pr_pending u) \<le>
    (if x = CallTrigger then 1 else 0) + triggered_execs (pr_execs s) + of_bool (pr_pending s)"
    using u(1) by (cases x) (auto simp: pe_ops split: if_splits pe_phase.splits)
  then show ?case using Cons.IH [OF u(2)] by auto
qed simp

text \<open>
  C33. No execution comes too early, however late the loop is scheduled. In any run, an execution by the
  timer comes at least a whole period after the execution before it, any execution comes at least a
  cooldown after a triggered one, and the first one by the timer a whole period after the start, or at
  once with the fast start; no execution is in the future.
\<close>

theorem executions_spaced:
  assumes "pe_steps p xs (new_pe_run t0) = Some s"
  shows "gaps_ok p (pr_start s) (pr_execs s) \<and> last_exec s \<le> pr_now s"
  using pe_inv_steps [OF assms pe_inv_new] by (simp add: pe_inv_def)

definition sample_pe :: periodic_exec where
  "sample_pe = new_periodic_exec 30 40 False"

text \<open>The timer is late, two triggers are merged into one, and the next period starts at the triggered execution.\<close>

definition sample_pe_acts :: "pe_act list" where
  "sample_pe_acts = [CallStart, Elapse 35, TimerCase, Elapse 5, CallTrigger, CallTrigger, TriggerCase, Elapse 30, CooldownCase, TimerCase]"

theorem executions_spaced_witness:
  "\<exists>s. pe_steps sample_pe sample_pe_acts (new_pe_run 0) = Some s \<and>
     pr_execs s = [(70, False), (40, True), (35, False)] \<and> gaps_ok sample_pe (pr_start s) (pr_execs s)"
proof -
  have "map_option pr_execs (pe_steps sample_pe sample_pe_acts (new_pe_run 0)) = Some [(70, False), (40, True), (35, False)]"
    by code_simp
  then obtain s where s: "pe_steps sample_pe sample_pe_acts (new_pe_run 0) = Some s"
    "pr_execs s = [(70, False), (40, True), (35, False)]" by (auto simp: map_option_eq_Some)
  then show ?thesis using executions_spaced [OF s(1)] by auto
qed

text \<open>
  The loop does not spin. With a positive period, the number of executions of a call of Start is at
  most the number of calls of Trigger, plus one for each period that has passed, plus one for the fast
  start: in a bounded time there are only finitely many, for every schedule and any number of triggers
  that come too fast.
\<close>

lemma executions_bounded:
  assumes "0 < pe_repeatAfter p" and "pe_steps p xs (new_pe_run t0) = Some s"
  shows "length (pr_execs s) \<le>
    count_list xs CallTrigger + nat ((pr_now s - pr_start s) div pe_repeatAfter p) + (if pe_fastStart p then 1 else 0)"
proof -
  let ?R = "pe_repeatAfter p"
  have inv: "pe_inv p s" using pe_inv_steps [OF assms(2) pe_inv_new] .
  have trg: "triggered_execs (pr_execs s) \<le> count_list xs CallTrigger"
    using triggered_execs_steps [OF assms(2)] by (simp add: new_pe_run_def)
  have "timed_execs (pr_execs s) \<le> nat ((pr_now s - pr_start s) div ?R) + (if pe_fastStart p then 1 else 0)"
  proof (cases "pr_execs s")
    case (Cons e es)
    obtain t trg where e: "e = (t, trg)" by (cases e)
    have "pr_start s + int (timed_execs (pr_execs s)) * ?R \<le> t + (if pe_fastStart p then ?R else 0)"
      using timed_execs_time [of p "pr_start s" "pr_execs s" t trg es] inv assms(1) Cons e by (simp add: pe_inv_def)
    moreover have "t \<le> pr_now s" using inv Cons e by (simp add: pe_inv_def last_exec_def)
    ultimately have "(int (timed_execs (pr_execs s)) - (if pe_fastStart p then 1 else 0)) * ?R \<le> pr_now s - pr_start s"
      by (auto simp: algebra_simps split: if_splits)
    then have "int (timed_execs (pr_execs s)) - (if pe_fastStart p then 1 else 0) \<le> (pr_now s - pr_start s) div ?R"
      using zdiv_mono1 [of _ _ ?R] assms(1) by (metis less_irrefl nonzero_mult_div_cancel_right)
    then show ?thesis by (auto split: if_splits)
  qed simp
  then show ?thesis using trg length_execs [of "pr_execs s"] by simp
qed

lemma executions_bounded_witness:
  "\<exists>s. pe_steps sample_pe sample_pe_acts (new_pe_run 0) = Some s \<and> length (pr_execs s) \<le> 2 + nat ((pr_now s - pr_start s) div 30)"
proof -
  have "pe_steps sample_pe sample_pe_acts (new_pe_run 0) \<noteq> None" by code_simp
  then obtain s where s: "pe_steps sample_pe sample_pe_acts (new_pe_run 0) = Some s" by blast
  have "0 < pe_repeatAfter sample_pe" by (simp add: sample_pe_def new_periodic_exec_def)
  from executions_bounded [OF this s] show ?thesis using s
    by (simp add: sample_pe_acts_def sample_pe_def new_periodic_exec_def)
qed


section \<open>A prompt loop is in time\<close>

definition cooldown_of :: "periodic_exec \<Rightarrow> int" where
  "cooldown_of p = max 0 (pe_cooldown p)"

definition prompt_inv :: "periodic_exec \<Rightarrow> pe_run \<Rightarrow> bool" where
  "prompt_inv p s \<longleftrightarrow> pe_inv p s \<and>
     (case pr_phase s of
        Idle \<Rightarrow> True
      | Waiting \<Rightarrow> pr_now s \<le> due p s
      | Cooling tm \<Rightarrow> pr_now s \<le> last_exec s + cooldown_of p)"

definition well_timed :: "periodic_exec \<Rightarrow> bool" where
  "well_timed p \<longleftrightarrow> 0 \<le> pe_repeatAfter p \<and> pe_cooldown p \<le> pe_repeatAfter p"

text \<open>The constructor cuts a cooldown that is too long.\<close>

lemma new_periodic_exec_well_timed: "0 \<le> r \<Longrightarrow> well_timed (new_periodic_exec r c f)"
  by (simp add: well_timed_def new_periodic_exec_def)

lemma start_after_nonneg: "well_timed p \<Longrightarrow> 0 \<le> start_after p"
  by (simp add: well_timed_def start_after_def)

lemma prompt_inv_step:
  assumes wt: "well_timed p" and inv: "prompt_inv p s" and pa: "prompt_act x s" and st: "pe_step p x s = Some s'"
  shows "prompt_inv p s'"
proof -
  have pe: "pe_inv p s'" and pe0: "pe_inv p s" using pe_inv_step [OF _ st] inv by (simp_all add: prompt_inv_def)
  note R = wt [unfolded well_timed_def]
  from st show ?thesis
  proof (rule pe_stepE, goal_cases)
    case (1 d)
    then show ?case using inv pa pe pe0
      by (auto simp: prompt_inv_def pe_inv_def due_def last_exec_def cooldown_of_def
          split: if_splits pe_phase.splits list.splits)
  next
    case 2
    then show ?case using pe start_after_nonneg [OF wt]
      by (auto simp: prompt_inv_def pe_start_def due_def split: if_splits)
  next
    case 3
    then show ?case using inv pe
      by (auto simp: prompt_inv_def pe_trigger_def due_def last_exec_def split: if_splits pe_phase.splits list.splits)
  next
    case 4
    then show ?case using pe R
      by (auto simp: prompt_inv_def pe_exec_def due_def split: if_splits)
  next
    case 5
    then show ?case using pe
      by (auto simp: prompt_inv_def pe_exec_def last_exec_def cooldown_of_def split: if_splits)
  next
    case 6
    then show ?case using pe pe0 inv R
      by (auto simp: prompt_inv_def pe_inv_def due_def last_exec_def cooldown_of_def
          split: if_splits pe_phase.splits list.splits)
  next
    case 7
    then show ?case using pe by (auto simp: prompt_inv_def split: pe_phase.splits)
  qed
qed

lemma prompt_inv_new: "prompt_inv p (new_pe_run t0)"
  using pe_inv_new [of p t0] by (simp add: prompt_inv_def new_pe_run_def)

lemma prompt_inv_steps:
  "well_timed p \<Longrightarrow> pe_steps p xs s = Some s' \<Longrightarrow> prompt p xs s \<Longrightarrow> prompt_inv p s \<Longrightarrow> prompt_inv p s'"
  by (rule prompt_invariant [where I = "prompt_inv p" and A = UNIV]) (auto intro: prompt_inv_step)

text \<open>While the loop runs, an execution is never overdue.\<close>

lemma prompt_not_overdue:
  assumes "well_timed p" and "prompt_inv p s" and "pr_phase s \<noteq> Idle"
  shows "pr_now s \<le> due p s"
  using assms
  by (auto simp: prompt_inv_def pe_inv_def due_def last_exec_def cooldown_of_def well_timed_def
      split: pe_phase.splits list.splits)

text \<open>A trigger that came at \<open>t\<close> waits, at most for the end of a cooldown, or has been served.\<close>

definition serving :: "periodic_exec \<Rightarrow> int \<Rightarrow> pe_run \<Rightarrow> bool" where
  "serving p t s \<longleftrightarrow> prompt_inv p s \<and> t \<le> pr_now s \<and>
     ((\<exists>t'. (t', True) \<in> set (pr_execs s) \<and> t \<le> t' \<and> t' \<le> t + cooldown_of p) \<or>
      pr_pending s \<and> pr_now s \<le> t + cooldown_of p \<and>
        (case pr_phase s of
           Idle \<Rightarrow> False
         | Waiting \<Rightarrow> True
         | Cooling tm \<Rightarrow> (case tm of None \<Rightarrow> False | Some at \<Rightarrow> at \<le> t + cooldown_of p)))"

lemma serving_start:
  assumes "prompt_inv p s" and "pr_phase s \<noteq> Idle"
  shows "serving p (pr_now s) (pe_trigger s)"
  using assms
  by (auto simp: serving_def prompt_inv_def pe_inv_def pe_trigger_def due_def last_exec_def cooldown_of_def
      split: pe_phase.splits list.splits)

lemma serving_step:
  assumes wt: "well_timed p" and inv: "serving p t s" and x: "x \<noteq> StopCase" "x \<noteq> CallStart"
    and pa: "prompt_act x s" and st: "pe_step p x s = Some s'"
  shows "serving p t s'"
proof -
  have pe: "prompt_inv p s'" and t: "t \<le> pr_now s" using prompt_inv_step [OF wt _ pa st] inv by (simp_all add: serving_def)
  from st show ?thesis
  proof (rule pe_stepE, goal_cases)
    case (1 d)
    then show ?case using inv pa pe
      by (auto simp: serving_def split: if_splits pe_phase.splits option.splits)
  next
    case 3
    then show ?case using inv pe by (auto simp: serving_def pe_trigger_def)
  next
    case 4
    then show ?case using inv pe by (auto simp: serving_def pe_exec_def split: if_splits)
  next
    case 5
    then show ?case using inv pe t by (auto simp: serving_def pe_exec_def split: if_splits)
  next
    case 6
    then show ?case using inv pe by (auto simp: serving_def split: if_splits pe_phase.splits)
  qed (use x in auto)
qed

lemma serving_served: "serving p t s \<Longrightarrow> t + cooldown_of p < pr_now s \<Longrightarrow>
    \<exists>t'. (t', True) \<in> set (pr_execs s) \<and> t \<le> t' \<and> t' \<le> t + cooldown_of p"
  by (auto simp: serving_def)

text \<open>
  \<^verbatim>\<open>Start\<close> is called once for a loop; \<open>keeps_running\<close> are the runs in which nobody stops or starts it.
\<close>

definition keeps_running :: "pe_act list \<Rightarrow> bool" where
  "keeps_running xs \<longleftrightarrow> set xs \<subseteq> - {StopCase, CallStart}"

lemma trigger_served_correct:
  assumes wt: "well_timed p" and s: "prompt_inv p s" "pr_phase s \<noteq> Idle"
    and run: "pe_steps p (CallTrigger # ys) s = Some s'" "prompt p (CallTrigger # ys) s" "keeps_running ys"
    and late: "pr_now s + cooldown_of p < pr_now s'"
  shows "\<exists>t. (t, True) \<in> set (pr_execs s') \<and> pr_now s \<le> t \<and> t \<le> pr_now s + cooldown_of p"
proof -
  have "pe_steps p ys (pe_trigger s) = Some s'" "prompt p ys (pe_trigger s)" using run by simp_all
  moreover have "set ys \<subseteq> - {StopCase, CallStart}" using run(3) by (simp add: keeps_running_def)
  moreover have "serving p (pr_now s) v" if "serving p (pr_now s) u" "x \<in> - {StopCase, CallStart}" "prompt_act x u"
    "pe_step p x u = Some v" for x u v
    using serving_step [OF wt that(1) _ _ that(3,4)] that(2) by simp
  ultimately have "serving p (pr_now s) s'"
    using prompt_invariant [where I = "serving p (pr_now s)" and A = "- {StopCase, CallStart}"] serving_start [OF s] by blast
  then show ?thesis using late by (rule serving_served)
qed

section \<open>Stopping\<close>

text \<open>
  Stop ends the loop for good. A running loop can receive the stop at every point of every run,
  in the select of a cooldown too, and leaves no active timer; from then on, without another call of
  Start, nothing is executed, whatever time passes and however often Trigger is called. A Stop without
  a loop that runs is not received by anybody: it blocks.
\<close>

lemma stop_is_final:
  assumes "pe_steps p xs (new_pe_run t0) = Some s"
  shows "if pr_phase s = Idle then pe_step p StopCase s = None
    else \<exists>s'. pe_step p StopCase s = Some s' \<and> pr_phase s' = Idle \<and> pr_timer s' = None \<and> pr_execs s' = pr_execs s \<and>
      (\<forall>ys s''. CallStart \<notin> set ys \<longrightarrow> pe_steps p ys s' = Some s'' \<longrightarrow>
         pr_phase s'' = Idle \<and> pr_timer s'' = None \<and> pr_execs s'' = pr_execs s)"
proof -
  have stay: "pr_phase v = Idle \<and> pr_timer v = None \<and> pr_execs v = pr_execs u"
    if "pe_steps p ys u = Some v" "CallStart \<notin> set ys" "pr_phase u = Idle" "pr_timer u = None" for ys u v
    using that
  proof (induction ys arbitrary: u)
    case (Cons y ys)
    then obtain w where w: "pe_step p y u = Some w" "pe_steps p ys w = Some v" by (auto split: option.splits)
    have "pr_phase w = Idle \<and> pr_timer w = None \<and> pr_execs w = pr_execs u"
      using w(1) Cons.prems by (cases y) (auto simp: pe_trigger_def split: if_splits)
    then show ?case using Cons.IH [OF w(2)] Cons.prems(2) by simp
  qed simp
  show ?thesis
  proof (cases "pr_phase s = Idle")
    case False
    then obtain s' where "pe_step p StopCase s = Some s'" "pr_phase s' = Idle" "pr_timer s' = None" "pr_execs s' = pr_execs s"
      by (cases "pr_phase s") auto
    then show ?thesis using stay [of _ s'] False by auto
  qed simp
qed

text \<open>A trigger in the middle of a cooldown, then a stop: the trigger is never served.\<close>

lemma stop_is_final_witness:
  "\<exists>s s'. pe_steps sample_pe [CallStart, CallTrigger, TriggerCase, Elapse 5, CallTrigger] (new_pe_run 0) = Some s \<and>
     pe_step sample_pe StopCase s = Some s' \<and> pr_execs s' = [(0, True)] \<and>
     (\<forall>s''. pe_steps sample_pe [Elapse 1000, CallTrigger] s' = Some s'' \<longrightarrow> pr_execs s'' = [(0, True)])"
proof -
  let ?acts = "[CallStart, CallTrigger, TriggerCase, Elapse 5, CallTrigger]"
  have "map_option (\<lambda>s. (pr_execs s, pr_phase s = Idle)) (pe_steps sample_pe ?acts (new_pe_run 0)) = Some ([(0, True)], False)"
    by code_simp
  then obtain s where s: "pe_steps sample_pe ?acts (new_pe_run 0) = Some s" "pr_execs s = [(0, True)]" "pr_phase s \<noteq> Idle"
    by (auto simp: map_option_eq_Some)
  then obtain s' where s': "pe_step sample_pe StopCase s = Some s'" "pr_execs s' = [(0, True)]"
    "\<forall>ys s''. CallStart \<notin> set ys \<longrightarrow> pe_steps sample_pe ys s' = Some s'' \<longrightarrow> pr_execs s'' = [(0, True)]"
    using stop_is_final [OF s(1)] by auto
  have "\<forall>s''. pe_steps sample_pe [Elapse 1000, CallTrigger] s' = Some s'' \<longrightarrow> pr_execs s'' = [(0, True)]"
    using s'(3) [rule_format, of "[Elapse 1000, CallTrigger]"] by simp
  then show ?thesis using s(1) s'(1,2) by blast
qed

section \<open>Sleep\<close>

text \<open>
  \<^verbatim>\<open>Sleep\<close>, called at \<open>now\<close> with a context that is cancelled at an instant, or never: when it returns,
  and whether because of the context. When both are ready in the same instant the choice is the
  run-time's (\<open>ctx_first\<close>).
\<close>

definition sleep :: "bool \<Rightarrow> int option \<Rightarrow> int \<Rightarrow> int \<Rightarrow> int \<times> bool" where
  "sleep ctx_first done now dur =
     (let tc = now + max 0 dur
      in case done of
           None \<Rightarrow> (tc, False)
         | Some d \<Rightarrow>
             let d = max now d
             in if d < tc then (d, True) else if tc < d then (tc, False) else if ctx_first then (d, True) else (tc, False))"

lemma sleep_returns:
  "sleep b done now dur = (t, cancelled) \<Longrightarrow>
     now \<le> t \<and> t \<le> now + max 0 dur \<and>
     (if cancelled then \<exists>d. done = Some d \<and> d \<le> t else t = now + max 0 dur \<and> (\<forall>d. done = Some d \<longrightarrow> t \<le> max now d))"
  by (auto simp: sleep_def Let_def split: option.splits if_splits)


end
