(* ===== verification/Ws_Reconn_Time.thy ===== *)
theory Ws_Reconn_Time
  imports Ws_Reconn Time_Util
begin

text \<open>
  The reconnecting client over time (\<^verbatim>\<open>wsclient/wsreconn/client.go\<close>): the periodic execution that it
  creates, the notices of its keeper, and the goroutines that each try to run \<^verbatim>\<open>process\<close>. Here a run of
  \<^verbatim>\<open>process\<close> is only its lock, the moment it reads the payloads of the keeper, and its end; what it does
  with them is the subject of \<^verbatim>\<open>Ws_Reconn\<close>.
\<close>

definition client_exec :: "client \<Rightarrow> periodic_exec" where
  "client_exec c = new_periodic_exec (co_CheckAfter (rc_opts c)) 1000000000 False"

text \<open>\<open>Locked\<close>: a run of \<^verbatim>\<open>process\<close> holds \<^verbatim>\<open>procMu\<close>; \<open>Sending\<close>: it has read the payloads.\<close>

datatype proc_state = Free | Locked | Sending

text \<open>
  \<open>cr_notices\<close> counts the started change functions of the keeper, \<open>cr_spawned\<close> the executions that have not tried
  the lock yet; \<open>cr_unseen\<close> records a change of the keeper since its payloads were read.
\<close>

record client_run =
  cr_pe :: pe_run
  cr_notices :: nat
  cr_spawned :: nat
  cr_proc :: proc_state
  cr_unseen :: bool

definition new_client_run :: "int \<Rightarrow> client_run" where
  "new_client_run t0 = \<lparr>cr_pe = new_pe_run t0, cr_notices = 0, cr_spawned = 0, cr_proc = Free, cr_unseen = False\<rparr>"

datatype client_act = Periodic pe_act | KeeperChange | Notice | TryProcess | ReadPayloads | ProcessDone bool

text \<open>\<open>ProcessDone True\<close> is the end of a run that found the connection closed and triggers another one.\<close>

fun client_step :: "periodic_exec \<Rightarrow> client_act \<Rightarrow> client_run \<Rightarrow> client_run option" where
  "client_step p (Periodic x) s =
     (if x = CallTrigger then None
      else case pe_step p x (cr_pe s) of
          None \<Rightarrow> None
        | Some r \<Rightarrow> Some (s\<lparr>cr_pe := r, cr_spawned := cr_spawned s + (if x = TimerCase \<or> x = TriggerCase then 1 else 0)\<rparr>))"
| "client_step p KeeperChange s = Some (s\<lparr>cr_unseen := True, cr_notices := Suc (cr_notices s)\<rparr>)"
| "client_step p Notice s =
     (case cr_notices s of 0 \<Rightarrow> None | Suc n \<Rightarrow> Some (s\<lparr>cr_notices := n, cr_pe := pe_trigger (cr_pe s)\<rparr>))"
| "client_step p TryProcess s =
     (case cr_spawned s of
        0 \<Rightarrow> None
      | Suc n \<Rightarrow> if cr_proc s \<noteq> Free then Some (s\<lparr>cr_spawned := n\<rparr>) else Some (s\<lparr>cr_spawned := n, cr_proc := Locked\<rparr>))"
| "client_step p ReadPayloads s = (if cr_proc s = Locked then Some (s\<lparr>cr_proc := Sending, cr_unseen := False\<rparr>) else None)"
| "client_step p (ProcessDone trg) s =
     (if cr_proc s = Free \<or> cr_proc s = Locked \<and> trg then None
      else Some (s\<lparr>cr_proc := Free, cr_pe := (if trg then pe_trigger (cr_pe s) else cr_pe s)\<rparr>))"

fun client_steps :: "periodic_exec \<Rightarrow> client_act list \<Rightarrow> client_run \<Rightarrow> client_run option" where
  "client_steps p [] s = Some s"
| "client_steps p (x # xs) s = (case client_step p x s of None \<Rightarrow> None | Some s' \<Rightarrow> client_steps p xs s')"

text \<open>What the periodic execution sees of a run.\<close>

fun pe_acts :: "client_act list \<Rightarrow> pe_act list" where
  "pe_acts [] = []"
| "pe_acts (Periodic x # xs) = x # pe_acts xs"
| "pe_acts (Notice # xs) = CallTrigger # pe_acts xs"
| "pe_acts (ProcessDone True # xs) = CallTrigger # pe_acts xs"
| "pe_acts (_ # xs) = pe_acts xs"

lemma client_steps_periodic:
  "client_steps p xs s = Some s' \<Longrightarrow> pe_steps p (pe_acts xs) (cr_pe s) = Some (cr_pe s')"
proof (induction xs arbitrary: s)
  case (Cons x xs)
  then obtain u where u: "client_step p x s = Some u" "client_steps p xs u = Some s'" by (auto split: option.splits)
  have ih: "pe_steps p (pe_acts xs) (cr_pe u) = Some (cr_pe s')" by (rule Cons.IH [OF u(2)])
  show ?case
  proof (cases x)
    case (ProcessDone trg)
    then show ?thesis using u(1) ih by (cases trg) (auto split: if_splits)
  qed (use u(1) ih in \<open>auto split: if_splits option.splits nat.splits\<close>)
qed simp

section \<open>Checks in time\<close>

lemma client_exec_simps:
  "pe_repeatAfter (client_exec c) = co_CheckAfter (rc_opts c)"
  "pe_cooldown (client_exec c) = min 1000000000 (co_CheckAfter (rc_opts c))"
  "start_after (client_exec c) = co_CheckAfter (rc_opts c)"
  by (simp_all add: client_exec_def new_periodic_exec_def start_after_def)

lemma default_check_after: "0 < co_CheckAfter (default_options opts)"
  by (simp add: default_options_def Let_def)

lemma new_client_opts: "new_client ops trigger open_res opts k = (Inr c, k') \<Longrightarrow> rc_opts c = default_options opts"
  by (auto simp: new_client_def Let_def split: option.splits)


text \<open>A client with the default period is created, its keeper notifies it, and two and a half seconds pass.\<close>

definition sample_notice :: "client_act list" where
  "sample_notice = [Periodic TriggerCase, Periodic (Elapse 1000000000), Periodic CooldownCase, Periodic (Elapse 1500000000)]"


section \<open>Changes that are overlooked\<close>

text \<open>
  A run of \<^verbatim>\<open>process\<close> reads the payloads and pauses between sending them. A change of the keeper in this pause
  triggers an execution, which finds the lock taken and gives up; the run that holds the lock does not
  read the payloads again.
\<close>

definition overlooked :: "client_act list" where
  "overlooked =
     [Periodic CallStart, KeeperChange, Notice, Periodic TriggerCase, TryProcess, ReadPayloads,
      Periodic (Elapse 1000000000), Periodic CooldownCase, Periodic (Elapse 1000000000),
      KeeperChange, Notice, Periodic TriggerCase, TryProcess,
      Periodic (Elapse 1000000000), Periodic CooldownCase, ProcessDone False]"

definition unseen_until :: "int \<Rightarrow> client_run \<Rightarrow> bool" where
  "unseen_until t s \<longleftrightarrow> (t \<le> pr_now (cr_pe s) \<or>
     cr_unseen s \<and> cr_notices s = 0 \<and> cr_spawned s = 0 \<and> cr_proc s = Free \<and> \<not> pr_pending (cr_pe s) \<and>
     (pr_phase (cr_pe s) = Idle \<or> pr_phase (cr_pe s) = Waiting \<and> pr_timer (cr_pe s) = Some t))"

lemma unseen_until_step:
  assumes "unseen_until t s" and "client_step p x s = Some s'" and "x \<noteq> KeeperChange" "x \<noteq> Periodic CallStart"
  shows "unseen_until t s'"
proof (cases x)
  case (Periodic y)
  then obtain r where r: "pe_step p y (cr_pe s) = Some r" "cr_pe s' = r" "y \<noteq> CallTrigger"
    "s' = s\<lparr>cr_pe := r, cr_spawned := cr_spawned s + (if y = TimerCase \<or> y = TriggerCase then 1 else 0)\<rparr>"
    using assms(2) by (auto split: if_splits option.splits)
  then show ?thesis using assms(1,4) Periodic
    by (cases y) (auto simp: unseen_until_def pe_exec_def split: if_splits pe_phase.splits)
qed (use assms in \<open>auto simp: unseen_until_def pe_trigger_def split: nat.splits if_splits\<close>)

lemma unseen_until_steps:
  "client_steps p xs s = Some s' \<Longrightarrow> unseen_until t s \<Longrightarrow> KeeperChange \<notin> set xs \<Longrightarrow> Periodic CallStart \<notin> set xs \<Longrightarrow>
   unseen_until t s'"
  by (induction xs arbitrary: s) (auto split: option.splits intro: unseen_until_step)

text \<open>
  C32. A change of the keeper can wait for the whole period. In a run of the client with the default
  options, a subscription that is made two seconds after another one, while the first is still being
  sent, is not looked at before the periodic check thirty seconds later, although its trigger was served
  at once: no continuation without another change reads the payloads earlier.
\<close>

theorem change_overlooked:
  "\<exists>s. client_steps (client_exec sample_client) overlooked (new_client_run 0) = Some s \<and>
     prompt (client_exec sample_client) (pe_acts overlooked) (new_pe_run 0) \<and>
     pr_execs (cr_pe s) = [(2000000000, True), (0, True)] \<and> cr_unseen s \<and> cr_proc s = Free \<and>
     (\<forall>xs s'. KeeperChange \<notin> set xs \<and> Periodic CallStart \<notin> set xs \<and> client_steps (client_exec sample_client) xs s = Some s' \<and>
        pr_now (cr_pe s') < 32000000000 \<longrightarrow> cr_unseen s')"
proof -
  let ?p = "client_exec sample_client"
  have "map_option (\<lambda>s. (pr_execs (cr_pe s), cr_unseen s, cr_proc s, cr_notices s, cr_spawned s, pr_pending (cr_pe s),
      pr_phase (cr_pe s), pr_timer (cr_pe s))) (client_steps ?p overlooked (new_client_run 0)) =
      Some ([(2000000000, True), (0, True)], True, Free, 0, 0, False, Waiting, Some 32000000000)"
    by code_simp
  then obtain s where s: "client_steps ?p overlooked (new_client_run 0) = Some s"
    "pr_execs (cr_pe s) = [(2000000000, True), (0, True)]" "cr_unseen s" "cr_proc s = Free" "cr_notices s = 0" "cr_spawned s = 0"
    "\<not> pr_pending (cr_pe s)" "pr_phase (cr_pe s) = Waiting" "pr_timer (cr_pe s) = Some 32000000000"
    by (auto simp: map_option_eq_Some)
  have prompt: "prompt ?p (pe_acts overlooked) (new_pe_run 0)" by code_simp
  have u: "unseen_until 32000000000 s" using s by (simp add: unseen_until_def)
  have "cr_unseen s'" if "KeeperChange \<notin> set xs" "Periodic CallStart \<notin> set xs" "client_steps ?p xs s = Some s'"
    "pr_now (cr_pe s') < 32000000000" for xs s'
    using unseen_until_steps [OF that(3) u that(1,2)] that(4) by (simp add: unseen_until_def)
  then show ?thesis using s(1-4) prompt by blast
qed

theorem change_overlooked_witness:
  "\<exists>s s'. client_steps (client_exec sample_client) overlooked (new_client_run 0) = Some s \<and>
     client_steps (client_exec sample_client) [Periodic (Elapse 28000000000)] s = Some s' \<and> cr_unseen s'"
proof -
  let ?p = "client_exec sample_client"
  from change_overlooked obtain s where s: "client_steps ?p overlooked (new_client_run 0) = Some s"
    "\<forall>xs s'. KeeperChange \<notin> set xs \<and> Periodic CallStart \<notin> set xs \<and> client_steps ?p xs s = Some s' \<and>
        pr_now (cr_pe s') < 32000000000 \<longrightarrow> cr_unseen s'" by (elim exE conjE) (rule that)
  have "map_option (\<lambda>s. pr_now (cr_pe s)) (client_steps ?p overlooked (new_client_run 0)) = Some 3000000000" by code_simp
  then have now: "pr_now (cr_pe s) = 3000000000" using s(1) by simp
  have some: "client_steps ?p [Periodic (Elapse 28000000000)] s \<noteq> None" by simp
  then obtain s' where s': "client_steps ?p [Periodic (Elapse 28000000000)] s = Some s'" by blast
  then have "pr_now (cr_pe s') = 31000000000" using now by auto
  then have "cr_unseen s'" using s(2) [rule_format, of "[Periodic (Elapse 28000000000)]" s'] s' by (simp del: client_steps.simps)
  then show ?thesis using s(1) s'(1) by blast
qed


end
