(* ===== verification/Ws_Grouped_Keeper.thy ===== *)
theory Ws_Grouped_Keeper
  imports Ws_Sub_Keeper Go_Prelude
begin

text \<open>
  The keeper of grouped subscriptions (\<^verbatim>\<open>wsclient/wsreconn/grouped_sub_keeper.go\<close>): keys of type
  \<open>'k\<close> under topics, each with a 64-bit count. A payload that was handed out keeps a reference to the
  inner map of its topic, and that map may be replaced meanwhile, so the inner maps live in a heap
  (a list; an address is an index). Change functions are known by numbers.
\<close>

section \<open>State\<close>

record groupedSub =
  gs_confirmed :: bool
  gs_count :: "64 word"

record 'k grouped_keeper =
  gk_metrics :: metrics
  gk_cooldown :: int
  gk_manualConfirm :: bool
  gk_heap :: "('k, groupedSub) gomap list"
  gk_subs :: "(string, nat) gomap"
  gk_fns :: "nat list"

record 'k groupedPayload =
  gp_topic :: string
  gp_subbed :: bool
  gp_keys :: "'k list"
  gp_topicData :: nat

record ('k, 'm, 'd) grouped_formatter =
  gf_SubMessage :: "string \<Rightarrow> 'k list \<Rightarrow> 'm option"
  gf_UnsubMessage :: "string \<Rightarrow> 'k list \<Rightarrow> 'm option"
  gf_ConfirmSub :: "string \<Rightarrow> 'k list \<Rightarrow> 'd \<Rightarrow> bool"
  gf_ConfirmUnsub :: "string \<Rightarrow> 'k list \<Rightarrow> 'd \<Rightarrow> bool"

definition new_grouped_sub_keeper :: "metrics \<Rightarrow> int \<Rightarrow> bool \<Rightarrow> 'k grouped_keeper" where
  "new_grouped_sub_keeper mx cooldown manualConfirm =
     \<lparr>gk_metrics = mx, gk_cooldown = cooldown, gk_manualConfirm = manualConfirm,
      gk_heap = [], gk_subs = [], gk_fns = []\<rparr>"

definition inner :: "'k grouped_keeper \<Rightarrow> nat \<Rightarrow> ('k, groupedSub) gomap" where
  "inner g a = gk_heap g ! a"

definition set_inner :: "nat \<Rightarrow> ('k, groupedSub) gomap \<Rightarrow> 'k grouped_keeper \<Rightarrow> 'k grouped_keeper" where
  "set_inner a vv g = g\<lparr>gk_heap := (gk_heap g)[a := vv]\<rparr>"

section \<open>Payloads and reset\<close>

text \<open>The keys of one topic, in the order \<open>ks\<close>, that need a message: to subscribe and to unsubscribe.\<close>

fun pending_keys :: "('k, groupedSub) gomap \<Rightarrow> 'k list \<Rightarrow> 'k list \<times> 'k list" where
  "pending_keys vv [] = ([], [])"
| "pending_keys vv (key # ks) =
     (let (subKeys, unsubKeys) = pending_keys vv ks
      in (case gm_get vv key of
            None \<Rightarrow> (subKeys, unsubKeys)
          | Some v \<Rightarrow>
              if gs_confirmed v then (subKeys, unsubKeys)
              else if gs_count v = 0 then (subKeys, key # unsubKeys)
              else (key # subKeys, unsubKeys)))"

text \<open>\<open>ordk\<close> gives the order of the loop over an inner map, \<open>ord\<close> that of the outer loop.\<close>

fun grouped_payloads_loop ::
  "(('k, groupedSub) gomap \<Rightarrow> 'k list) \<Rightarrow> string list \<Rightarrow> 'k grouped_keeper \<Rightarrow> 'k groupedPayload list" where
  "grouped_payloads_loop ordk [] g = []"
| "grouped_payloads_loop ordk (tpc # ord) g =
     (case gm_get (gk_subs g) tpc of
        None \<Rightarrow> grouped_payloads_loop ordk ord g
      | Some a \<Rightarrow>
          let (subKeys, unsubKeys) = pending_keys (inner g a) (ordk (inner g a))
          in (if length subKeys \<noteq> 0
              then [\<lparr>gp_topic = tpc, gp_subbed = True, gp_keys = subKeys, gp_topicData = a\<rparr>] else []) @
             (if length unsubKeys \<noteq> 0
              then [\<lparr>gp_topic = tpc, gp_subbed = False, gp_keys = unsubKeys, gp_topicData = a\<rparr>] else []) @
             grouped_payloads_loop ordk ord g)"

definition grouped_payloads ::
  "(('k, groupedSub) gomap \<Rightarrow> 'k list) \<Rightarrow> string list \<Rightarrow> 'k grouped_keeper \<Rightarrow> 'k groupedPayload list \<times> int" where
  "grouped_payloads ordk ord g = (grouped_payloads_loop ordk ord g, gk_cooldown g)"

fun reset_keys :: "'k list \<Rightarrow> ('k, groupedSub) gomap \<Rightarrow> metrics \<Rightarrow> ('k, groupedSub) gomap \<times> metrics" where
  "reset_keys [] vv mx = (vv, mx)"
| "reset_keys (key # ks) vv mx =
     (case gm_get vv key of
        None \<Rightarrow> reset_keys ks vv mx
      | Some v \<Rightarrow>
          let v = v\<lparr>gs_confirmed := False\<rparr>
          in if gs_count v = 0 then reset_keys ks (gm_del vv key) (dec_subs mx)
             else reset_keys ks (gm_set vv key v) mx)"

fun grouped_reset_all ::
  "(('k, groupedSub) gomap \<Rightarrow> 'k list) \<Rightarrow> string list \<Rightarrow> 'k grouped_keeper \<Rightarrow> 'k grouped_keeper" where
  "grouped_reset_all ordk [] g = g"
| "grouped_reset_all ordk (tpc # ord) g =
     (case gm_get (gk_subs g) tpc of
        None \<Rightarrow> grouped_reset_all ordk ord g
      | Some a \<Rightarrow>
          let (vv, mx) = reset_keys (ordk (inner g a)) (inner g a) (gk_metrics g);
              g = (set_inner a vv g)\<lparr>gk_metrics := mx\<rparr>
          in if gm_len vv = 0 then grouped_reset_all ordk ord (g\<lparr>gk_subs := gm_del (gk_subs g) tpc\<rparr>)
             else grouped_reset_all ordk ord g)"

definition grouped_on_change :: "nat \<Rightarrow> 'k grouped_keeper \<Rightarrow> 'k grouped_keeper" where
  "grouped_on_change fn g = g\<lparr>gk_fns := gk_fns g @ [fn]\<rparr>"

definition grouped_exec_fns :: "'k grouped_keeper \<Rightarrow> nat list" where
  "grouped_exec_fns g = gk_fns g"

definition topic_keys :: "(('k, groupedSub) gomap \<Rightarrow> 'k list) \<Rightarrow> string \<Rightarrow> 'k grouped_keeper \<Rightarrow> 'k list" where
  "topic_keys ordk tpc g =
     (case gm_get (gk_subs g) tpc of
        None \<Rightarrow> []
      | Some a \<Rightarrow>
          filter (\<lambda>key. case gm_get (inner g a) key of None \<Rightarrow> False | Some v \<Rightarrow> gs_count v > 0 \<and> gs_confirmed v)
            (ordk (inner g a)))"

section \<open>Subscribing and unsubscribing\<close>

fun subscribe_keys ::
  "'k list \<Rightarrow> ('k, groupedSub) gomap \<Rightarrow> metrics \<Rightarrow> bool \<Rightarrow> ('k, groupedSub) gomap \<times> metrics \<times> bool" where
  "subscribe_keys [] vv mx ok = (vv, mx, ok)"
| "subscribe_keys (key # ks) vv mx ok =
     (let found = gm_get vv key;
          v = (case found of None \<Rightarrow> \<lparr>gs_confirmed = False, gs_count = 0\<rparr> | Some v \<Rightarrow> v);
          change = (found = None \<or> gs_count v = 0 \<and> gs_confirmed v);
          v = (if change then v\<lparr>gs_confirmed := False\<rparr> else v);
          v = v\<lparr>gs_count := gs_count v + 1\<rparr>
      in subscribe_keys ks (gm_set vv key v) (inc_subs mx) (ok \<or> change))"

definition grouped_subscribe :: "string \<Rightarrow> 'k list \<Rightarrow> 'k grouped_keeper \<Rightarrow> 'k grouped_keeper \<times> nat list" where
  "grouped_subscribe tpc keys g =
     (let (a, g) = (case gm_get (gk_subs g) tpc of
                      None \<Rightarrow>
                        (length (gk_heap g),
                         g\<lparr>gk_heap := gk_heap g @ [[]], gk_subs := gm_set (gk_subs g) tpc (length (gk_heap g))\<rparr>)
                    | Some a \<Rightarrow> (a, g));
          (vv, mx, ok) = subscribe_keys keys (inner g a) (gk_metrics g) False;
          g = (set_inner a vv g)\<lparr>gk_metrics := mx\<rparr>
      in (g, if ok then grouped_exec_fns g else []))"

text \<open>The unexported \<^verbatim>\<open>unsubscribe\<close>: its loop, then the rest of it.\<close>

fun unsubscribe_keys ::
  "bool \<Rightarrow> 'k list \<Rightarrow> ('k, groupedSub) gomap \<Rightarrow> metrics \<Rightarrow> bool \<Rightarrow> ('k, groupedSub) gomap \<times> metrics \<times> bool" where
  "unsubscribe_keys decrMax [] vv mx updated = (vv, mx, updated)"
| "unsubscribe_keys decrMax (key # ks) vv mx updated =
     (case gm_get vv key of
        None \<Rightarrow> unsubscribe_keys decrMax ks vv mx updated
      | Some v \<Rightarrow>
          if gs_count v = 1 \<and> \<not> gs_confirmed v \<or> gs_count v = 0 \<and> gs_confirmed v
          then unsubscribe_keys decrMax ks (gm_del vv key) (dec_subs mx) updated
          else if gs_count v = 0 then unsubscribe_keys decrMax ks vv mx updated
          else
            let v = (if decrMax then v\<lparr>gs_count := 0\<rparr> else v\<lparr>gs_count := gs_count v - 1\<rparr>)
            in if gs_count v = 0
               then unsubscribe_keys decrMax ks (gm_set vv key (v\<lparr>gs_confirmed := False\<rparr>)) mx True
               else unsubscribe_keys decrMax ks (gm_set vv key v) mx updated)"

definition grouped_unsubscribe_sub ::
  "string \<Rightarrow> 'k list \<Rightarrow> nat \<Rightarrow> bool \<Rightarrow> 'k grouped_keeper \<Rightarrow> 'k grouped_keeper \<times> bool" where
  "grouped_unsubscribe_sub tpc keys a decrMax g =
     (let (vv, mx, updated) = unsubscribe_keys decrMax keys (inner g a) (gk_metrics g) False;
          g = (set_inner a vv g)\<lparr>gk_metrics := mx\<rparr>
      in if gm_len vv = 0 then (g\<lparr>gk_subs := gm_del (gk_subs g) tpc\<rparr>, False) else (g, updated))"

definition grouped_unsubscribe :: "string \<Rightarrow> 'k list \<Rightarrow> 'k grouped_keeper \<Rightarrow> 'k grouped_keeper \<times> nat list" where
  "grouped_unsubscribe tpc keys g =
     (case gm_get (gk_subs g) tpc of
        None \<Rightarrow> (g, [])
      | Some a \<Rightarrow>
          let (g', ok) = grouped_unsubscribe_sub tpc keys a False g
          in (g', if ok then grouped_exec_fns g' else []))"

fun grouped_unsubscribe_loop ::
  "(('k, groupedSub) gomap \<Rightarrow> 'k list) \<Rightarrow> string list \<Rightarrow> bool \<Rightarrow> 'k grouped_keeper \<Rightarrow> 'k grouped_keeper \<times> bool" where
  "grouped_unsubscribe_loop ordk [] ok g = (g, ok)"
| "grouped_unsubscribe_loop ordk (tpc # ord) ok g =
     (case gm_get (gk_subs g) tpc of
        None \<Rightarrow> grouped_unsubscribe_loop ordk ord ok g
      | Some a \<Rightarrow>
          let (g', ok1) = grouped_unsubscribe_sub tpc (ordk (inner g a)) a True g
          in grouped_unsubscribe_loop ordk ord (if \<not> ok then ok1 else ok) g')"

definition grouped_unsubscribe_all ::
  "(('k, groupedSub) gomap \<Rightarrow> 'k list) \<Rightarrow> string list \<Rightarrow> 'k grouped_keeper \<Rightarrow> 'k grouped_keeper \<times> nat list" where
  "grouped_unsubscribe_all ordk ord g =
     (let (g', ok) = grouped_unsubscribe_loop ordk ord False g
      in (g', if ok then grouped_exec_fns g' else []))"

section \<open>Confirming\<close>

fun confirm_keys ::
  "bool \<Rightarrow> 'k list \<Rightarrow> ('k, groupedSub) gomap \<Rightarrow> metrics \<Rightarrow> ('k, groupedSub) gomap \<times> metrics" where
  "confirm_keys subbed [] vv mx = (vv, mx)"
| "confirm_keys subbed (key # ks) vv mx =
     (case gm_get vv key of
        None \<Rightarrow> confirm_keys subbed ks vv mx
      | Some v \<Rightarrow>
          if gs_confirmed v \<or> gs_count v > 0 \<and> \<not> subbed \<or> gs_count v = 0 \<and> subbed
          then confirm_keys subbed ks vv mx
          else
            let v = v\<lparr>gs_confirmed := True\<rparr>;
                mx = (if subbed then inc_sub_confirmations mx else inc_unsub_confirmations mx)
            in if gs_count v = 0 then confirm_keys subbed ks (gm_del vv key) (dec_subs mx)
               else confirm_keys subbed ks (gm_set vv key v) mx)"

definition grouped_confirm :: "bool \<Rightarrow> string \<Rightarrow> nat \<Rightarrow> 'k list \<Rightarrow> 'k grouped_keeper \<Rightarrow> 'k grouped_keeper" where
  "grouped_confirm subbed tpc a keys g =
     (let (vv, mx) = confirm_keys subbed keys (inner g a) (gk_metrics g);
          g = (set_inner a vv g)\<lparr>gk_metrics := mx\<rparr>
      in if gm_len vv = 0 then g\<lparr>gk_subs := gm_del (gk_subs g) tpc\<rparr> else g)"

definition grouped_confirm_sub :: "string \<Rightarrow> 'k list \<Rightarrow> 'k grouped_keeper \<Rightarrow> 'k grouped_keeper" where
  "grouped_confirm_sub tpc keys g =
     (case gm_get (gk_subs g) tpc of None \<Rightarrow> g | Some a \<Rightarrow> grouped_confirm True tpc a keys g)"

definition grouped_confirm_unsub ::
  "(('k, groupedSub) gomap \<Rightarrow> 'k list) \<Rightarrow> string \<Rightarrow> bool \<Rightarrow> 'k list \<Rightarrow> 'k grouped_keeper \<Rightarrow> 'k grouped_keeper" where
  "grouped_confirm_unsub ordk tpc invert keys g =
     (case gm_get (gk_subs g) tpc of
        None \<Rightarrow> g
      | Some a \<Rightarrow>
          let keys = (if invert then ordk (fold (\<lambda>key vv1. gm_del vv1 key) keys (inner g a)) else keys)
          in grouped_confirm False tpc a keys g)"

definition grouped_payload ::
  "('k, 'm, 'd) grouped_formatter \<Rightarrow> 'k groupedPayload \<Rightarrow> 'k grouped_keeper \<Rightarrow> 'm option \<times> bool" where
  "grouped_payload f p g =
     (if gp_subbed p then gf_SubMessage f (gp_topic p) (gp_keys p) else gf_UnsubMessage f (gp_topic p) (gp_keys p),
      \<not> gk_manualConfirm g)"

definition grouped_confirm_payload ::
  "('k, 'm, 'd) grouped_formatter \<Rightarrow> 'k groupedPayload \<Rightarrow> 'd \<Rightarrow> 'k grouped_keeper \<Rightarrow> 'k grouped_keeper" where
  "grouped_confirm_payload f p d g =
     (if gp_subbed p
      then if gf_ConfirmSub f (gp_topic p) (gp_keys p) d
           then grouped_confirm True (gp_topic p) (gp_topicData p) (gp_keys p) g else g
      else if gf_ConfirmUnsub f (gp_topic p) (gp_keys p) d
           then grouped_confirm False (gp_topic p) (gp_topicData p) (gp_keys p) g else g)"


section \<open>The loops key by key\<close>

text \<open>
  What each loop does to one entry (\<open>None\<close>: no entry) when it meets its key. A loop then acts on each
  key as the iteration of its step.
\<close>

definition sub1 :: "groupedSub option \<Rightarrow> groupedSub option" where
  "sub1 e = (case e of
       None \<Rightarrow> Some \<lparr>gs_confirmed = False, gs_count = 1\<rparr>
     | Some v \<Rightarrow> Some \<lparr>gs_confirmed = (gs_confirmed v \<and> gs_count v \<noteq> 0), gs_count = gs_count v + 1\<rparr>)"

definition unsub1 :: "bool \<Rightarrow> groupedSub option \<Rightarrow> groupedSub option" where
  "unsub1 decrMax e = (case e of
       None \<Rightarrow> None
     | Some v \<Rightarrow>
         if gs_count v = 1 \<and> \<not> gs_confirmed v \<or> gs_count v = 0 \<and> gs_confirmed v then None
         else if gs_count v = 0 then Some v
         else if decrMax \<or> gs_count v = 1 then Some (v\<lparr>gs_count := 0, gs_confirmed := False\<rparr>)
         else Some (v\<lparr>gs_count := gs_count v - 1\<rparr>))"

definition conf1 :: "bool \<Rightarrow> groupedSub option \<Rightarrow> groupedSub option" where
  "conf1 subbed e = (case e of
       None \<Rightarrow> None
     | Some v \<Rightarrow>
         if gs_confirmed v \<or> (gs_count v \<noteq> 0) \<noteq> subbed then Some v
         else if gs_count v = 0 then None else Some (v\<lparr>gs_confirmed := True\<rparr>))"

definition reset1 :: "groupedSub option \<Rightarrow> groupedSub option" where
  "reset1 e = (case e of None \<Rightarrow> None | Some v \<Rightarrow> if gs_count v = 0 then None else Some (v\<lparr>gs_confirmed := False\<rparr>))"

lemma missing_entry [simp]: "unsub1 decrMax None = None" "conf1 subbed None = None" "reset1 None = None"
  by (simp_all add: unsub1_def conf1_def reset1_def)

lemma iterate_entry:
  assumes "\<And>k. gm_get m' k = (if k = key then f (gm_get m key) else gm_get m k)"
  shows "(f ^^ count_list ks k) (gm_get m' k) = (f ^^ count_list (key # ks) k) (gm_get m k)"
  by (simp add: assms funpow_swap1)

lemma word_pos_iff: "(0 :: 64 word) < w \<longleftrightarrow> w \<noteq> 0"
  by (simp add: word_neq_0_conv)

lemma subscribe_keys_Cons:
  "subscribe_keys (key # ks) vv mx ok =
     subscribe_keys ks (gm_set vv key (the (sub1 (gm_get vv key)))) (inc_subs mx)
       (ok \<or> (case gm_get vv key of None \<Rightarrow> True | Some v \<Rightarrow> gs_count v = 0 \<and> gs_confirmed v))"
proof (cases "gm_get vv key")
  case None
  then show ?thesis by (simp add: sub1_def)
next
  case (Some v)
  obtain c n where v: "v = \<lparr>gs_confirmed = c, gs_count = n\<rparr>" by (cases v) auto
  show ?thesis
    using Some by (cases "n = 0 \<and> c") (auto simp: v sub1_def Let_def)
qed

lemma sub1_Some: "sub1 e = Some (the (sub1 e))"
  by (cases e) (simp_all add: sub1_def)

lemma subscribe_keys_get:
  "gm_get (fst (subscribe_keys ks vv mx ok)) k = (sub1 ^^ count_list ks k) (gm_get vv k) \<and>
   (gm_wf vv \<longrightarrow> gm_wf (fst (subscribe_keys ks vv mx ok)))"
proof (induction ks arbitrary: vv mx ok)
  case (Cons key ks)
  let ?vv = "gm_set vv key (the (sub1 (gm_get vv key)))"
  have "(sub1 ^^ count_list ks k) (gm_get ?vv k) = (sub1 ^^ count_list (key # ks) k) (gm_get vv k)"
    by (rule iterate_entry) (simp flip: sub1_Some)
  with Cons.IH [of ?vv] show ?case unfolding subscribe_keys_Cons by simp
qed simp

lemma unsubscribe_keys_get:
  "gm_get (fst (unsubscribe_keys decrMax ks vv mx updated)) k = (unsub1 decrMax ^^ count_list ks k) (gm_get vv k) \<and>
   (gm_wf vv \<longrightarrow> gm_wf (fst (unsubscribe_keys decrMax ks vv mx updated)))"
proof (induction ks arbitrary: vv mx updated)
  case (Cons key ks)
  obtain m' mx' updated' where s: "unsubscribe_keys decrMax (key # ks) vv mx updated = unsubscribe_keys decrMax ks m' mx' updated'"
    "\<And>k. gm_get m' k = (if k = key then unsub1 decrMax (gm_get vv key) else gm_get vv k)" "gm_wf vv \<Longrightarrow> gm_wf m'"
  proof (cases "gm_get vv key")
    case None
    then show ?thesis by (intro that [of vv mx updated]) (simp_all add: unsub1_def)
  next
    case (Some v)
    consider (del) "gs_count v = 1 \<and> \<not> gs_confirmed v \<or> gs_count v = 0 \<and> gs_confirmed v"
      | (zero) "\<not> (gs_count v = 1 \<and> \<not> gs_confirmed v \<or> gs_count v = 0 \<and> gs_confirmed v)" "gs_count v = 0"
      | (set) "\<not> (gs_count v = 1 \<and> \<not> gs_confirmed v \<or> gs_count v = 0 \<and> gs_confirmed v)" "gs_count v \<noteq> 0" by blast
    then show ?thesis
    proof cases
      case del
      with Some show ?thesis by (intro that [of "gm_del vv key" "dec_subs mx" updated]) (simp_all add: unsub1_def)
    next
      case zero
      with Some show ?thesis by (intro that [of vv mx updated]) (simp_all add: unsub1_def)
    next
      case set
      show ?thesis
      proof (cases "decrMax \<or> gs_count v = 1")
        case True
        with Some set show ?thesis
          by (intro that [of "gm_set vv key (v\<lparr>gs_count := 0, gs_confirmed := False\<rparr>)" mx True])
            (auto simp: unsub1_def Let_def)
      next
        case False
        then have "gs_count v - 1 \<noteq> 0" by simp
        with False Some set show ?thesis
          by (intro that [of "gm_set vv key (v\<lparr>gs_count := gs_count v - 1\<rparr>)" mx updated]) (simp_all add: unsub1_def)
      qed
    qed
  qed
  have "(unsub1 decrMax ^^ count_list ks k) (gm_get m' k) = (unsub1 decrMax ^^ count_list (key # ks) k) (gm_get vv k)"
    by (rule iterate_entry) (rule s(2))
  with Cons.IH [of m' mx' updated'] s(3) show ?case unfolding s(1) by simp
qed simp

lemma confirm_keys_get:
  "gm_get (fst (confirm_keys subbed ks vv mx)) k = (conf1 subbed ^^ count_list ks k) (gm_get vv k) \<and>
   (gm_wf vv \<longrightarrow> gm_wf (fst (confirm_keys subbed ks vv mx)))"
proof (induction ks arbitrary: vv mx)
  case (Cons key ks)
  obtain m' mx' where s: "confirm_keys subbed (key # ks) vv mx = confirm_keys subbed ks m' mx'"
    "\<And>k. gm_get m' k = (if k = key then conf1 subbed (gm_get vv key) else gm_get vv k)" "gm_wf vv \<Longrightarrow> gm_wf m'"
  proof (cases "gm_get vv key")
    case None
    then show ?thesis by (intro that [of vv mx]) (simp_all add: conf1_def)
  next
    case (Some v)
    let ?mx = "if subbed then inc_sub_confirmations mx else inc_unsub_confirmations mx"
    consider (keep) "gs_confirmed v \<or> (gs_count v \<noteq> 0) \<noteq> subbed"
      | (del) "\<not> gs_confirmed v" "(gs_count v \<noteq> 0) = subbed" "gs_count v = 0"
      | (set) "\<not> gs_confirmed v" "(gs_count v \<noteq> 0) = subbed" "gs_count v \<noteq> 0" by blast
    then show ?thesis
    proof cases
      case keep
      with Some show ?thesis by (intro that [of vv mx]) (auto simp: conf1_def word_pos_iff)
    next
      case del
      with Some show ?thesis by (intro that [of "gm_del vv key" "dec_subs ?mx"]) (auto simp: conf1_def word_pos_iff)
    next
      case set
      with Some show ?thesis
        by (intro that [of "gm_set vv key (v\<lparr>gs_confirmed := True\<rparr>)" ?mx]) (auto simp: conf1_def word_pos_iff)
    qed
  qed
  have "(conf1 subbed ^^ count_list ks k) (gm_get m' k) = (conf1 subbed ^^ count_list (key # ks) k) (gm_get vv k)"
    by (rule iterate_entry) (rule s(2))
  with Cons.IH [of m' mx'] s(3) show ?case unfolding s(1) by simp
qed simp

lemma reset_keys_get:
  "gm_get (fst (reset_keys ks vv mx)) k = (reset1 ^^ count_list ks k) (gm_get vv k) \<and>
   (gm_wf vv \<longrightarrow> gm_wf (fst (reset_keys ks vv mx)))"
proof (induction ks arbitrary: vv mx)
  case (Cons key ks)
  obtain m' mx' where s: "reset_keys (key # ks) vv mx = reset_keys ks m' mx'"
    "\<And>k. gm_get m' k = (if k = key then reset1 (gm_get vv key) else gm_get vv k)" "gm_wf vv \<Longrightarrow> gm_wf m'"
  proof (cases "gm_get vv key")
    case None
    then show ?thesis by (intro that [of vv mx]) (simp_all add: reset1_def)
  next
    case (Some v)
    show ?thesis
    proof (cases "gs_count v = 0")
      case True
      with Some show ?thesis by (intro that [of "gm_del vv key" "dec_subs mx"]) (simp_all add: reset1_def)
    next
      case False
      with Some show ?thesis
        by (intro that [of "gm_set vv key (v\<lparr>gs_confirmed := False\<rparr>)" mx]) (simp_all add: reset1_def)
    qed
  qed
  have "(reset1 ^^ count_list ks k) (gm_get m' k) = (reset1 ^^ count_list (key # ks) k) (gm_get vv k)"
    by (rule iterate_entry) (rule s(2))
  with Cons.IH [of m' mx'] s(3) show ?case unfolding s(1) by simp
qed simp


section \<open>The abstract value of an entry\<close>

text \<open>
  How often the key is subscribed to; whether the keeper takes the other side to be subscribed to it;
  and the invariant: an unsubscription that was confirmed is in no entry.
\<close>

definition entry_count :: "groupedSub option \<Rightarrow> nat" where
  "entry_count e = (case e of None \<Rightarrow> 0 | Some v \<Rightarrow> unat (gs_count v))"

definition entry_believed :: "groupedSub option \<Rightarrow> bool" where
  "entry_believed e = (case e of None \<Rightarrow> False | Some v \<Rightarrow> (gs_count v \<noteq> 0) = gs_confirmed v)"

definition entry_inv :: "groupedSub option \<Rightarrow> bool" where
  "entry_inv e = (case e of None \<Rightarrow> True | Some v \<Rightarrow> \<not> (gs_count v = 0 \<and> gs_confirmed v))"

lemmas entry_defs = entry_count_def entry_believed_def entry_inv_def

lemma entry_None_iff: "entry_inv e \<Longrightarrow> e = None \<longleftrightarrow> entry_count e = 0 \<and> \<not> entry_believed e"
  by (cases e) (auto simp: entry_defs unat_eq_0)

lemma sub1_entry:
  assumes "entry_inv e" and "Suc (entry_count e) < 2 ^ 64"
  shows "entry_inv (sub1 e)" "entry_count (sub1 e) = Suc (entry_count e)"
    "entry_believed (sub1 e) \<longleftrightarrow> entry_believed e \<and> entry_count e \<noteq> 0"
proof -
  have "entry_inv (sub1 e) \<and> entry_count (sub1 e) = Suc (entry_count e) \<and>
      (entry_believed (sub1 e) \<longleftrightarrow> entry_believed e \<and> entry_count e \<noteq> 0)"
  proof (cases e)
    case None
    then show ?thesis by (simp add: sub1_def entry_defs)
  next
    case (Some v)
    have u: "unat (gs_count v + 1) = Suc (unat (gs_count v))"
      using assms(2) Some by (simp add: entry_count_def unat_word_ariths)
    then have "gs_count v + 1 \<noteq> 0" by (metis unat_0 nat.distinct(1))
    then show ?thesis using Some assms(1) u by (auto simp: sub1_def entry_defs unat_eq_0)
  qed
  then show "entry_inv (sub1 e)" "entry_count (sub1 e) = Suc (entry_count e)"
    "entry_believed (sub1 e) \<longleftrightarrow> entry_believed e \<and> entry_count e \<noteq> 0" by blast+
qed

lemma sub1_entries:
  "entry_inv e \<Longrightarrow> entry_count e + n < 2 ^ 64 \<Longrightarrow>
   entry_inv ((sub1 ^^ n) e) \<and> entry_count ((sub1 ^^ n) e) = entry_count e + n \<and>
   (entry_believed ((sub1 ^^ n) e) \<longleftrightarrow> entry_believed e \<and> (n = 0 \<or> entry_count e \<noteq> 0))"
proof (induction n)
  case (Suc n)
  then have IH: "entry_inv ((sub1 ^^ n) e)" "entry_count ((sub1 ^^ n) e) = entry_count e + n"
    "entry_believed ((sub1 ^^ n) e) \<longleftrightarrow> entry_believed e \<and> (n = 0 \<or> entry_count e \<noteq> 0)" by simp_all
  then show ?case using sub1_entry [of "(sub1 ^^ n) e"] Suc.prems(2) by auto
qed simp

lemma unat_1_iff: "unat (w :: 64 word) = 1 \<longleftrightarrow> w = 1"
  by (metis unat_1 word_unat_eq_iff)

lemma unsub1_entry:
  assumes "entry_inv e"
  shows "entry_inv (unsub1 False e)" "entry_count (unsub1 False e) = entry_count e - 1"
    "entry_believed (unsub1 False e) = entry_believed e"
proof -
  have "entry_inv (unsub1 False e) \<and> entry_count (unsub1 False e) = entry_count e - 1 \<and>
      entry_believed (unsub1 False e) = entry_believed e"
  proof (cases e)
    case None
    then show ?thesis by (simp add: unsub1_def entry_defs)
  next
    case (Some v)
    consider "gs_count v = 0" | "gs_count v = 1" | "gs_count v \<noteq> 0" "gs_count v \<noteq> 1" by blast
    then show ?thesis
    proof cases
      case 3
      then have "unat (gs_count v - 1) = unat (gs_count v) - 1" by (simp add: unat_minus_one)
      moreover have "gs_count v - 1 \<noteq> 0" using 3 by simp
      ultimately show ?thesis using 3 Some by (simp add: unsub1_def entry_defs)
    qed (use Some assms in \<open>auto simp: unsub1_def entry_defs\<close>)
  qed
  then show "entry_inv (unsub1 False e)" "entry_count (unsub1 False e) = entry_count e - 1"
    "entry_believed (unsub1 False e) = entry_believed e" by blast+
qed

lemma unsub1_entries:
  "entry_inv e \<Longrightarrow> entry_inv ((unsub1 False ^^ n) e) \<and> entry_count ((unsub1 False ^^ n) e) = entry_count e - n \<and>
   entry_believed ((unsub1 False ^^ n) e) = entry_believed e"
  by (induction n) (auto simp: unsub1_entry)

lemma unsub_all_entry:
  assumes "entry_inv e"
  shows "entry_inv (unsub1 True e) \<and> entry_count (unsub1 True e) = 0 \<and>
    (entry_believed (unsub1 True e) \<longleftrightarrow> entry_believed e \<or> 2 \<le> entry_count e)"
proof (cases e)
  case None
  then show ?thesis by (simp add: unsub1_def entry_defs)
next
  case (Some v)
  have "2 \<le> unat (gs_count v) \<longleftrightarrow> gs_count v \<noteq> 0 \<and> gs_count v \<noteq> 1"
    using unat_1_iff [of "gs_count v"] unat_eq_0 [of "gs_count v"] by linarith
  then show ?thesis using Some assms by (auto simp: unsub1_def entry_defs)
qed

lemma conf1_entry:
  assumes "entry_inv e"
  shows "entry_inv (conf1 subbed e) \<and> entry_count (conf1 subbed e) = entry_count e \<and>
    (entry_believed (conf1 subbed e) \<longleftrightarrow>
       (if (entry_count e \<noteq> 0) = subbed then subbed else entry_believed e))"
proof (cases e)
  case None
  then show ?thesis by (auto simp: conf1_def entry_defs)
next
  case (Some v)
  then show ?thesis using assms by (auto simp: conf1_def entry_defs unat_eq_0)
qed

lemma conf1_entries:
  "entry_inv e \<Longrightarrow> entry_inv ((conf1 subbed ^^ n) e) \<and> entry_count ((conf1 subbed ^^ n) e) = entry_count e \<and>
   (entry_believed ((conf1 subbed ^^ n) e) \<longleftrightarrow>
      (if n \<noteq> 0 \<and> (entry_count e \<noteq> 0) = subbed then subbed else entry_believed e))"
  by (induction n) (auto simp: conf1_entry)

lemma reset1_entry:
  "entry_inv (reset1 e) \<and> entry_count (reset1 e) = entry_count e \<and> \<not> entry_believed (reset1 e)"
  by (cases e) (auto simp: reset1_def entry_defs)


section \<open>Invariant and abstraction of the keeper\<close>

definition entry :: "'k grouped_keeper \<Rightarrow> string \<Rightarrow> 'k \<Rightarrow> groupedSub option" where
  "entry g tpc key = (case gm_get (gk_subs g) tpc of None \<Rightarrow> None | Some a \<Rightarrow> gm_get (inner g a) key)"

definition grouped_inv :: "'k grouped_keeper \<Rightarrow> bool" where
  "grouped_inv g \<longleftrightarrow> gm_wf (gk_subs g) \<and>
     (\<forall>t a. gm_get (gk_subs g) t = Some a \<longrightarrow>
        a < length (gk_heap g) \<and> gm_wf (inner g a) \<and> (\<forall>key. entry_inv (gm_get (inner g a) key))) \<and>
     (\<forall>t1 t2 a. gm_get (gk_subs g) t1 = Some a \<and> gm_get (gk_subs g) t2 = Some a \<longrightarrow> t1 = t2)"

definition grouped_count :: "'k grouped_keeper \<Rightarrow> string \<Rightarrow> 'k \<Rightarrow> nat" where
  "grouped_count g t key = entry_count (entry g t key)"

definition grouped_wanted :: "'k grouped_keeper \<Rightarrow> (string \<times> 'k) set" where
  "grouped_wanted g = {(t, key). grouped_count g t key \<noteq> 0}"

definition grouped_believed :: "'k grouped_keeper \<Rightarrow> (string \<times> 'k) set" where
  "grouped_believed g = {(t, key). entry_believed (entry g t key)}"

lemma grouped_invD:
  assumes "grouped_inv g" and "gm_get (gk_subs g) t = Some a"
  shows "a < length (gk_heap g)" "gm_wf (inner g a)" "entry_inv (gm_get (inner g a) key)"
    "entry g t key = gm_get (inner g a) key"
  using assms by (simp_all add: grouped_inv_def entry_def)

lemma entry_inv_entry: "grouped_inv g \<Longrightarrow> entry_inv (entry g t key)"
  by (cases "gm_get (gk_subs g) t") (auto simp: entry_def grouped_inv_def entry_inv_def)

lemma inner_set [simp]:
  "a < length (gk_heap g) \<Longrightarrow> inner (set_inner a vv g) b = (if b = a then vv else inner g b)"
  "inner (g\<lparr>gk_metrics := mx\<rparr>) b = inner g b" "inner (g\<lparr>gk_subs := m\<rparr>) b = inner g b"
  "gk_subs (set_inner a vv g) = gk_subs g" "length (gk_heap (set_inner a vv g)) = length (gk_heap g)"
  "gk_fns (set_inner a vv g) = gk_fns g" "gk_manualConfirm (set_inner a vv g) = gk_manualConfirm g"
  by (simp_all add: inner_def set_inner_def nth_list_update)

text \<open>Replacing the inner map of one topic, and dropping the topic when the map is empty.\<close>

lemma grouped_update:
  assumes inv: "grouped_inv g" and a: "gm_get (gk_subs g) t = Some a"
    and wf: "gm_wf vv" and ei: "\<forall>key. entry_inv (gm_get vv key)"
    and g': "g' = (set_inner a vv g)\<lparr>gk_metrics := mx\<rparr> \<or>
      gm_len vv = 0 \<and> g' = (set_inner a vv g)\<lparr>gk_metrics := mx, gk_subs := gm_del (gk_subs g) t\<rparr>"
  shows "grouped_inv g'" "entry g' t' key = (if t' = t then gm_get vv key else entry g t' key)"
    "gk_fns g' = gk_fns g" "gk_manualConfirm g' = gk_manualConfirm g"
    "\<forall>t'. t' \<noteq> t \<longrightarrow> gm_get (gk_subs g') t' = gm_get (gk_subs g) t'"
    "gm_len vv \<noteq> 0 \<Longrightarrow> gk_subs g' = gk_subs g"
proof -
  note e = grouped_invD [OF inv a]
  have inj: "b = a \<longleftrightarrow> t' = t" if "gm_get (gk_subs g) t' = Some b" for t' b
    using that a inv unfolding grouped_inv_def by auto
  show "grouped_inv g'"
    using g' inv e(1) wf ei inj unfolding grouped_inv_def by (auto split: if_splits)
  show "entry g' t' key = (if t' = t then gm_get vv key else entry g t' key)"
    using g' e(1) a inj gm_len_0_iff [of vv] unfolding entry_def by (auto split: option.splits)
  show "gk_fns g' = gk_fns g" "gk_manualConfirm g' = gk_manualConfirm g"
    "\<forall>t'. t' \<noteq> t \<longrightarrow> gm_get (gk_subs g') t' = gm_get (gk_subs g) t'"
    "gm_len vv \<noteq> 0 \<Longrightarrow> gk_subs g' = gk_subs g"
    using g' by auto
qed

section \<open>Each operation on the entries\<close>

lemma grouped_subscribe_entries:
  assumes inv: "grouped_inv g" and sub: "grouped_subscribe t keys g = (g', fns)"
    and small: "\<forall>key. grouped_count g t key + length keys < 2 ^ 64"
  shows "grouped_inv g' \<and> (\<forall>t' key. entry g' t' key = (if t' = t then (sub1 ^^ count_list keys key) (entry g t key) else entry g t' key))"
proof -
  define g1 where "g1 = (case gm_get (gk_subs g) t of
      None \<Rightarrow> g\<lparr>gk_heap := gk_heap g @ [[]], gk_subs := gm_set (gk_subs g) t (length (gk_heap g))\<rparr> | Some a \<Rightarrow> g)"
  define a where "a = (case gm_get (gk_subs g) t of None \<Rightarrow> length (gk_heap g) | Some a \<Rightarrow> a)"
  have g1: "grouped_inv g1 \<and> gm_get (gk_subs g1) t = Some a \<and> (\<forall>t' key. entry g1 t' key = entry g t' key)"
  proof (cases "gm_get (gk_subs g) t")
    case None
    have n: "inner g1 b = (if b = length (gk_heap g) then [] else inner g b)" if "b \<le> length (gk_heap g)" for b
      using None that by (auto simp: g1_def inner_def nth_append)
    have lt: "b < length (gk_heap g)" if "gm_get (gk_subs g) t' = Some b" for t' b
      using inv that by (auto simp: grouped_inv_def)
    have subs: "gm_get (gk_subs g1) t' = (if t' = t then Some (length (gk_heap g)) else gm_get (gk_subs g) t')" for t'
      using None by (simp add: g1_def)
    have len: "length (gk_heap g1) = Suc (length (gk_heap g))" "gm_wf (gk_subs g1)"
      using None inv by (simp_all add: g1_def grouped_inv_def)
    have "grouped_inv g1"
      unfolding grouped_inv_def subs len(1) using inv len(2) lt n
      by (auto simp: grouped_inv_def entry_inv_def less_SucI less_imp_le split: if_splits dest: lt)
    moreover have "entry g1 t' key = entry g t' key" for t' key
      unfolding entry_def subs using None lt n by (auto split: option.split simp: less_imp_le)
    ultimately show ?thesis using None subs by (simp add: a_def)
  next
    case (Some b)
    then show ?thesis using inv by (simp add: g1_def a_def)
  qed
  obtain vv mx ok where l: "subscribe_keys keys (inner g1 a) (gk_metrics g1) False = (vv, mx, ok)" by (metis prod_cases3)
  have g': "g' = (set_inner a vv g1)\<lparr>gk_metrics := mx\<rparr>"
    using sub l by (auto simp: grouped_subscribe_def g1_def a_def Let_def split: option.splits)
  have e: "gm_get (inner g1 a) key = entry g t key" for key
    using g1 grouped_invD(4) [of g1 t a key] by simp
  have vv: "gm_get vv key = (sub1 ^^ count_list keys key) (entry g t key)" "gm_wf vv" for key
    using subscribe_keys_get [of keys "inner g1 a" "gk_metrics g1" False key] g1 grouped_invD(2) [of g1 t a] by (simp_all add: l e)
  have "entry_inv (gm_get vv key)" for key
  proof -
    have "entry_count (entry g t key) + count_list keys key < 2 ^ 64"
      using small [rule_format, of key] count_le_length [of keys key] by (simp add: grouped_count_def)
    then show ?thesis using sub1_entries entry_inv_entry [OF inv] vv(1) by metis
  qed
  then show ?thesis
    using grouped_update [of g1 t a vv g' mx] g1 vv g' by auto
qed

lemma count_list_distinct: "distinct xs \<Longrightarrow> count_list xs x = (if x \<in> set xs then 1 else 0)"
  by (induction xs) auto

lemma grouped_unsubscribe_sub_entries:
  assumes inv: "grouped_inv g" and a: "gm_get (gk_subs g) t = Some a"
    and u: "grouped_unsubscribe_sub t keys a decrMax g = (g', ok)" and keys: "decrMax \<Longrightarrow> distinct keys"
  shows "grouped_inv g' \<and> gk_fns g' = gk_fns g \<and>
    (\<forall>t' key. entry g' t' key = (if t' = t then (unsub1 decrMax ^^ count_list keys key) (entry g t key) else entry g t' key)) \<and>
    (\<forall>t'. t' \<noteq> t \<longrightarrow> gm_get (gk_subs g') t' = gm_get (gk_subs g) t')"
proof -
  obtain vv mx upd where l: "unsubscribe_keys decrMax keys (inner g a) (gk_metrics g) False = (vv, mx, upd)"
    by (metis prod_cases3)
  note e = grouped_invD [OF inv a]
  have vv: "gm_get vv key = (unsub1 decrMax ^^ count_list keys key) (entry g t key)" "gm_wf vv" for key
    using unsubscribe_keys_get [of decrMax keys "inner g a" "gk_metrics g" False key] e(2,4) by (simp_all add: l)
  have ei: "entry_inv (gm_get vv key)" for key
  proof (cases decrMax)
    case True
    then have "count_list keys key = (if key \<in> set keys then 1 else 0)"
      using keys count_list_distinct by metis
    then show ?thesis using True vv(1) unsub_all_entry entry_inv_entry [OF inv] by auto
  next
    case False
    then show ?thesis using vv(1) unsub1_entries entry_inv_entry [OF inv] by auto
  qed
  have "g' = (set_inner a vv g)\<lparr>gk_metrics := mx\<rparr> \<or>
      gm_len vv = 0 \<and> g' = (set_inner a vv g)\<lparr>gk_metrics := mx, gk_subs := gm_del (gk_subs g) t\<rparr>"
    using u by (auto simp: grouped_unsubscribe_sub_def l Let_def split: if_splits)
  from grouped_update [OF inv a vv(2) _ this] ei vv(1) show ?thesis by auto
qed


lemma grouped_unsubscribe_entries:
  assumes "grouped_inv g" and "grouped_unsubscribe t keys g = (g', fns)"
  shows "grouped_inv g' \<and>
    (\<forall>t' key. entry g' t' key = (if t' = t then (unsub1 False ^^ count_list keys key) (entry g t key) else entry g t' key))"
proof (cases "gm_get (gk_subs g) t")
  case None
  have n: "(unsub1 False ^^ n) None = None" for n by (induction n) simp_all
  have "entry g t key = None" for key using None by (simp add: entry_def)
  then show ?thesis using None assms n by (auto simp: grouped_unsubscribe_def)
next
  case (Some a)
  obtain g1 ok where u: "grouped_unsubscribe_sub t keys a False g = (g1, ok)" by force
  then have "g' = g1" using assms(2) Some by (simp add: grouped_unsubscribe_def)
  then show ?thesis using grouped_unsubscribe_sub_entries [OF assms(1) Some u] by simp
qed

text \<open>Loops over all topics: each topic that is visited gets a per-entry change.\<close>

definition orders_all :: "(('k, groupedSub) gomap \<Rightarrow> 'k list) \<Rightarrow> bool" where
  "orders_all ordk \<longleftrightarrow> (\<forall>vv. gm_wf vv \<longrightarrow> range_order vv (ordk vv))"

text \<open>A step that leaves missing entries alone acts once on every entry of an inner map.\<close>

lemma once_each:
  fixes f :: "groupedSub option \<Rightarrow> groupedSub option"
  assumes "grouped_inv g" and "gm_get (gk_subs g) t = Some a" and "orders_all ordk" and "f None = None"
  shows "(f ^^ count_list (ordk (inner g a)) key) (entry g t key) = f (entry g t key)"
    "distinct (ordk (inner g a))"
proof -
  have r: "range_order (inner g a) (ordk (inner g a))"
    using assms(3) grouped_invD(2) [OF assms(1,2)] by (simp add: orders_all_def)
  then show d: "distinct (ordk (inner g a))" by (rule range_order_distinct)
  show "(f ^^ count_list (ordk (inner g a)) key) (entry g t key) = f (entry g t key)"
    using count_list_distinct [OF d, of key] range_orderD [OF r, of key] grouped_invD(4) [OF assms(1,2), of key] assms(4)
    by (cases "entry g t key") auto
qed

lemma grouped_unsubscribe_loop_entries:
  assumes "grouped_inv g" and "distinct ord" and "orders_all ordk"
  shows "grouped_inv (fst (grouped_unsubscribe_loop ordk ord ok g)) \<and>
    (\<forall>t key. entry (fst (grouped_unsubscribe_loop ordk ord ok g)) t key =
       (if t \<in> set ord then unsub1 True (entry g t key) else entry g t key))"
  using assms
proof (induction ordk ord ok g rule: grouped_unsubscribe_loop.induct)
  case (1 ordk ok g)
  then show ?case by simp
next
  case (2 ordk t ord ok g)
  have n: "unsub1 True None = None" by (simp add: unsub1_def)
  show ?case
  proof (cases "gm_get (gk_subs g) t")
    case None
    then have "entry g t key = None" for key by (simp add: entry_def)
    with 2(1) [OF None 2(3) _ 2(5)] 2(4) None n show ?thesis by auto
  next
    case (Some a)
    obtain g1 ok1 where u: "grouped_unsubscribe_sub t (ordk (inner g a)) a True g = (g1, ok1)" by force
    note o = once_each [OF 2(3) Some 2(5), of "unsub1 True", OF n]
    note e = grouped_unsubscribe_sub_entries [OF 2(3) Some u o(2)]
    have "grouped_unsubscribe_loop ordk (t # ord) ok g = grouped_unsubscribe_loop ordk ord (if \<not> ok then ok1 else ok) g1"
      using Some u by simp
    with 2(2) [OF Some u [symmetric] refl _ _ 2(5)] e o 2(4) show ?thesis by auto
  qed
qed

lemma grouped_reset_entries:
  assumes "grouped_inv g" and "distinct ord" and "orders_all ordk"
  shows "grouped_inv (grouped_reset_all ordk ord g) \<and>
    (\<forall>t key. entry (grouped_reset_all ordk ord g) t key =
       (if t \<in> set ord then reset1 (entry g t key) else entry g t key)) \<and>
    gk_manualConfirm (grouped_reset_all ordk ord g) = gk_manualConfirm g"
  using assms
proof (induction ordk ord g rule: grouped_reset_all.induct)
  case (1 ordk g)
  then show ?case by simp
next
  case (2 ordk t ord g)
  have n: "reset1 None = None" by (simp add: reset1_def)
  show ?case
  proof (cases "gm_get (gk_subs g) t")
    case None
    then have "entry g t key = None" for key by (simp add: entry_def)
    with 2(1) [OF None 2(4) _ 2(6)] 2(5) None n show ?thesis by auto
  next
    case (Some a)
    obtain vv mx where l: "reset_keys (ordk (inner g a)) (inner g a) (gk_metrics g) = (vv, mx)" by force
    note o = once_each [OF 2(4) Some 2(6), of reset1, OF n]
    have vv: "gm_get vv key = reset1 (entry g t key)" "gm_wf vv" for key
      using reset_keys_get [of "ordk (inner g a)" "inner g a" "gk_metrics g" key] o(1) [of key]
        grouped_invD(2,4) [OF 2(4) Some] by (simp_all add: l)
    let ?g = "(set_inner a vv g)\<lparr>gk_metrics := mx\<rparr>"
    let ?h = "if gm_len vv = 0 then ?g\<lparr>gk_subs := gm_del (gk_subs ?g) t\<rparr> else ?g"
    have h: "?h = ?g \<or> gm_len vv = 0 \<and> ?h = (set_inner a vv g)\<lparr>gk_metrics := mx, gk_subs := gm_del (gk_subs g) t\<rparr>"
      by auto
    have "\<forall>key. entry_inv (gm_get vv key)" using vv(1) reset1_entry by metis
    note u = grouped_update [OF 2(4) Some vv(2) this h]
    have eq: "grouped_reset_all ordk (t # ord) g = grouped_reset_all ordk ord ?h"
      using Some l by (simp add: Let_def)
    have IH: "grouped_inv (grouped_reset_all ordk ord ?h) \<and>
        (\<forall>t key. entry (grouped_reset_all ordk ord ?h) t key = (if t \<in> set ord then reset1 (entry ?h t key) else entry ?h t key)) \<and>
        gk_manualConfirm (grouped_reset_all ordk ord ?h) = gk_manualConfirm ?h"
    proof (cases "gm_len vv = 0")
      case True
      then show ?thesis using 2(2) [OF Some l [symmetric] refl refl True _ _ 2(6)] u(1) 2(5) by simp
    next
      case False
      then show ?thesis using 2(3) [OF Some l [symmetric] refl refl False _ _ 2(6)] u(1) 2(5) by simp
    qed
    show ?thesis unfolding eq using IH u(2,4) vv(1) 2(5) by auto
  qed
qed

lemma grouped_confirm_entries:
  assumes inv: "grouped_inv g" and a: "gm_get (gk_subs g) t = Some a"
  shows "grouped_inv (grouped_confirm subbed t a keys g) \<and>
    (\<forall>t' key. entry (grouped_confirm subbed t a keys g) t' key =
       (if t' = t then (conf1 subbed ^^ count_list keys key) (entry g t key) else entry g t' key)) \<and>
    gk_manualConfirm (grouped_confirm subbed t a keys g) = gk_manualConfirm g \<and>
    (\<forall>t'. t' \<noteq> t \<longrightarrow> gm_get (gk_subs (grouped_confirm subbed t a keys g)) t' = gm_get (gk_subs g) t') \<and>
    ((\<exists>key. (conf1 subbed ^^ count_list keys key) (entry g t key) \<noteq> None) \<longrightarrow>
       gm_get (gk_subs (grouped_confirm subbed t a keys g)) t = Some a)"
proof -
  obtain vv mx where l: "confirm_keys subbed keys (inner g a) (gk_metrics g) = (vv, mx)" by force
  note e = grouped_invD [OF inv a]
  have vv: "gm_get vv key = (conf1 subbed ^^ count_list keys key) (entry g t key)" "gm_wf vv" for key
    using confirm_keys_get [of subbed keys "inner g a" "gk_metrics g" key] e(2,4) by (simp_all add: l)
  have ei: "\<forall>key. entry_inv (gm_get vv key)"
    using vv(1) conf1_entries entry_inv_entry [OF inv] by metis
  let ?g = "grouped_confirm subbed t a keys g"
  have "?g = (set_inner a vv g)\<lparr>gk_metrics := mx\<rparr> \<or>
      gm_len vv = 0 \<and> ?g = (set_inner a vv g)\<lparr>gk_metrics := mx, gk_subs := gm_del (gk_subs g) t\<rparr>"
    by (simp add: grouped_confirm_def l Let_def)
  note u = grouped_update [OF inv a vv(2) ei this]
  have "gm_len vv \<noteq> 0" if "\<exists>key. (conf1 subbed ^^ count_list keys key) (entry g t key) \<noteq> None"
    using that vv(1) gm_len_0_iff [of vv] by metis
  then have "(\<exists>key. (conf1 subbed ^^ count_list keys key) (entry g t key) \<noteq> None) \<longrightarrow> gm_get (gk_subs ?g) t = Some a"
    using u(6) a by simp
  then show ?thesis using u(1-5) vv(1) by simp
qed


section \<open>The keeper refines counts and beliefs\<close>

datatype 'k grouped_op =
    GSubscribe string "'k list" | GUnsubscribe string "'k list" | GUnsubscribeAll "string list"
  | GResetAll "string list" | GConfirmSub string "'k list" | GConfirmUnsub string bool "'k list"

fun grouped_step ::
  "(('k, groupedSub) gomap \<Rightarrow> 'k list) \<Rightarrow> 'k grouped_keeper \<Rightarrow> 'k grouped_op \<Rightarrow> 'k grouped_keeper" where
  "grouped_step ordk g (GSubscribe t keys) = fst (grouped_subscribe t keys g)"
| "grouped_step ordk g (GUnsubscribe t keys) = fst (grouped_unsubscribe t keys g)"
| "grouped_step ordk g (GUnsubscribeAll ord) = fst (grouped_unsubscribe_all ordk ord g)"
| "grouped_step ordk g (GResetAll ord) = grouped_reset_all ordk ord g"
| "grouped_step ordk g (GConfirmSub t keys) = grouped_confirm_sub t keys g"
| "grouped_step ordk g (GConfirmUnsub t invert keys) = grouped_confirm_unsub ordk t invert keys g"

text \<open>The loops visit the whole map, and no count reaches the end of the 64-bit range.\<close>

fun grouped_good :: "'k grouped_keeper \<Rightarrow> 'k grouped_op \<Rightarrow> bool" where
  "grouped_good g (GSubscribe t keys) = (\<forall>key. grouped_count g t key + length keys < 2 ^ 64)"
| "grouped_good g (GUnsubscribeAll ord) = range_order (gk_subs g) ord"
| "grouped_good g (GResetAll ord) = range_order (gk_subs g) ord"
| "grouped_good g op = True"

text \<open>The specification on the counts of the application's subscriptions and on the beliefs.\<close>

fun grouped_spec ::
  "(string \<Rightarrow> 'k \<Rightarrow> nat) \<times> (string \<times> 'k) set \<Rightarrow> 'k grouped_op \<Rightarrow> (string \<Rightarrow> 'k \<Rightarrow> nat) \<times> (string \<times> 'k) set" where
  "grouped_spec (C, B) (GSubscribe t keys) =
     (\<lambda>t' key. C t' key + (if t' = t then count_list keys key else 0),
      {(t', key) \<in> B. t' = t \<and> key \<in> set keys \<longrightarrow> C t' key \<noteq> 0})"
| "grouped_spec (C, B) (GUnsubscribe t keys) =
     (\<lambda>t' key. C t' key - (if t' = t then count_list keys key else 0), B)"
| "grouped_spec (C, B) (GUnsubscribeAll ord) = (\<lambda>t' key. 0, B \<union> {(t', key). 2 \<le> C t' key})"
| "grouped_spec (C, B) (GResetAll ord) = (C, {})"
| "grouped_spec (C, B) (GConfirmSub t keys) = (C, B \<union> {(t', key). t' = t \<and> key \<in> set keys \<and> C t' key \<noteq> 0})"
| "grouped_spec (C, B) (GConfirmUnsub t invert keys) =
     (C, {(t', key) \<in> B. t' = t \<and> (key \<in> set keys) \<noteq> invert \<longrightarrow> C t' key \<noteq> 0})"

definition grouped_abs :: "'k grouped_keeper \<Rightarrow> (string \<Rightarrow> 'k \<Rightarrow> nat) \<times> (string \<times> 'k) set" where
  "grouped_abs g = (grouped_count g, grouped_believed g)"

text \<open>From the values of all entries to the abstract state.\<close>

lemma grouped_absI:
  assumes "\<And>t key. entry_count (entry g' t key) = C t key" and "\<And>t key. entry_believed (entry g' t key) \<longleftrightarrow> (t, key) \<in> B"
  shows "grouped_abs g' = (C, B)"
  using assms by (auto simp: grouped_abs_def grouped_count_def grouped_believed_def fun_eq_iff)

lemma entry_outside: "grouped_inv g \<Longrightarrow> range_order (gk_subs g) ord \<Longrightarrow> t \<notin> set ord \<Longrightarrow> entry g t key = None"
  by (simp add: entry_def range_orderD)

lemma fold_gm_del:
  "gm_get (fold (\<lambda>key m. gm_del m key) keys m) k = (if k \<in> set keys then None else gm_get m k) \<and>
   (gm_wf m \<longrightarrow> gm_wf (fold (\<lambda>key m. gm_del m key) keys m))"
  by (induction keys arbitrary: m) auto

lemma grouped_confirm_abs:
  assumes inv: "grouped_inv g" and a: "gm_get (gk_subs g) t = Some a"
    and ks: "\<forall>key. entry g t key \<noteq> None \<longrightarrow> (key \<in> set keys \<longleftrightarrow> P key)"
  shows "grouped_inv (grouped_confirm subbed t a keys g)"
    "grouped_abs (grouped_confirm subbed t a keys g) = (grouped_count g,
       if subbed then grouped_believed g \<union> {(t', key). t' = t \<and> P key \<and> grouped_count g t' key \<noteq> 0}
       else {(t', key) \<in> grouped_believed g. t' = t \<and> P key \<longrightarrow> grouped_count g t' key \<noteq> 0})"
proof -
  note c = grouped_confirm_entries [OF inv a, of subbed keys]
  show "grouped_inv (grouped_confirm subbed t a keys g)" using c by blast
  have n: "count_list keys key \<noteq> 0 \<longleftrightarrow> P key" if "entry g t key \<noteq> None" for key
    using ks that by (simp add: count_list_0_iff)
  have v: "entry_count ((conf1 subbed ^^ count_list keys key) (entry g t key)) = grouped_count g t key \<and>
      (entry_believed ((conf1 subbed ^^ count_list keys key) (entry g t key)) \<longleftrightarrow>
        (if P key \<and> (grouped_count g t key \<noteq> 0) = subbed then subbed \<and> entry g t key \<noteq> None else (t, key) \<in> grouped_believed g))" for key
  proof (cases "entry g t key = None")
    case True
    have "(conf1 subbed ^^ n) None = None" for n by (induction n) simp_all
    with True show ?thesis by (auto simp: grouped_count_def grouped_believed_def entry_defs)
  next
    case False
    then show ?thesis
      using conf1_entries [OF entry_inv_entry [OF inv, of t key], where subbed = subbed and n = "count_list keys key"] n [OF False]
      by (auto simp: grouped_count_def grouped_believed_def)
  qed
  have none: "grouped_count g t key \<noteq> 0 \<Longrightarrow> entry g t key \<noteq> None" for key
    by (cases "entry g t key") (simp_all add: grouped_count_def entry_count_def)
  show "grouped_abs (grouped_confirm subbed t a keys g) = (grouped_count g,
       if subbed then grouped_believed g \<union> {(t', key). t' = t \<and> P key \<and> grouped_count g t' key \<noteq> 0}
       else {(t', key) \<in> grouped_believed g. t' = t \<and> P key \<longrightarrow> grouped_count g t' key \<noteq> 0})"
  proof (rule grouped_absI)
    fix t' key
    have e: "entry (grouped_confirm subbed t a keys g) t' key =
        (if t' = t then (conf1 subbed ^^ count_list keys key) (entry g t key) else entry g t' key)"
      using c by blast
    show "entry_count (entry (grouped_confirm subbed t a keys g) t' key) = grouped_count g t' key"
      using e v [of key] by (auto simp: grouped_count_def)
    show "entry_believed (entry (grouped_confirm subbed t a keys g) t' key) \<longleftrightarrow>
        (t', key) \<in> (if subbed then grouped_believed g \<union> {(t', key). t' = t \<and> P key \<and> grouped_count g t' key \<noteq> 0}
          else {(t', key) \<in> grouped_believed g. t' = t \<and> P key \<longrightarrow> grouped_count g t' key \<noteq> 0})"
    proof (cases "t' = t")
      case True
      then show ?thesis using e v [of key] none [of key] by auto
    next
      case False
      then show ?thesis using e by (auto simp: grouped_believed_def)
    qed
  qed
qed


lemma grouped_keeper_correct:
  assumes inv: "grouped_inv g" and good: "grouped_good g op" and ordk: "orders_all ordk"
  shows "grouped_inv (grouped_step ordk g op) \<and> grouped_abs (grouped_step ordk g op) = grouped_spec (grouped_abs g) op"
proof (cases op)
  case (GSubscribe t keys)
  obtain g' fns where s: "grouped_subscribe t keys g = (g', fns)" by force
  have small: "\<forall>key. grouped_count g t key + length keys < 2 ^ 64" using good GSubscribe by simp
  note r = grouped_subscribe_entries [OF inv s small]
  have e: "entry_count (entry g' t' key) = grouped_count g t' key + (if t' = t then count_list keys key else 0) \<and>
      (entry_believed (entry g' t' key) \<longleftrightarrow>
        (t', key) \<in> grouped_believed g \<and> (t' = t \<and> key \<in> set keys \<longrightarrow> grouped_count g t' key \<noteq> 0))" for t' key
  proof (cases "t' = t")
    case True
    have "entry_count (entry g t key) + count_list keys key < 2 ^ 64"
      using small [rule_format, of key] count_le_length [of keys key] by (simp add: grouped_count_def)
    then show ?thesis
      using sub1_entries [OF entry_inv_entry [OF inv, of t key], of "count_list keys key"] r True
      by (auto simp: grouped_count_def grouped_believed_def count_list_0_iff)
  next
    case False
    then show ?thesis using r by (auto simp: grouped_count_def grouped_believed_def)
  qed
  have "grouped_abs g' = grouped_spec (grouped_abs g) op"
    unfolding GSubscribe grouped_abs_def [of g] grouped_spec.simps by (rule grouped_absI) (use e in auto)
  then show ?thesis using r GSubscribe s by simp
next
  case (GUnsubscribe t keys)
  obtain g' fns where s: "grouped_unsubscribe t keys g = (g', fns)" by force
  note r = grouped_unsubscribe_entries [OF inv s]
  have e: "entry_count (entry g' t' key) = grouped_count g t' key - (if t' = t then count_list keys key else 0) \<and>
      (entry_believed (entry g' t' key) \<longleftrightarrow> (t', key) \<in> grouped_believed g)" for t' key
    using r unsub1_entries [OF entry_inv_entry [OF inv, of t key], of "count_list keys key"]
    by (auto simp: grouped_count_def grouped_believed_def)
  have "grouped_abs g' = grouped_spec (grouped_abs g) op"
    unfolding GUnsubscribe grouped_abs_def [of g] grouped_spec.simps by (rule grouped_absI) (use e in auto)
  then show ?thesis using r GUnsubscribe s by simp
next
  case (GUnsubscribeAll ord)
  have o: "range_order (gk_subs g) ord" using good GUnsubscribeAll by simp
  let ?g = "fst (grouped_unsubscribe_loop ordk ord False g)"
  note r = grouped_unsubscribe_loop_entries [OF inv range_order_distinct [OF o] ordk, of False]
  have e: "entry ?g t key = unsub1 True (entry g t key)" for t key
    using r entry_outside [OF inv o, of t key] by (cases "t \<in> set ord") auto
  have "grouped_abs ?g = grouped_spec (grouped_abs g) op"
    unfolding GUnsubscribeAll grouped_abs_def [of g] grouped_spec.simps
    by (rule grouped_absI)
      (use unsub_all_entry [OF entry_inv_entry [OF inv]] in \<open>auto simp: e grouped_count_def grouped_believed_def\<close>)
  then show ?thesis using r GUnsubscribeAll by (simp add: grouped_unsubscribe_all_def case_prod_unfold Let_def)
next
  case (GResetAll ord)
  have o: "range_order (gk_subs g) ord" using good GResetAll by simp
  note r = grouped_reset_entries [OF inv range_order_distinct [OF o] ordk]
  have e: "entry (grouped_reset_all ordk ord g) t key = reset1 (entry g t key)" for t key
    using r entry_outside [OF inv o, of t key] by (cases "t \<in> set ord") auto
  have "grouped_abs (grouped_reset_all ordk ord g) = grouped_spec (grouped_abs g) op"
    unfolding GResetAll grouped_abs_def [of g] grouped_spec.simps
    by (rule grouped_absI) (use reset1_entry in \<open>auto simp: e grouped_count_def\<close>)
  then show ?thesis using r GResetAll by simp
next
  case (GConfirmSub t keys)
  show ?thesis
  proof (cases "gm_get (gk_subs g) t")
    case None
    then have "entry g t key = None" for key by (simp add: entry_def)
    then have "grouped_count g t key = 0" for key by (simp add: grouped_count_def entry_count_def)
    then show ?thesis using GConfirmSub None inv by (auto simp: grouped_confirm_sub_def grouped_abs_def)
  next
    case (Some a)
    show ?thesis
      using grouped_confirm_abs [OF inv Some, of keys "\<lambda>key. key \<in> set keys" True] GConfirmSub Some
      by (simp add: grouped_confirm_sub_def grouped_abs_def)
  qed
next
  case (GConfirmUnsub t invert keys)
  show ?thesis
  proof (cases "gm_get (gk_subs g) t")
    case None
    then have "entry g t key = None" for key by (simp add: entry_def)
    then have "(t, key) \<notin> grouped_believed g" for key by (simp add: grouped_believed_def entry_believed_def)
    then show ?thesis using GConfirmUnsub None inv by (auto simp: grouped_confirm_unsub_def grouped_abs_def)
  next
    case (Some a)
    let ?keys = "if invert then ordk (fold (\<lambda>key vv1. gm_del vv1 key) keys (inner g a)) else keys"
    have "\<forall>key. entry g t key \<noteq> None \<longrightarrow> (key \<in> set ?keys \<longleftrightarrow> (key \<in> set keys) \<noteq> invert)"
    proof (cases invert)
      case True
      let ?m = "fold (\<lambda>key vv1. gm_del vv1 key) keys (inner g a)"
      have "gm_wf ?m" using fold_gm_del [of keys "inner g a"] grouped_invD(2) [OF inv Some] by simp
      then have ro: "range_order ?m (ordk ?m)" using ordk by (simp add: orders_all_def)
      have "key \<in> set (ordk ?m) \<longleftrightarrow> key \<notin> set keys \<and> gm_get (inner g a) key \<noteq> None" for key
        using range_orderD [OF ro, of key] fold_gm_del [of keys "inner g a" key] by simp
      then show ?thesis using True grouped_invD(4) [OF inv Some] by simp
    qed simp
    from grouped_confirm_abs [OF inv Some this, of False] show ?thesis
      using GConfirmUnsub Some by (simp add: grouped_confirm_unsub_def grouped_abs_def)
  qed
qed

text \<open>
  C35. The keeper of groups implements, operation by operation and in whatever order its loops run, a
  count for every topic and key and a set of beliefs: as many unsubscriptions as subscriptions are
  needed (up to the 64-bit range), a reset keeps the counts and forgets the beliefs, confirmations
  settle the listed keys, or all others when inverted. Two beliefs are wrong by design of the code:
  subscribing anew during an unsubscription forgets that the other side still holds the key, and
  \<open>UnsubscribeAll\<close> takes a key subscribed twice for confirmed.
\<close>

theorem grouped_keeper_refines:
  assumes "grouped_inv g" and "grouped_good g op" and "orders_all ordk"
  shows "grouped_inv (grouped_step ordk g op) \<and> grouped_abs (grouped_step ordk g op) = grouped_spec (grouped_abs g) op"
  using grouped_keeper_correct [OF assms] .


lemma grouped_new:
  "grouped_inv (new_grouped_sub_keeper mx cooldown manual)" "entry (new_grouped_sub_keeper mx cooldown manual) t key = None"
  "grouped_count (new_grouped_sub_keeper mx cooldown manual) t key = 0"
  by (simp_all add: new_grouped_sub_keeper_def grouped_inv_def entry_def grouped_count_def entry_count_def)

lemma orders_all_keys: "orders_all gm_keys"
  by (simp add: orders_all_def range_order_keys)

text \<open>A keeper to evaluate on: one topic, three subscriptions to two keys.\<close>

definition empty_grouped :: "nat grouped_keeper" where
  "empty_grouped = new_grouped_sub_keeper \<lparr>mx_subs = 0, mx_sub_confirmations = 0, mx_unsub_confirmations = 0\<rparr> 0 False"

definition sample_grouped :: "nat grouped_keeper" where
  "sample_grouped = fst (grouped_subscribe ''trades'' [1, 2, 1] empty_grouped)"

lemma sample_grouped_facts:
  "grouped_inv sample_grouped" "grouped_count sample_grouped t key = (if t = ''trades'' then count_list [1, 2, 1] key else 0)"
  "grouped_believed sample_grouped = {}"
proof -
  have "\<forall>key. grouped_count empty_grouped ''trades'' key + length [1, 2, 1 :: nat] < 2 ^ 64" "grouped_inv empty_grouped"
    by (simp_all add: empty_grouped_def grouped_new)
  from grouped_subscribe_entries [OF this(2) _ this(1), of sample_grouped]
  have s: "grouped_inv sample_grouped" and
    "\<forall>t' key. entry sample_grouped t' key = (if t' = ''trades'' then
       (sub1 ^^ count_list [1, 2, 1] key) (entry empty_grouped ''trades'' key) else entry empty_grouped t' key)"
    by (simp_all add: sample_grouped_def prod_eq_iff)
  then have e: "entry sample_grouped t key = (if t = ''trades'' then (sub1 ^^ count_list [1, 2, 1] key) None else None)" for t key
    by (simp add: empty_grouped_def grouped_new)
  show "grouped_inv sample_grouped" by (rule s)
  have i: "entry_inv None" "entry_count None = 0" "\<not> entry_believed None" by (simp_all add: entry_defs)
  have "count_list [1, 2, 1 :: nat] key < 2 ^ 64" for key
    using count_le_length [of "[1, 2, 1 :: nat]" key] by (simp del: count_list.simps)
  then show "grouped_count sample_grouped t key = (if t = ''trades'' then count_list [1, 2, 1] key else 0)"
    "grouped_believed sample_grouped = {}"
    using sub1_entries [OF i(1)] by (auto simp: grouped_count_def grouped_believed_def e i simp del: count_list.simps)
qed

theorem grouped_keeper_refines_witness:
  "grouped_abs (grouped_step gm_keys sample_grouped (GConfirmSub ''trades'' [1])) =
     (grouped_count sample_grouped, {(''trades'', 1)})"
  using grouped_keeper_refines [OF sample_grouped_facts(1) _ orders_all_keys, of "GConfirmSub ''trades'' [1]"]
  by (auto simp: grouped_abs_def sample_grouped_facts(2,3))


section \<open>The keeper provides the contract\<close>

definition needs :: "bool \<Rightarrow> groupedSub option \<Rightarrow> bool" where
  "needs subbed e = (case e of None \<Rightarrow> False | Some v \<Rightarrow> \<not> gs_confirmed v \<and> (gs_count v \<noteq> 0) = subbed)"

definition grouped_is_payloads :: "'k grouped_keeper \<Rightarrow> 'k groupedPayload list \<Rightarrow> bool" where
  "grouped_is_payloads g pp \<longleftrightarrow>
     (\<exists>ordk ord. orders_all ordk \<and> range_order (gk_subs g) ord \<and> pp = fst (grouped_payloads ordk ord g))"

definition grouped_valid :: "'k grouped_keeper \<Rightarrow> 'k groupedPayload \<Rightarrow> bool" where
  "grouped_valid g p \<longleftrightarrow> gm_get (gk_subs g) (gp_topic p) = Some (gp_topicData p) \<and> gp_keys p \<noteq> [] \<and>
     (\<forall>key \<in> set (gp_keys p). \<exists>v. entry g (gp_topic p) key = Some v \<and> (gs_count v \<noteq> 0) = gp_subbed p)"

definition grouped_items :: "'k grouped_keeper \<Rightarrow> 'k groupedPayload \<Rightarrow> (string \<times> 'k) set" where
  "grouped_items g p = {gp_topic p} \<times> set (gp_keys p)"

definition grouped_confirmed :: "'k grouped_keeper \<Rightarrow> 'k groupedPayload \<Rightarrow> 'k grouped_keeper" where
  "grouped_confirmed g p = grouped_confirm (gp_subbed p) (gp_topic p) (gp_topicData p) (gp_keys p) g"

definition grouped_reset :: "'k grouped_keeper \<Rightarrow> 'k grouped_keeper" where
  "grouped_reset g = grouped_reset_all gm_keys (gm_keys (gk_subs g)) g"

definition grouped_mode :: "bool \<Rightarrow> 'k grouped_keeper \<Rightarrow> bool" where
  "grouped_mode m g \<longleftrightarrow> grouped_inv g \<and> gk_manualConfirm g = m"

lemma pending_keys_filter:
  "pending_keys vv ks = (filter (\<lambda>key. needs True (gm_get vv key)) ks, filter (\<lambda>key. needs False (gm_get vv key)) ks)"
  by (induction ks) (auto simp: needs_def split: option.split)

text \<open>What the payloads are: for each topic and direction the pending keys, if there are any.\<close>

lemma grouped_payloads_loop_iff:
  "p \<in> set (grouped_payloads_loop ordk ord g) \<longleftrightarrow>
     gp_topic p \<in> set ord \<and> gm_get (gk_subs g) (gp_topic p) = Some (gp_topicData p) \<and> gp_keys p \<noteq> [] \<and>
     gp_keys p = filter (\<lambda>key. needs (gp_subbed p) (gm_get (inner g (gp_topicData p)) key)) (ordk (inner g (gp_topicData p)))"
proof (induction ord)
  case (Cons t ord)
  obtain t' b keys a where p: "p = \<lparr>gp_topic = t', gp_subbed = b, gp_keys = keys, gp_topicData = a\<rparr>" by (cases p) auto
  show ?case
    using Cons.IH by (cases "gm_get (gk_subs g) t"; cases b) (auto simp: p pending_keys_filter Let_def)
qed simp

lemma grouped_payloads_valid:
  assumes inv: "grouped_inv g" and o: "orders_all ordk" and "p \<in> set (grouped_payloads_loop ordk ord g)"
  shows "grouped_valid g p" "key \<in> set (gp_keys p) \<longleftrightarrow> needs (gp_subbed p) (entry g (gp_topic p) key)"
proof -
  let ?m = "inner g (gp_topicData p)"
  have p: "gm_get (gk_subs g) (gp_topic p) = Some (gp_topicData p)" "gp_keys p \<noteq> []"
    "gp_keys p = filter (\<lambda>key. needs (gp_subbed p) (gm_get ?m key)) (ordk ?m)"
    using assms(3) unfolding grouped_payloads_loop_iff by blast+
  have "range_order ?m (ordk ?m)" using o grouped_invD(2) [OF inv p(1)] by (simp add: orders_all_def)
  from range_orderD [OF this] have k: "key \<in> set (gp_keys p) \<longleftrightarrow> needs (gp_subbed p) (entry g (gp_topic p) key)" for key
    unfolding grouped_invD(4) [OF inv p(1)] by (subst p(3)) (auto simp: needs_def split: option.split)
  then show "key \<in> set (gp_keys p) \<longleftrightarrow> needs (gp_subbed p) (entry g (gp_topic p) key)" .
  show "grouped_valid g p"
    using p(1,2) k by (auto simp: grouped_valid_def needs_def split: option.splits)
qed

lemma grouped_items_same:
  assumes "grouped_valid g p" and "grouped_valid g q" and "gp_topic p \<noteq> gp_topic q \<or> gp_subbed p \<noteq> gp_subbed q"
  shows "grouped_items g p \<inter> grouped_items g q = {}"
  using assms unfolding grouped_valid_def grouped_items_def by fastforce

lemma grouped_payloads_separate:
  assumes inv: "grouped_inv g" and o: "orders_all ordk" and "distinct ord"
  shows "separate grouped_valid grouped_items g (grouped_payloads_loop ordk ord g)"
  using assms(3)
proof (induction ord)
  case (Cons t ord)
  have v: "grouped_valid g p" if "p \<in> set (grouped_payloads_loop ordk (t # ord) g)" for p
    using grouped_payloads_valid(1) [OF inv o that] .
  have t: "gp_topic p \<in> set ord" if "p \<in> set (grouped_payloads_loop ordk ord g)" for p
    using that by (simp add: grouped_payloads_loop_iff)
  have sep: "grouped_items g p \<inter> grouped_items g q = {}"
    if "grouped_valid g p" "gp_topic p = t" "q \<in> set (grouped_payloads_loop ordk ord g)" for p q
  proof -
    have "gp_topic p \<noteq> gp_topic q" using t [OF that(3)] that(2) Cons.prems by auto
    then show ?thesis using grouped_items_same [OF that(1) grouped_payloads_valid(1) [OF inv o that(3)]] by blast
  qed
  show ?case
  proof (cases "gm_get (gk_subs g) t")
    case None
    then show ?thesis using Cons by simp
  next
    case (Some a)
    obtain subKeys unsubKeys where k: "pending_keys (inner g a) (ordk (inner g a)) = (subKeys, unsubKeys)" by force
    define p q where "p = \<lparr>gp_topic = t, gp_subbed = True, gp_keys = subKeys, gp_topicData = a\<rparr>"
      and "q = \<lparr>gp_topic = t, gp_subbed = False, gp_keys = unsubKeys, gp_topicData = a\<rparr>"
    have l: "grouped_payloads_loop ordk (t # ord) g =
        (if subKeys \<noteq> [] then [p] else []) @ (if unsubKeys \<noteq> [] then [q] else []) @ grouped_payloads_loop ordk ord g"
      using Some k by (simp add: p_def q_def Let_def)
    have pq: "subKeys \<noteq> [] \<Longrightarrow> grouped_valid g p" "unsubKeys \<noteq> [] \<Longrightarrow> grouped_valid g q" using v unfolding l by simp_all
    have "gp_topic p = t" "gp_topic q = t" "gp_subbed p \<noteq> gp_subbed q" by (simp_all add: p_def q_def)
    then show ?thesis
      unfolding l using Cons pq sep grouped_items_same [of g p q] by (simp add: list_all_iff)
  qed
qed simp

lemma grouped_payloads_cover:
  assumes inv: "grouped_inv g" and o: "orders_all ordk" and ord: "range_order (gk_subs g) ord"
  shows "(\<Union>p \<in> set (grouped_payloads_loop ordk ord g). grouped_items g p) =
    (grouped_wanted g - grouped_believed g) \<union> (grouped_believed g - grouped_wanted g)"
proof -
  have n: "needs True (entry g t key) \<or> needs False (entry g t key) \<longleftrightarrow>
      (t, key) \<in> (grouped_wanted g - grouped_believed g) \<union> (grouped_believed g - grouped_wanted g)" for t key
    using entry_inv_entry [OF inv, of t key]
    by (cases "entry g t key")
      (auto simp: needs_def grouped_wanted_def grouped_believed_def grouped_count_def entry_defs unat_eq_0 unat_gt_0)
  have "(t, key) \<in> (\<Union>p \<in> set (grouped_payloads_loop ordk ord g). grouped_items g p) \<longleftrightarrow>
      needs True (entry g t key) \<or> needs False (entry g t key)" (is "?l \<longleftrightarrow> ?r") for t key
  proof
    assume ?l
    then obtain p where p: "p \<in> set (grouped_payloads_loop ordk ord g)" "gp_topic p = t" "key \<in> set (gp_keys p)"
      by (auto simp: grouped_items_def)
    then show ?r using grouped_payloads_valid(2) [OF inv o p(1), of key] by (cases "gp_subbed p") auto
  next
    assume ?r
    then obtain b where b: "needs b (entry g t key)" by blast
    then obtain a where a: "gm_get (gk_subs g) t = Some a"
      by (cases "gm_get (gk_subs g) t") (auto simp: entry_def needs_def)
    let ?keys = "filter (\<lambda>key. needs b (gm_get (inner g a) key)) (ordk (inner g a))"
    let ?p = "\<lparr>gp_topic = t, gp_subbed = b, gp_keys = ?keys, gp_topicData = a\<rparr>"
    have "range_order (inner g a) (ordk (inner g a))" using o grouped_invD(2) [OF inv a] by (simp add: orders_all_def)
    from range_orderD [OF this, of key] b have k: "key \<in> set ?keys"
      unfolding grouped_invD(4) [OF inv a, of key] by (auto simp: needs_def split: option.splits)
    then have ne: "?keys \<noteq> []" by (metis list.set(1) empty_iff)
    have "t \<in> set ord" using range_orderD [OF ord, of t] a by simp
    then have "?p \<in> set (grouped_payloads_loop ordk ord g)"
      unfolding grouped_payloads_loop_iff using ne a by simp
    with k show ?l unfolding grouped_items_def by force
  qed
  with n show ?thesis by (intro set_eqI) (metis surj_pair)
qed


lemma grouped_valid_wanted:
  assumes v: "grouped_valid g p" and k: "key \<in> set (gp_keys p)"
  shows "(grouped_count g (gp_topic p) key \<noteq> 0) = gp_subbed p" "(gp_topic p, key) \<in> grouped_wanted g \<longleftrightarrow> gp_subbed p"
proof -
  obtain v' where "entry g (gp_topic p) key = Some v'" "(gs_count v' \<noteq> 0) = gp_subbed p"
    using v k unfolding grouped_valid_def by blast
  then show c: "(grouped_count g (gp_topic p) key \<noteq> 0) = gp_subbed p"
    by (simp add: grouped_count_def entry_count_def unat_eq_0)
  show "(gp_topic p, key) \<in> grouped_wanted g \<longleftrightarrow> gp_subbed p"
    unfolding grouped_wanted_def c [symmetric] by simp
qed

lemma grouped_confirmed_correct:
  assumes inv: "grouped_inv g" and v: "grouped_valid g p"
  shows "grouped_inv (grouped_confirmed g p) \<and> grouped_wanted (grouped_confirmed g p) = grouped_wanted g \<and>
    grouped_believed (grouped_confirmed g p) = delivered (grouped_items g p) (grouped_wanted g) (grouped_believed g) \<and>
    gk_manualConfirm (grouped_confirmed g p) = gk_manualConfirm g"
proof -
  have a: "gm_get (gk_subs g) (gp_topic p) = Some (gp_topicData p)" using v by (simp add: grouped_valid_def)
  have keys: "(grouped_count g (gp_topic p) key \<noteq> 0) = gp_subbed p" if "key \<in> set (gp_keys p)" for key
    using grouped_valid_wanted(1) [OF v that] .
  note c = grouped_confirm_abs [OF inv a, of "gp_keys p" "\<lambda>key. key \<in> set (gp_keys p)" "gp_subbed p", folded grouped_confirmed_def]
  have "grouped_wanted (grouped_confirmed g p) = grouped_wanted g"
    using c(2) by (simp add: grouped_abs_def grouped_wanted_def)
  moreover have "grouped_believed (grouped_confirmed g p) = delivered (grouped_items g p) (grouped_wanted g) (grouped_believed g)"
    using c(2) keys by (cases "gp_subbed p") (auto simp: grouped_abs_def delivered_def grouped_items_def grouped_wanted_def)
  ultimately show ?thesis
    using c(1) grouped_confirm_entries [OF inv a] by (simp add: grouped_confirmed_def)
qed

lemma grouped_confirmed_other:
  assumes inv: "grouped_inv g" and p: "grouped_valid g p" and q: "grouped_valid g q"
    and sep: "grouped_items g p \<inter> grouped_items g q = {}"
  shows "grouped_valid (grouped_confirmed g p) q"
proof -
  have a: "gm_get (gk_subs g) (gp_topic p) = Some (gp_topicData p)" using p by (simp add: grouped_valid_def)
  note c = grouped_confirm_entries [OF inv a, where subbed = "gp_subbed p" and keys = "gp_keys p", folded grouped_confirmed_def]
  have e: "entry (grouped_confirmed g p) (gp_topic q) key = entry g (gp_topic q) key" if "key \<in> set (gp_keys q)" for key
  proof (cases "gp_topic q = gp_topic p")
    case True
    then have "count_list (gp_keys p) key = 0" using sep that by (auto simp: grouped_items_def count_list_0_iff)
    then show ?thesis using c True by simp
  next
    case False
    then show ?thesis using c by simp
  qed
  have "gm_get (gk_subs (grouped_confirmed g p)) (gp_topic q) = Some (gp_topicData q)"
  proof (cases "gp_topic q = gp_topic p")
    case True
    have k: "hd (gp_keys q) \<in> set (gp_keys q)" (is "?key \<in> _") using q by (simp add: grouped_valid_def)
    have "entry (grouped_confirmed g p) (gp_topic q) ?key \<noteq> None" using e [OF k] q k by (auto simp: grouped_valid_def)
    then have "gm_get (gk_subs (grouped_confirmed g p)) (gp_topic p) = Some (gp_topicData p)"
      using c True by (metis (no_types, lifting))
    then show ?thesis using True q a by (simp add: grouped_valid_def)
  next
    case False
    then show ?thesis using c q by (simp add: grouped_valid_def)
  qed
  then show ?thesis using q e by (simp add: grouped_valid_def)
qed

lemma grouped_reset_correct:
  assumes inv: "grouped_inv g" and o: "orders_all ordk" and ord: "range_order (gk_subs g) ord"
  shows "grouped_inv (grouped_reset_all ordk ord g) \<and> grouped_wanted (grouped_reset_all ordk ord g) = grouped_wanted g \<and>
    grouped_believed (grouped_reset_all ordk ord g) = {} \<and>
    gk_manualConfirm (grouped_reset_all ordk ord g) = gk_manualConfirm g"
  using grouped_keeper_correct [OF inv _ o, of "GResetAll ord"] ord grouped_reset_entries [OF inv range_order_distinct [OF ord] o]
  by (simp add: grouped_abs_def grouped_wanted_def)

interpretation grouped: sub_keeper "grouped_mode m" grouped_wanted grouped_believed grouped_is_payloads grouped_valid
  grouped_items grouped_confirmed grouped_reset for m
proof
  fix g :: "'a grouped_keeper" and pp
  assume "grouped_mode m g" and "grouped_is_payloads g pp"
  then obtain ordk ord where "grouped_inv g" "orders_all ordk" "range_order (gk_subs g) ord"
    and pp: "pp = grouped_payloads_loop ordk ord g"
    by (auto simp: grouped_mode_def grouped_is_payloads_def grouped_payloads_def)
  then show "separate grouped_valid grouped_items g pp"
    "(\<Union>p \<in> set pp. grouped_items g p) = (grouped_wanted g - grouped_believed g) \<union> (grouped_believed g - grouped_wanted g)"
    using grouped_payloads_separate range_order_distinct grouped_payloads_cover by metis+
next
  fix g :: "'a grouped_keeper" and p
  assume "grouped_mode m g" and v: "grouped_valid g p"
  then show "grouped_mode m (grouped_confirmed g p) \<and> grouped_wanted (grouped_confirmed g p) = grouped_wanted g \<and>
      grouped_believed (grouped_confirmed g p) = delivered (grouped_items g p) (grouped_wanted g) (grouped_believed g)"
    using grouped_confirmed_correct [of g p] by (simp add: grouped_mode_def)
  fix q
  assume "grouped_mode m g" "grouped_valid g q" "grouped_items g p \<inter> grouped_items g q = {}"
  then show "grouped_valid (grouped_confirmed g p) q \<and> grouped_items (grouped_confirmed g p) q = grouped_items g q"
    using grouped_confirmed_other [of g p q] v by (simp add: grouped_mode_def grouped_items_def)
next
  fix g :: "'a grouped_keeper"
  assume mode: "grouped_mode m g"
  then have "range_order (gk_subs g) (gm_keys (gk_subs g))"
    by (intro range_order_keys) (simp add: grouped_mode_def grouped_inv_def)
  then show "grouped_mode m (grouped_reset g) \<and> grouped_wanted (grouped_reset g) = grouped_wanted g \<and>
      grouped_believed (grouped_reset g) = {}"
    using grouped_reset_correct [OF _ orders_all_keys, of g "gm_keys (gk_subs g)"] mode by (simp add: grouped_mode_def grouped_reset_def)
qed

section \<open>Where counts, maps and messages part\<close>

definition accept_groups :: "('k, 'm, 'd) grouped_formatter" where
  "accept_groups = \<lparr>gf_SubMessage = (\<lambda>_ _. None), gf_UnsubMessage = (\<lambda>_ _. None),
     gf_ConfirmSub = (\<lambda>_ _ _. True), gf_ConfirmUnsub = (\<lambda>_ _ _. True)\<rparr>"


end
