(* ===== verification/Ws_Shards.thy ===== *)
theory Ws_Shards
  imports Ws_Solo_Keeper Ws_Grouped_Keeper "HOL-Library.Signed_Division"
begin

text \<open>
  Stores that spread subscriptions over several keepers, one for each connection
  (\<^verbatim>\<open>wsclient/wsshards/solo_sub_keeper_store.go\<close>, \<^verbatim>\<open>grouped_sub_keeper_store.go\<close>). A store is the list of
  its keepers. The locale \<open>sharded\<close> says when a list of keepers is one big keeper: every item has a home
  and no other keeper knows anything of it. Both stores are interpretations, with topics and with pairs
  of topic and key as items; their operations then do what one keeper would do, with one exception.
\<close>

section \<open>Lists of keepers as one keeper\<close>

text \<open>
  \<open>view k r\<close> is what keeper \<open>k\<close> knows of item \<open>r\<close>, \<open>blank\<close> is knowing nothing of it.
\<close>

definition shards_ok :: "('k \<Rightarrow> bool) \<Rightarrow> ('k \<Rightarrow> 'r \<Rightarrow> 'v) \<Rightarrow> 'v \<Rightarrow> ('r \<Rightarrow> nat) \<Rightarrow> 'k list \<Rightarrow> bool" where
  "shards_ok invar view blank home ks \<longleftrightarrow>
     (\<forall>i < length ks. invar (ks ! i) \<and> (\<forall>r. home r \<noteq> i \<longrightarrow> view (ks ! i) r = blank))"

definition shards_view :: "('k \<Rightarrow> 'r \<Rightarrow> 'v) \<Rightarrow> 'v \<Rightarrow> ('r \<Rightarrow> nat) \<Rightarrow> 'k list \<Rightarrow> 'r \<Rightarrow> 'v" where
  "shards_view view blank home ks r = (if home r < length ks then view (ks ! home r) r else blank)"

locale sharded =
  fixes invar :: "'k \<Rightarrow> bool"
    and view :: "'k \<Rightarrow> 'r \<Rightarrow> 'v"
    and blank :: 'v
    and home :: "'r \<Rightarrow> nat"
    and size :: nat
    and items :: "'r set"
    and fresh :: "nat \<Rightarrow> 'k"
  assumes home_range: "0 < size \<Longrightarrow> r \<in> items \<Longrightarrow> home r < size"
    and fresh_blank: "invar (fresh i) \<and> view (fresh i) r = blank"
begin

lemma new_store:
  "shards_ok invar view blank home (map fresh [0..<size])" "shards_view view blank home (map fresh [0..<size]) r = blank"
  using fresh_blank by (simp_all add: shards_ok_def shards_view_def)

text \<open>An operation on one keeper that knows its own items only.\<close>

lemma update_shard:
  assumes "shards_ok invar view blank home ks" and "i < length ks" and "invar k'"
    and "\<forall>r. home r \<noteq> i \<longrightarrow> view k' r = blank"
  shows "shards_ok invar view blank home (ks[i := k'])"
    "shards_view view blank home (ks[i := k']) r = (if home r = i then view k' r else shards_view view blank home ks r)"
  using assms by (auto simp: shards_ok_def shards_view_def nth_list_update)

text \<open>An operation on all keepers.\<close>

lemma update_all:
  assumes "shards_ok invar view blank home ks" and "length ks' = length ks"
    and "\<forall>i < length ks. invar (ks' ! i) \<and> (\<forall>r. view (ks' ! i) r = f (view (ks ! i) r))" and "f blank = blank"
  shows "shards_ok invar view blank home ks'" "shards_view view blank home ks' r = f (shards_view view blank home ks r)"
  using assms by (auto simp: shards_ok_def shards_view_def)

text \<open>What any of the keepers knows is what the store knows.\<close>

lemma known_somewhere:
  assumes "shards_ok invar view blank home ks"
  shows "(\<exists>i < length ks. view (ks ! i) r \<noteq> blank) \<longleftrightarrow> shards_view view blank home ks r \<noteq> blank"
    "i < length ks \<Longrightarrow> view (ks ! i) r \<noteq> blank \<Longrightarrow> i = home r"
proof -
  show home: "i < length ks \<Longrightarrow> view (ks ! i) r \<noteq> blank \<Longrightarrow> i = home r" for i
    using assms by (auto simp: shards_ok_def)
  show "(\<exists>i < length ks. view (ks ! i) r \<noteq> blank) \<longleftrightarrow> shards_view view blank home ks r \<noteq> blank"
    using home by (auto simp: shards_view_def)
qed

end

section \<open>The shard of a topic\<close>

text \<open>The sum of the bytes in a 64-bit int, and Go's signed remainder, which panics on zero.\<close>

fun topic_sum :: "string \<Rightarrow> 64 word \<Rightarrow> 64 word" where
  "topic_sum [] key = key"
| "topic_sum (c # cs) key = topic_sum cs (key + of_char c)"

definition derive_topic_index :: "string \<Rightarrow> int \<Rightarrow> (go_error, int) outcome" where
  "derive_topic_index tpc n =
     (let key = sint (topic_sum tpc 0) in if n = 0 then Panic else Ret (key smod n))"

text \<open>A call of a method of the keeper at an index, which panics out of range.\<close>

definition at_shard :: "(go_error, int) outcome \<Rightarrow> ('k \<Rightarrow> 'k) \<Rightarrow> 'k list \<Rightarrow> (go_error, 'k list) outcome" where
  "at_shard index f keepers =
     (case index of
        Ret i \<Rightarrow> if 0 \<le> i \<and> i < int (length keepers) then Ret (keepers[nat i := f (keepers ! nat i)]) else Panic
      | Err e \<Rightarrow> Err e
      | Panic \<Rightarrow> Panic)"

definition topic_home :: "nat \<Rightarrow> string \<Rightarrow> nat" where
  "topic_home n t = sum_list (map of_char t) mod n"

lemma unat_small: "n < 2 ^ 64 \<Longrightarrow> unat (of_nat n :: 64 word) = n"
  by (simp add: unat_of_nat)

lemma topic_sum_unat: "unat (topic_sum t key) = (unat key + sum_list (map of_char t)) mod 2 ^ 64"
proof (induction t arbitrary: key)
  case Nil
  have "unat key < 2 ^ 64" using unsigned_less [of key] by simp
  then show ?case by simp
next
  case (Cons c t)
  have "(of_char c :: nat) < 2 ^ 64" by (rule less_trans [OF nat_of_char_less_256]) simp
  from unat_small [OF this] have "unat (of_char c :: 64 word) = of_char c"
    by (subst of_nat_of_char [where 'a = "64 word", symmetric])
  then have "unat (key + of_char c) = (unat key + of_char c) mod 2 ^ 64" by (simp add: unat_word_ariths)
  moreover have "unat (topic_sum (c # t) key) = (unat (key + of_char c) + sum_list (map of_char t)) mod 2 ^ 64"
    unfolding topic_sum.simps by (rule Cons.IH)
  ultimately show ?case by (simp only: mod_add_left_eq list.map sum_list.Cons add.assoc)
qed

lemma char_sum_bound: "sum_list (map of_char t) \<le> 255 * length t"
proof (induction t)
  case (Cons c t)
  have "(of_char c :: nat) \<le> 255" using nat_of_char_less_256 [of c] by linarith
  with Cons show ?case by simp
qed simp


text \<open>Below 2 ^ 55 bytes the sum does not overflow, and the index is the sum modulo the number of keepers.\<close>

lemma derive_topic_index_home:
  assumes "length t < 2 ^ 55"
  shows "sint (topic_sum t 0) = int (sum_list (map of_char t))"
    "0 < n \<Longrightarrow> derive_topic_index t (int n) = Ret (int (topic_home n t))"
proof -
  have "255 * length t < 2 ^ 63" using assms by simp
  then have b: "(sum_list (map of_char t) :: nat) < 2 ^ 63" using char_sum_bound [of t] by linarith
  then have "(sum_list (map of_char t) :: nat) < 2 ^ 64" by simp
  then have u: "unat (topic_sum t 0) = sum_list (map of_char t)" by (simp add: topic_sum_unat)
  then have "uint (topic_sum t 0) = int (sum_list (map of_char t))" by (simp add: uint_nat)
  then show s: "sint (topic_sum t 0) = int (sum_list (map of_char t))"
    using b by (simp add: sint_uint signed_take_bit_int_eq_self)
  show "0 < n \<Longrightarrow> derive_topic_index t (int n) = Ret (int (topic_home n t))"
    by (simp add: derive_topic_index_def s smod_mod_positive topic_home_def zmod_int Let_def)
qed


section \<open>The store of single subscriptions\<close>

type_synonym solo_store = "solo_keeper list"

text \<open>\<open>metricsFn\<close> is called with the number of the connection, from 1; \<^verbatim>\<open>make\<close> panics on a negative size.\<close>

definition new_solo_store :: "(nat \<Rightarrow> metrics) \<Rightarrow> int \<Rightarrow> bool \<Rightarrow> int \<Rightarrow> (go_error, solo_store) outcome" where
  "new_solo_store metricsFn cooldown manualConfirm n =
     (if n < 0 then Panic
      else Ret (map (\<lambda>i. new_solo_sub_keeper (metricsFn (i + 1)) cooldown manualConfirm) [0..<nat n]))"

definition solo_store_keepers :: "solo_store \<Rightarrow> solo_keeper list" where
  "solo_store_keepers keepers = map (\<lambda>keeper. keeper) keepers"

definition solo_store_subscribe :: "string \<Rightarrow> solo_store \<Rightarrow> (go_error, solo_store) outcome" where
  "solo_store_subscribe tpc keepers =
     at_shard (derive_topic_index tpc (int (length keepers))) (\<lambda>s. fst (solo_subscribe tpc s)) keepers"

definition solo_store_unsubscribe_local :: "string \<Rightarrow> solo_store \<Rightarrow> (go_error, solo_store) outcome" where
  "solo_store_unsubscribe_local tpc keepers =
     at_shard (derive_topic_index tpc (int (length keepers))) (solo_unsubscribe_local tpc) keepers"

definition solo_store_unsubscribe :: "string \<Rightarrow> solo_store \<Rightarrow> (go_error, solo_store) outcome" where
  "solo_store_unsubscribe tpc keepers =
     at_shard (derive_topic_index tpc (int (length keepers))) (\<lambda>s. fst (solo_unsubscribe tpc s)) keepers"

definition solo_store_confirm_sub :: "string \<Rightarrow> solo_store \<Rightarrow> (go_error, solo_store) outcome" where
  "solo_store_confirm_sub tpc keepers =
     at_shard (derive_topic_index tpc (int (length keepers))) (solo_confirm_sub tpc) keepers"

definition solo_store_confirm_unsub :: "string \<Rightarrow> solo_store \<Rightarrow> (go_error, solo_store) outcome" where
  "solo_store_confirm_unsub tpc keepers =
     at_shard (derive_topic_index tpc (int (length keepers))) (solo_confirm_unsub tpc) keepers"

text \<open>\<open>ordf\<close> gives the order in which each keeper visits its map.\<close>

definition solo_store_unsubscribe_all :: "((string, nat) gomap \<Rightarrow> string list) \<Rightarrow> solo_store \<Rightarrow> solo_store" where
  "solo_store_unsubscribe_all ordf keepers = map (\<lambda>s. fst (solo_unsubscribe_all (ordf (sk_subs s)) s)) keepers"

datatype store_op =
    StSubscribe string | StUnsubscribe string | StUnsubscribeLocal string | StConfirmSub string | StConfirmUnsub string
  | StUnsubscribeAll "(string, nat) gomap \<Rightarrow> string list"

fun solo_store_step :: "store_op \<Rightarrow> solo_store \<Rightarrow> (go_error, solo_store) outcome" where
  "solo_store_step (StSubscribe t) ks = solo_store_subscribe t ks"
| "solo_store_step (StUnsubscribe t) ks = solo_store_unsubscribe t ks"
| "solo_store_step (StUnsubscribeLocal t) ks = solo_store_unsubscribe_local t ks"
| "solo_store_step (StConfirmSub t) ks = solo_store_confirm_sub t ks"
| "solo_store_step (StConfirmUnsub t) ks = solo_store_confirm_unsub t ks"
| "solo_store_step (StUnsubscribeAll ordf) ks = Ret (solo_store_unsubscribe_all ordf ks)"

text \<open>The operation of one big keeper.\<close>

fun solo_op_of :: "store_op \<Rightarrow> solo_op" where
  "solo_op_of (StSubscribe t) = SSubscribe t"
| "solo_op_of (StUnsubscribe t) = SUnsubscribe t"
| "solo_op_of (StUnsubscribeLocal t) = SUnsubscribeLocal t"
| "solo_op_of (StConfirmSub t) = SConfirmSub t"
| "solo_op_of (StConfirmUnsub t) = SConfirmUnsub t"
| "solo_op_of (StUnsubscribeAll ordf) = SUnsubscribeAll []"

fun store_op_topic :: "store_op \<Rightarrow> string option" where
  "store_op_topic (StSubscribe t) = Some t"
| "store_op_topic (StUnsubscribe t) = Some t"
| "store_op_topic (StUnsubscribeLocal t) = Some t"
| "store_op_topic (StConfirmSub t) = Some t"
| "store_op_topic (StConfirmUnsub t) = Some t"
| "store_op_topic (StUnsubscribeAll ordf) = None"

definition solo_view :: "solo_keeper \<Rightarrow> string \<Rightarrow> bool \<times> bool" where
  "solo_view s t = (t \<in> solo_wanted s, t \<in> solo_believed s)"

definition solo_store_ok :: "solo_store \<Rightarrow> bool" where
  "solo_store_ok ks = shards_ok solo_inv solo_view (False, False) (topic_home (length ks)) ks"

definition solo_store_abs :: "solo_store \<Rightarrow> string set \<times> string set" where
  "solo_store_abs ks =
     ({t. fst (shards_view solo_view (False, False) (topic_home (length ks)) ks t)},
      {t. snd (shards_view solo_view (False, False) (topic_home (length ks)) ks t)})"

interpretation solo_shards: sharded solo_inv solo_view "(False, False)" "topic_home n" n UNIV
  "\<lambda>i. new_solo_sub_keeper (metricsFn (i + 1)) cooldown manual" for n metricsFn cooldown manual
  by unfold_locales (simp_all add: topic_home_def solo_view_def solo_new)

text \<open>An operation with a topic acts on the home of the topic only, and there as the keeper does.\<close>

lemma solo_store_step_topic:
  assumes "store_op_topic op = Some t" and "length t < 2 ^ 55" and "ks \<noteq> []"
  shows "solo_store_step op ks =
    Ret (ks[topic_home (length ks) t := fst (solo_step (ks ! topic_home (length ks) t) (solo_op_of op))])"
proof -
  have "topic_home (length ks) t < length ks" using assms(3) by (simp add: topic_home_def)
  moreover have "derive_topic_index t (int (length ks)) = Ret (int (topic_home (length ks) t))"
    using derive_topic_index_home(2) [OF assms(2)] assms(3) by simp
  ultimately have "at_shard (derive_topic_index t (int (length ks))) f ks =
      Ret (ks[topic_home (length ks) t := f (ks ! topic_home (length ks) t)])" for f :: "solo_keeper \<Rightarrow> solo_keeper"
    by (simp add: at_shard_def)
  with assms(1) show ?thesis
    by (cases op) (simp_all add: solo_store_subscribe_def solo_store_unsubscribe_def solo_store_unsubscribe_local_def
        solo_store_confirm_sub_def solo_store_confirm_unsub_def)
qed

text \<open>What an operation with a topic does to each topic of one keeper.\<close>

fun topic_effect :: "store_op \<Rightarrow> bool \<times> bool \<Rightarrow> bool \<times> bool" where
  "topic_effect (StSubscribe t) (w, b) = (w \<or> \<not> b, b)"
| "topic_effect (StUnsubscribe t) (w, b) = (False, b)"
| "topic_effect (StUnsubscribeLocal t) (w, b) = (False, False)"
| "topic_effect (StConfirmSub t) (w, b) = (w, w \<or> b)"
| "topic_effect (StConfirmUnsub t) (w, b) = (w, w \<and> b)"
| "topic_effect (StUnsubscribeAll ordf) (w, b) = (False, b)"

lemma solo_step_view:
  assumes "store_op_topic op = Some t" and "solo_inv s"
  shows "solo_inv (fst (solo_step s (solo_op_of op)))"
    "solo_view (fst (solo_step s (solo_op_of op))) t' = (if t' = t then topic_effect op (solo_view s t') else solo_view s t')"
proof -
  have g: "solo_good s (solo_op_of op)" using assms(1) by (cases op) simp_all
  note c = solo_keeper_correct [OF assms(2) g]
  show "solo_inv (fst (solo_step s (solo_op_of op)))" using c by blast
  have "solo_abs (fst (solo_step s (solo_op_of op))) = keeper_spec (\<lambda>a. ss_topic (deref s a)) (solo_abs s) (solo_op_of op)"
    using c by blast
  with assms(1) show "solo_view (fst (solo_step s (solo_op_of op))) t' =
      (if t' = t then topic_effect op (solo_view s t') else solo_view s t')"
    by (cases op) (auto simp: solo_abs_def solo_view_def)
qed

lemma topic_effect_all: "topic_effect (StUnsubscribeAll ordf) p = (False, snd p)"
  by (cases p) simp

lemma keeper_spec_view:
  assumes "store_op_topic op = Some t"
  shows "t' \<in> fst (keeper_spec tp (W, B) (solo_op_of op)) \<longleftrightarrow> (if t' = t then fst (topic_effect op (t \<in> W, t \<in> B)) else t' \<in> W)"
    "t' \<in> snd (keeper_spec tp (W, B) (solo_op_of op)) \<longleftrightarrow> (if t' = t then snd (topic_effect op (t \<in> W, t \<in> B)) else t' \<in> B)"
  using assms by (cases op; auto)+


text \<open>
  The index of a topic is in range. For a store of at least one keeper and a topic of less than
  2 ^ 55 bytes, the 64-bit sum of the bytes does not overflow, and its remainder is an index of the
  store; the same topic always has the same index. With no keeper the division panics.
\<close>

lemma topic_index_bounds:
  assumes "length t < 2 ^ 55"
  shows "derive_topic_index t 0 = Panic \<and>
    (0 < n \<longrightarrow> (\<exists>i. derive_topic_index t (int n) = Ret i \<and> 0 \<le> i \<and> i < int n \<and>
       i = int (sum_list (map of_char t)) mod int n))"
  using derive_topic_index_home [OF assms] by (auto simp: derive_topic_index_def topic_home_def zmod_int)

lemma topic_index_bounds_witness:
  "derive_topic_index ''btc'' 4 = Ret 1"
proof -
  have "length ''btc'' < (2 :: nat) ^ 55" by simp
  from topic_index_bounds [OF this, of 4] show ?thesis by auto
qed

text \<open>
  C37. Sharding is transparent. On a well-formed store with at least one keeper, every operation
  succeeds, keeps the store well-formed (each keeper's invariant, and no topic known outside of its
  home), and changes what is wanted and believed, taken over all keepers, exactly as the specification
  of one keeper says.
\<close>

theorem solo_store_refines:
  assumes "solo_store_ok ks" and "ks \<noteq> []"
    and "\<forall>t. store_op_topic op = Some t \<longrightarrow> length t < 2 ^ 55"
    and "\<forall>ordf. op = StUnsubscribeAll ordf \<longrightarrow> orders_ok ordf"
  shows "\<exists>ks'. solo_store_step op ks = Ret ks' \<and> length ks' = length ks \<and> solo_store_ok ks' \<and>
    solo_store_abs ks' = keeper_spec tp (solo_store_abs ks) (solo_op_of op)"
proof (cases "store_op_topic op")
  case (Some t)
  let ?n = "length ks" let ?i = "topic_home ?n t" let ?k = "fst (solo_step (ks ! ?i) (solo_op_of op))"
  let ?ks = "ks[?i := ?k]"
  have i: "?i < ?n" using assms(2) by (simp add: topic_home_def)
  have ok: "shards_ok solo_inv solo_view (False, False) (topic_home ?n) ks" using assms(1) by (simp add: solo_store_ok_def)
  then have inv: "solo_inv (ks ! ?i)" and own: "\<forall>r. topic_home ?n r \<noteq> ?i \<longrightarrow> solo_view (ks ! ?i) r = (False, False)"
    using i by (simp_all add: shards_ok_def)
  note v = solo_step_view [OF Some inv]
  have k: "\<forall>r. topic_home ?n r \<noteq> ?i \<longrightarrow> solo_view ?k r = (False, False)" using v(2) own by auto
  note u = solo_shards.update_shard [OF ok i v(1) k]
  have view: "shards_view solo_view (False, False) (topic_home ?n) ?ks r =
      (if r = t then topic_effect op (shards_view solo_view (False, False) (topic_home ?n) ks t)
       else shards_view solo_view (False, False) (topic_home ?n) ks r)" for r
    using u(2) v(2) i by (auto simp: shards_view_def)
  have e: "(t \<in> fst (solo_store_abs ks), t \<in> snd (solo_store_abs ks)) =
      shards_view solo_view (False, False) (topic_home ?n) ks t"
    by (simp add: solo_store_abs_def)
  have "r \<in> fst (solo_store_abs ?ks) \<longleftrightarrow> r \<in> fst (keeper_spec tp (solo_store_abs ks) (solo_op_of op))"
    "r \<in> snd (solo_store_abs ?ks) \<longleftrightarrow> r \<in> snd (keeper_spec tp (solo_store_abs ks) (solo_op_of op))" for r
    using keeper_spec_view [OF Some, of r tp "fst (solo_store_abs ks)" "snd (solo_store_abs ks)"] view [of r]
    unfolding prod.collapse e by (simp_all add: solo_store_abs_def)
  then have "solo_store_abs ?ks = keeper_spec tp (solo_store_abs ks) (solo_op_of op)"
    by (intro prod_eqI set_eqI)
  moreover have "solo_store_ok ?ks" using u(1) by (simp add: solo_store_ok_def)
  ultimately show ?thesis
    using solo_store_step_topic [OF Some _ assms(2)] assms(3) Some by simp
next
  case None
  then obtain ordf where op: "op = StUnsubscribeAll ordf" by (cases op) simp_all
  let ?ks = "solo_store_unsubscribe_all ordf ks"
  have ok: "shards_ok solo_inv solo_view (False, False) (topic_home (length ks)) ks" using assms(1) by (simp add: solo_store_ok_def)
  have len: "length ?ks = length ks" by (simp add: solo_store_unsubscribe_all_def)
  have "solo_inv (?ks ! i) \<and> (\<forall>r. solo_view (?ks ! i) r = topic_effect op (solo_view (ks ! i) r))" if "i < length ks" for i
  proof -
    have inv: "solo_inv (ks ! i)" using ok that by (simp add: shards_ok_def)
    then have "range_order (sk_subs (ks ! i)) (ordf (sk_subs (ks ! i)))"
      using assms(4) op by (simp add: orders_ok_def solo_inv_def)
    from solo_unsubscribe_all_correct [OF inv this surjective_pairing] show ?thesis
      using that by (simp add: solo_store_unsubscribe_all_def op solo_view_def)
  qed
  then have all: "\<forall>i < length ks. solo_inv (?ks ! i) \<and> (\<forall>r. solo_view (?ks ! i) r = topic_effect op (solo_view (ks ! i) r))"
    by blast
  note u = solo_shards.update_all [OF ok len all]
  have "solo_store_ok ?ks" using u(1) by (simp add: op solo_store_ok_def len)
  moreover have "solo_store_abs ?ks = keeper_spec tp (solo_store_abs ks) (solo_op_of op)"
    using u(2) by (simp add: op solo_store_abs_def len case_prod_beta topic_effect_all)
  ultimately show ?thesis using len by (simp add: op)
qed


lemma solo_store_new:
  assumes "new_solo_store metricsFn cooldown manual (int n) = Ret ks"
  shows "length ks = n" "solo_store_ok ks" "solo_store_abs ks = ({}, {})"
proof -
  have ks: "ks = map (\<lambda>i. new_solo_sub_keeper (metricsFn (i + 1)) cooldown manual) [0..<n]"
    using assms by (simp add: new_solo_store_def)
  then show len: "length ks = n" by simp
  show "solo_store_ok ks" unfolding solo_store_ok_def len unfolding ks by (rule solo_shards.new_store)
  show "solo_store_abs ks = ({}, {})"
    unfolding solo_store_abs_def len unfolding ks solo_shards.new_store by simp
qed

theorem solo_store_refines_witness:
  "\<exists>ks ks'. new_solo_store (\<lambda>_. \<lparr>mx_subs = 0, mx_sub_confirmations = 0, mx_unsub_confirmations = 0\<rparr>) 0 False 4 = Ret ks \<and>
     solo_store_step (StSubscribe ''btc'') ks = Ret ks' \<and> solo_store_abs ks' = ({''btc''}, {})"
proof -
  let ?new = "new_solo_store (\<lambda>_. \<lparr>mx_subs = 0, mx_sub_confirmations = 0, mx_unsub_confirmations = 0\<rparr>) 0 False"
  obtain ks where ks: "?new (int 4) = Ret ks" by (simp add: new_solo_store_def)
  note n = solo_store_new [OF ks]
  have "ks \<noteq> []" using n(1) by auto
  from solo_store_refines [OF n(2) this, of "StSubscribe ''btc''" undefined] n(3) obtain ks' where
    "solo_store_step (StSubscribe ''btc'') ks = Ret ks'" "solo_store_abs ks' = ({''btc''}, {})" by auto
  then show ?thesis using ks by auto
qed

section \<open>The store of groups\<close>

type_synonym 'k grouped_store = "'k grouped_keeper list"

definition new_grouped_store :: "(nat \<Rightarrow> metrics) \<Rightarrow> int \<Rightarrow> bool \<Rightarrow> int \<Rightarrow> (go_error, 'k grouped_store) outcome" where
  "new_grouped_store metricsFn cooldown manualConfirm n =
     (if n < 0 then Panic
      else Ret (map (\<lambda>i. new_grouped_sub_keeper (metricsFn (i + 1)) cooldown manualConfirm) [0..<nat n]))"

definition grouped_store_keepers :: "'k grouped_store \<Rightarrow> 'k grouped_keeper list" where
  "grouped_store_keepers keepers = map (\<lambda>keeper. keeper) keepers"

text \<open>The groups of keys by their index; the hash of a key is the user's, so an index may be negative.\<close>

fun derive_groups_loop :: "('k \<Rightarrow> int) \<Rightarrow> int \<Rightarrow> 'k list \<Rightarrow> (int, 'k list) gomap \<Rightarrow> (go_error, (int, 'k list) gomap) outcome" where
  "derive_groups_loop hash n [] groups = Ret groups"
| "derive_groups_loop hash n (key # keys) groups =
     (if n = 0 then Panic
      else
        let index = hash key smod n;
            grp = (case gm_get groups index of None \<Rightarrow> [] | Some grp \<Rightarrow> grp)
        in derive_groups_loop hash n keys (gm_set groups index (grp @ [key])))"

definition derive_key_groups :: "('k \<Rightarrow> int) \<Rightarrow> int \<Rightarrow> 'k list \<Rightarrow> (go_error, (int, 'k list) gomap) outcome" where
  "derive_key_groups hash n keys = derive_groups_loop hash n keys []"

text \<open>The loop over the groups, in the order \<open>ord\<close>: a method of the keeper at each index, with the group.\<close>

fun each_group ::
  "('k list \<Rightarrow> 'k grouped_keeper \<Rightarrow> 'k grouped_keeper) \<Rightarrow> (int, 'k list) gomap \<Rightarrow> int list \<Rightarrow> 'k grouped_store \<Rightarrow>
   (go_error, 'k grouped_store) outcome" where
  "each_group f groups [] keepers = Ret keepers"
| "each_group f groups (i # ord) keepers =
     (case gm_get groups i of
        None \<Rightarrow> each_group f groups ord keepers
      | Some grp \<Rightarrow>
          (case at_shard (Ret i) (f grp) keepers of
             Ret keepers \<Rightarrow> each_group f groups ord keepers
           | Err e \<Rightarrow> Err e
           | Panic \<Rightarrow> Panic))"

definition on_groups ::
  "((int, 'k list) gomap \<Rightarrow> int list) \<Rightarrow> ('k \<Rightarrow> int) \<Rightarrow> 'k list \<Rightarrow>
   ('k list \<Rightarrow> 'k grouped_keeper \<Rightarrow> 'k grouped_keeper) \<Rightarrow> 'k grouped_store \<Rightarrow> (go_error, 'k grouped_store) outcome" where
  "on_groups ordg hash keys f keepers =
     (case derive_key_groups hash (int (length keepers)) keys of
        Ret groups \<Rightarrow> each_group f groups (ordg groups) keepers
      | Err e \<Rightarrow> Err e
      | Panic \<Rightarrow> Panic)"

definition grouped_store_subscribe ::
  "((int, 'k list) gomap \<Rightarrow> int list) \<Rightarrow> ('k \<Rightarrow> int) \<Rightarrow> string \<Rightarrow> 'k list \<Rightarrow> 'k grouped_store \<Rightarrow> (go_error, 'k grouped_store) outcome" where
  "grouped_store_subscribe ordg hash tpc keys keepers =
     on_groups ordg hash keys (\<lambda>grp g. fst (grouped_subscribe tpc grp g)) keepers"

definition grouped_store_unsubscribe ::
  "((int, 'k list) gomap \<Rightarrow> int list) \<Rightarrow> ('k \<Rightarrow> int) \<Rightarrow> string \<Rightarrow> 'k list \<Rightarrow> 'k grouped_store \<Rightarrow> (go_error, 'k grouped_store) outcome" where
  "grouped_store_unsubscribe ordg hash tpc keys keepers =
     on_groups ordg hash keys (\<lambda>grp g. fst (grouped_unsubscribe tpc grp g)) keepers"

definition grouped_store_confirm_sub ::
  "((int, 'k list) gomap \<Rightarrow> int list) \<Rightarrow> ('k \<Rightarrow> int) \<Rightarrow> string \<Rightarrow> 'k list \<Rightarrow> 'k grouped_store \<Rightarrow> (go_error, 'k grouped_store) outcome" where
  "grouped_store_confirm_sub ordg hash tpc keys keepers =
     on_groups ordg hash keys (\<lambda>grp g. grouped_confirm_sub tpc grp g) keepers"

definition grouped_store_confirm_unsub ::
  "((int, 'k list) gomap \<Rightarrow> int list) \<Rightarrow> (('k, groupedSub) gomap \<Rightarrow> 'k list) \<Rightarrow> ('k \<Rightarrow> int) \<Rightarrow> string \<Rightarrow> bool \<Rightarrow> 'k list \<Rightarrow>
   'k grouped_store \<Rightarrow> (go_error, 'k grouped_store) outcome" where
  "grouped_store_confirm_unsub ordg ordk hash tpc invert keys keepers =
     on_groups ordg hash keys (\<lambda>grp g. grouped_confirm_unsub ordk tpc invert grp g) keepers"

text \<open>\<open>ordf\<close> and \<open>ordk\<close> give the orders in which each keeper visits its topics and their keys.\<close>

definition grouped_store_unsubscribe_all ::
  "((string, nat) gomap \<Rightarrow> string list) \<Rightarrow> (('k, groupedSub) gomap \<Rightarrow> 'k list) \<Rightarrow> 'k grouped_store \<Rightarrow> 'k grouped_store" where
  "grouped_store_unsubscribe_all ordf ordk keepers = map (\<lambda>g. fst (grouped_unsubscribe_all ordk (ordf (gk_subs g)) g)) keepers"


datatype 'k gstore_op =
    GsSubscribe string "'k list" | GsUnsubscribe string "'k list" | GsConfirmSub string "'k list"
  | GsConfirmUnsub string bool "'k list"

fun gstore_keys :: "'k gstore_op \<Rightarrow> 'k list" where
  "gstore_keys (GsSubscribe t keys) = keys"
| "gstore_keys (GsUnsubscribe t keys) = keys"
| "gstore_keys (GsConfirmSub t keys) = keys"
| "gstore_keys (GsConfirmUnsub t invert keys) = keys"

text \<open>The operation of a keeper for one group of the keys.\<close>

fun grouped_op_of :: "'k gstore_op \<Rightarrow> 'k list \<Rightarrow> 'k grouped_op" where
  "grouped_op_of (GsSubscribe t keys) grp = GSubscribe t grp"
| "grouped_op_of (GsUnsubscribe t keys) grp = GUnsubscribe t grp"
| "grouped_op_of (GsConfirmSub t keys) grp = GConfirmSub t grp"
| "grouped_op_of (GsConfirmUnsub t invert keys) grp = GConfirmUnsub t invert grp"

fun grouped_store_step ::
  "((int, 'k list) gomap \<Rightarrow> int list) \<Rightarrow> (('k, groupedSub) gomap \<Rightarrow> 'k list) \<Rightarrow> ('k \<Rightarrow> int) \<Rightarrow> 'k gstore_op \<Rightarrow>
   'k grouped_store \<Rightarrow> (go_error, 'k grouped_store) outcome" where
  "grouped_store_step ordg ordk hash (GsSubscribe t keys) ks = grouped_store_subscribe ordg hash t keys ks"
| "grouped_store_step ordg ordk hash (GsUnsubscribe t keys) ks = grouped_store_unsubscribe ordg hash t keys ks"
| "grouped_store_step ordg ordk hash (GsConfirmSub t keys) ks = grouped_store_confirm_sub ordg hash t keys ks"
| "grouped_store_step ordg ordk hash (GsConfirmUnsub t invert keys) ks =
     grouped_store_confirm_unsub ordg ordk hash t invert keys ks"

lemma grouped_store_step_eq:
  "grouped_store_step ordg ordk hash op ks =
   on_groups ordg hash (gstore_keys op) (\<lambda>grp g. grouped_step ordk g (grouped_op_of op grp)) ks"
  by (cases op) (simp_all add: grouped_store_subscribe_def grouped_store_unsubscribe_def
      grouped_store_confirm_sub_def grouped_store_confirm_unsub_def)

section \<open>The groups of the keys\<close>

definition key_index :: "('k \<Rightarrow> int) \<Rightarrow> nat \<Rightarrow> 'k \<Rightarrow> nat" where
  "key_index hash n key = nat (hash key mod int n)"

lemma key_index_less: "0 < n \<Longrightarrow> key_index hash n key < n"
  by (simp add: key_index_def nat_less_iff)

definition key_home :: "('k \<Rightarrow> int) \<Rightarrow> nat \<Rightarrow> string \<times> 'k \<Rightarrow> nat" where
  "key_home hash n r = key_index hash n (snd r)"

lemma derive_groups_loop_get:
  assumes "n \<noteq> 0" and "gm_wf groups" and "\<forall>grp. gm_get groups i = Some grp \<longrightarrow> grp \<noteq> []"
  shows "\<exists>groups'. derive_groups_loop hash n keys groups = Ret groups' \<and> gm_wf groups' \<and>
    gm_get groups' i = (case gm_get groups i of
       None \<Rightarrow> (if filter (\<lambda>key. hash key smod n = i) keys = [] then None else Some (filter (\<lambda>key. hash key smod n = i) keys))
     | Some grp \<Rightarrow> Some (grp @ filter (\<lambda>key. hash key smod n = i) keys))"
  using assms(2,3)
proof (induction keys arbitrary: groups)
  case Nil
  then show ?case by (auto split: option.split)
next
  case (Cons key keys)
  let ?j = "hash key smod n"
  let ?groups = "gm_set groups ?j ((case gm_get groups ?j of None \<Rightarrow> [] | Some grp \<Rightarrow> grp) @ [key])"
  have wf: "gm_wf ?groups" "\<forall>grp. gm_get ?groups i = Some grp \<longrightarrow> grp \<noteq> []"
    using Cons.prems by auto
  have "derive_groups_loop hash n (key # keys) groups = derive_groups_loop hash n keys ?groups"
    using assms(1) by (simp add: Let_def)
  with Cons.IH [OF wf] show ?case
    by (cases "?j = i"; cases "gm_get groups i") (simp_all split: if_splits)
qed

text \<open>The groups as a function of the index.\<close>

definition groups_ok :: "('k \<Rightarrow> int) \<Rightarrow> nat \<Rightarrow> 'k list \<Rightarrow> (int, 'k list) gomap \<Rightarrow> bool" where
  "groups_ok hash n keys groups \<longleftrightarrow> gm_wf groups \<and>
     (\<forall>i. gm_get groups i =
        (let grp = filter (\<lambda>key. int (key_index hash n key) = i) keys in if grp = [] then None else Some grp))"

lemma derive_key_groups_ok:
  assumes "0 < n" and "\<forall>key \<in> set keys. 0 \<le> hash key"
  shows "\<exists>groups. derive_key_groups hash (int n) keys = Ret groups \<and> groups_ok hash n keys groups"
proof -
  have f: "filter (\<lambda>key. hash key smod int n = i) keys = filter (\<lambda>key. int (key_index hash n key) = i) keys" for i
    using assms by (intro filter_cong) (simp_all add: smod_mod_positive key_index_def)
  note d = derive_groups_loop_get [of "int n" "[]" _ hash keys]
  obtain groups where g: "derive_key_groups hash (int n) keys = Ret groups"
    using d [of 0] assms(1) by (auto simp: derive_key_groups_def)
  have "gm_wf groups \<and> gm_get groups i =
      (let grp = filter (\<lambda>key. int (key_index hash n key) = i) keys in if grp = [] then None else Some grp)" for i
    using d [of i] assms(1) g by (auto simp: derive_key_groups_def f Let_def)
  with g show ?thesis by (auto simp: groups_ok_def)
qed

text \<open>The loop over the groups: each keeper of a group gets its group, the others are left alone.\<close>

lemma each_group_nth:
  assumes "distinct ord" and "\<forall>i. gm_get groups i \<noteq> None \<longrightarrow> 0 \<le> i \<and> i < int (length ks)"
  shows "\<exists>ks'. each_group f groups ord ks = Ret ks' \<and> length ks' = length ks \<and>
    (\<forall>j < length ks. ks' ! j = (if int j \<in> set ord then (case gm_get groups (int j) of None \<Rightarrow> ks ! j | Some grp \<Rightarrow> f grp (ks ! j))
                               else ks ! j))"
  using assms
proof (induction ord arbitrary: ks)
  case (Cons i ord)
  show ?case
  proof (cases "gm_get groups i")
    case None
    then show ?thesis using Cons.IH [of ks] Cons.prems by (auto split: option.splits)
  next
    case (Some grp)
    have i: "0 \<le> i" "i < int (length ks)" using Cons.prems(2) Some by auto
    let ?ks = "ks[nat i := f grp (ks ! nat i)]"
    have "each_group f groups (i # ord) ks = each_group f groups ord ?ks"
      using Some i by (simp add: at_shard_def)
    moreover obtain ks' where ks': "each_group f groups ord ?ks = Ret ks'" "length ks' = length ?ks"
      "\<forall>j < length ?ks. ks' ! j = (if int j \<in> set ord then (case gm_get groups (int j) of None \<Rightarrow> ?ks ! j | Some grp \<Rightarrow> f grp (?ks ! j))
                               else ?ks ! j)"
      using Cons.IH [of ?ks] Cons.prems by auto
    moreover have "ks' ! j = (if int j \<in> set (i # ord) then (case gm_get groups (int j) of None \<Rightarrow> ks ! j | Some grp \<Rightarrow> f grp (ks ! j))
                               else ks ! j)" if "j < length ks" for j
    proof (cases "j = nat i")
      case True
      then have "int j = i" using i by simp
      then show ?thesis using ks'(3) that Cons.prems(1) Some True by simp
    next
      case False
      then have "int j \<noteq> i" "?ks ! j = ks ! j" by auto
      then show ?thesis using ks'(3) that by (cases "gm_get groups (int j)") simp_all
    qed
    ultimately show ?thesis by simp
  qed
qed simp

lemma on_groups_nth:
  assumes "ks \<noteq> []" and "\<forall>key \<in> set keys. 0 \<le> hash key" and "orders_ok ordg"
  shows "\<exists>ks'. on_groups ordg hash keys f ks = Ret ks' \<and> length ks' = length ks \<and>
    (\<forall>j < length ks. ks' ! j =
       (let grp = filter (\<lambda>key. key_index hash (length ks) key = j) keys in if grp = [] then ks ! j else f grp (ks ! j)))"
proof -
  let ?n = "length ks"
  obtain groups where g: "derive_key_groups hash (int ?n) keys = Ret groups" "groups_ok hash ?n keys groups"
    using derive_key_groups_ok [of ?n keys hash] assms(1,2) by auto
  have get: "gm_get groups i = (let grp = filter (\<lambda>key. int (key_index hash ?n key) = i) keys in if grp = [] then None else Some grp)" for i
    using g(2) by (simp add: groups_ok_def)
  have "range_order groups (ordg groups)" using g(2) assms(3) by (simp add: groups_ok_def orders_ok_def)
  note o = range_order_distinct [OF this] range_orderD [OF this]
  have r: "\<forall>i. gm_get groups i \<noteq> None \<longrightarrow> 0 \<le> i \<and> i < int ?n"
  proof (intro allI impI)
    fix i
    assume "gm_get groups i \<noteq> None"
    then have "filter (\<lambda>key. int (key_index hash ?n key) = i) keys \<noteq> []"
      unfolding get Let_def by (metis (no_types, lifting))
    then obtain key where "int (key_index hash ?n key) = i" unfolding filter_empty_conv by blast
    moreover have "key_index hash ?n key < ?n" using assms(1) by (simp add: key_index_less)
    ultimately show "0 \<le> i \<and> i < int ?n" by auto
  qed
  obtain ks' where ks': "each_group f groups (ordg groups) ks = Ret ks'"
    "length ks' = ?n" "\<forall>j < ?n. ks' ! j = (if int j \<in> set (ordg groups) then (case gm_get groups (int j) of None \<Rightarrow> ks ! j | Some grp \<Rightarrow> f grp (ks ! j))
                               else ks ! j)"
    using each_group_nth [OF o(1) r, of f] by (elim exE conjE) (rule that)
  then have "\<forall>j < ?n. ks' ! j = (let grp = filter (\<lambda>key. key_index hash ?n key = j) keys in if grp = [] then ks ! j else f grp (ks ! j))"
    by (simp add: o(2) get Let_def)
  with ks'(1,2) g(1) show ?thesis by (auto simp: on_groups_def)
qed


section \<open>The store of groups as one keeper\<close>

definition grouped_view :: "'k grouped_keeper \<Rightarrow> string \<times> 'k \<Rightarrow> nat \<times> bool" where
  "grouped_view g r = (grouped_count g (fst r) (snd r), r \<in> grouped_believed g)"

definition grouped_store_ok :: "('k \<Rightarrow> int) \<Rightarrow> 'k grouped_store \<Rightarrow> bool" where
  "grouped_store_ok hash ks = shards_ok grouped_inv grouped_view (0, False) (key_home hash (length ks)) ks"

definition grouped_store_view :: "('k \<Rightarrow> int) \<Rightarrow> 'k grouped_store \<Rightarrow> string \<times> 'k \<Rightarrow> nat \<times> bool" where
  "grouped_store_view hash ks = shards_view grouped_view (0, False) (key_home hash (length ks)) ks"

definition grouped_store_abs :: "('k \<Rightarrow> int) \<Rightarrow> 'k grouped_store \<Rightarrow> (string \<Rightarrow> 'k \<Rightarrow> nat) \<times> (string \<times> 'k) set" where
  "grouped_store_abs hash ks =
     (\<lambda>t key. fst (grouped_store_view hash ks (t, key)), {r. snd (grouped_store_view hash ks r)})"

interpretation grouped_shards: sharded grouped_inv grouped_view "(0, False)" "key_home hash n" n UNIV
  "\<lambda>i. new_grouped_sub_keeper (metricsFn (i + 1)) cooldown manual" for hash n metricsFn cooldown manual
  by unfold_locales
    (simp_all add: key_home_def key_index_less grouped_view_def grouped_new grouped_believed_def entry_defs split_beta)

text \<open>What an operation with keys does to one pair of topic and key.\<close>

fun grouped_effect :: "'k gstore_op \<Rightarrow> 'k list \<Rightarrow> string \<times> 'k \<Rightarrow> nat \<times> bool \<Rightarrow> nat \<times> bool" where
  "grouped_effect (GsSubscribe t ks) keys (t', key) (c, b) =
     (c + (if t' = t then count_list keys key else 0), b \<and> (t' = t \<and> key \<in> set keys \<longrightarrow> c \<noteq> 0))"
| "grouped_effect (GsUnsubscribe t ks) keys (t', key) (c, b) = (c - (if t' = t then count_list keys key else 0), b)"
| "grouped_effect (GsConfirmSub t ks) keys (t', key) (c, b) = (c, b \<or> t' = t \<and> key \<in> set keys \<and> c \<noteq> 0)"
| "grouped_effect (GsConfirmUnsub t invert ks) keys (t', key) (c, b) =
     (c, b \<and> (t' = t \<and> (key \<in> set keys) \<noteq> invert \<longrightarrow> c \<noteq> 0))"

lemma grouped_spec_effect:
  "grouped_spec (C, B) (grouped_op_of op keys) =
     (\<lambda>t key. fst (grouped_effect op keys (t, key) (C t key, (t, key) \<in> B)),
      {r. snd (grouped_effect op keys r (C (fst r) (snd r), r \<in> B))})"
  by (cases op) (auto simp: fun_eq_iff)

lemma grouped_step_view:
  assumes "grouped_inv g" and "grouped_good g (grouped_op_of op keys)" and "orders_all ordk"
  shows "grouped_inv (grouped_step ordk g (grouped_op_of op keys))"
    "grouped_view (grouped_step ordk g (grouped_op_of op keys)) r = grouped_effect op keys r (grouped_view g r)"
proof -
  note c = grouped_keeper_correct [OF assms]
  show "grouped_inv (grouped_step ordk g (grouped_op_of op keys))" using c by blast
  have "grouped_abs (grouped_step ordk g (grouped_op_of op keys)) = grouped_spec (grouped_count g, grouped_believed g) (grouped_op_of op keys)"
    using c by (simp add: grouped_abs_def)
  then show "grouped_view (grouped_step ordk g (grouped_op_of op keys)) r = grouped_effect op keys r (grouped_view g r)"
    unfolding grouped_spec_effect grouped_abs_def by (cases r) (simp add: grouped_view_def set_eq_iff fun_eq_iff)
qed

text \<open>Only the own group matters, and keys outside of it are left alone, except by an inverted confirmation.\<close>

fun inverted :: "'k gstore_op \<Rightarrow> bool" where
  "inverted (GsConfirmUnsub t invert keys) = invert"
| "inverted op = False"

lemma count_list_filter: "count_list (filter P xs) x = (if P x then count_list xs x else 0)"
  by (induction xs) auto

lemma grouped_effect_filter: "P (snd r) \<Longrightarrow> grouped_effect op (filter P keys) r v = grouped_effect op keys r v"
  by (cases r; cases v; cases op) (auto simp: count_list_filter)

lemma grouped_effect_other:
  "snd r \<notin> set keys \<Longrightarrow> \<not> inverted op \<or> v = (0, False) \<Longrightarrow> grouped_effect op keys r v = v"
  by (cases r; cases v; cases op) (auto simp: count_list_0_iff)

fun gstore_small :: "'k grouped_store \<Rightarrow> 'k gstore_op \<Rightarrow> bool" where
  "gstore_small ks (GsSubscribe t keys) = (\<forall>g \<in> set ks. \<forall>key. grouped_count g t key + length keys < 2 ^ 64)"
| "gstore_small ks op = True"

lemma grouped_store_step_view:
  assumes ok: "grouped_store_ok hash ks" and ne: "ks \<noteq> []" and hash: "\<forall>key \<in> set (gstore_keys op). 0 \<le> hash key"
    and ords: "orders_ok ordg" "orders_all ordk" and small: "gstore_small ks op"
  shows "\<exists>ks'. grouped_store_step ordg ordk hash op ks = Ret ks' \<and> length ks' = length ks \<and> grouped_store_ok hash ks' \<and>
    (\<forall>r. grouped_store_view hash ks' r =
       (if inverted op \<and> key_home hash (length ks) r \<notin> key_index hash (length ks) ` set (gstore_keys op)
        then grouped_store_view hash ks r else grouped_effect op (gstore_keys op) r (grouped_store_view hash ks r)))"
proof -
  let ?n = "length ks" let ?keys = "gstore_keys op"
  let ?grp = "\<lambda>j. filter (\<lambda>key. key_index hash ?n key = j) ?keys"
  obtain ks' where ks': "grouped_store_step ordg ordk hash op ks = Ret ks'" "length ks' = ?n"
    "\<forall>j < ?n. ks' ! j = (if ?grp j = [] then ks ! j else grouped_step ordk (ks ! j) (grouped_op_of op (?grp j)))"
    using on_groups_nth [OF ne hash ords(1), of "\<lambda>grp g. grouped_step ordk g (grouped_op_of op grp)"]
    unfolding Let_def by (elim exE conjE) (rule that [unfolded grouped_store_step_eq])
  have inv: "grouped_inv (ks ! j)" and own: "key_home hash ?n r \<noteq> j \<Longrightarrow> grouped_view (ks ! j) r = (0, False)"
    if "j < ?n" for j r
    using ok that by (simp_all add: grouped_store_ok_def shards_ok_def del: split_paired_All)
  have good: "grouped_good (ks ! j) (grouped_op_of op (?grp j))" if "j < ?n" for j
  proof (cases op)
    case (GsSubscribe t keys)
    have "grouped_count (ks ! j) t key + length (?grp j) < 2 ^ 64" for key
    proof -
      have "grouped_count (ks ! j) t key + length keys < 2 ^ 64" using small GsSubscribe that by simp
      moreover have "length (?grp j) \<le> length keys" using GsSubscribe by simp
      ultimately show ?thesis by linarith
    qed
    then show ?thesis using GsSubscribe by simp
  qed simp_all
  have v: "grouped_inv (ks' ! j) \<and> grouped_view (ks' ! j) r =
      (if ?grp j = [] then grouped_view (ks ! j) r else grouped_effect op (?grp j) r (grouped_view (ks ! j) r))"
    if "j < ?n" for j r
    using ks'(3) that inv [OF that] grouped_step_view(1) [OF inv [OF that] good [OF that] ords(2)]
      grouped_step_view(2) [OF inv [OF that] good [OF that] ords(2), where r = r] by simp
  have "grouped_view (ks' ! j) r = (0, False)" if "j < ?n" "key_home hash ?n r \<noteq> j" for j r
  proof -
    have "snd r \<notin> set (?grp j)" using that(2) by (auto simp: key_home_def)
    then show ?thesis
      using v [OF that(1), where r = r] own [OF that]
          grouped_effect_other [where r = r and keys = "?grp j" and op = op and v = "(0, False)"] by simp
  qed
  then have ok': "grouped_store_ok hash ks'" using v ks'(2) by (simp add: grouped_store_ok_def shards_ok_def)
  have "grouped_store_view hash ks' r =
       (if inverted op \<and> key_home hash ?n r \<notin> key_index hash ?n ` set ?keys
        then grouped_store_view hash ks r else grouped_effect op ?keys r (grouped_store_view hash ks r))" for r
  proof -
    let ?j = "key_home hash ?n r"
    have j: "?j < ?n" using ne by (simp add: key_home_def key_index_less)
    have e: "grouped_effect op (?grp ?j) r w = grouped_effect op ?keys r w" for w
      by (rule grouped_effect_filter) (simp add: key_home_def)
    have g: "?grp ?j = [] \<longleftrightarrow> ?j \<notin> key_index hash ?n ` set ?keys" by (auto simp: filter_empty_conv image_iff)
    have "snd r \<notin> set ?keys" if "?grp ?j = []" using that by (auto simp: filter_empty_conv key_home_def)
    then have "grouped_effect op ?keys r w = w" if "?grp ?j = []" "\<not> inverted op" for w
      using that grouped_effect_other by blast
    then show ?thesis
      using v [OF j, where r = r] e g j ks'(2) by (simp add: grouped_store_view_def shards_view_def)
  qed
  then show ?thesis using ks'(1,2) ok' by blast
qed



end
