(* ===== verification/Ws_Reconn_Grouped.thy ===== *)
theory Ws_Reconn_Grouped
  imports Ws_Reconn Ws_Grouped_Keeper
begin

text \<open>
  The reconnecting client of \<open>Ws_Reconn\<close> with the keeper of groups: the same \<open>process\<close>, the same
  contract, another provider. The topics and keys that the application wants reach the other side.
\<close>

definition grouped_ops ::
  "((string, nat) gomap \<Rightarrow> string list) \<Rightarrow> (('k, groupedSub) gomap \<Rightarrow> 'k list) \<Rightarrow> ('k, 'm, 'd) grouped_formatter \<Rightarrow>
   ('k grouped_keeper, 'k groupedPayload, 'm, 'd) keeper_ops" where
  "grouped_ops ordf ordk f =
     \<lparr>ko_payloads = (\<lambda>g. grouped_payloads ordk (ordf (gk_subs g)) g), ko_payload = grouped_payload f,
      ko_confirm = grouped_confirm_payload f, ko_reset = (\<lambda>g. grouped_reset_all ordk (ordf (gk_subs g)) g),
      ko_on_change = grouped_on_change\<rparr>"

text \<open>
  What is asked of the user's formatter: messages that add and remove their keys on the other side, and
  that good replies are recognised.
\<close>

definition grouped_formatter_ok ::
  "('k, 'm, 'd) grouped_formatter \<Rightarrow> ('m \<Rightarrow> (string \<times> 'k) set \<Rightarrow> (string \<times> 'k) set) \<Rightarrow> ('d \<Rightarrow> bool) \<Rightarrow> bool" where
  "grouped_formatter_ok f effect good \<longleftrightarrow>
     (\<forall>t ks. (\<exists>m. gf_SubMessage f t ks = Some m \<and> (\<forall>r. effect m r = r \<union> {t} \<times> set ks)) \<and>
             (\<exists>m. gf_UnsubMessage f t ks = Some m \<and> (\<forall>r. effect m r = r - {t} \<times> set ks)) \<and>
             (\<forall>d. good d \<longrightarrow> gf_ConfirmSub f t ks d \<and> gf_ConfirmUnsub f t ks d))"

lemma grouped_payload_effect:
  assumes "grouped_formatter_ok f effect good" and v: "grouped_valid g p"
  shows "\<exists>m. grouped_payload f p g = (Some m, \<not> gk_manualConfirm g) \<and>
    (\<forall>r. effect m r = delivered (grouped_items g p) (grouped_wanted g) r)"
proof -
  have its: "grouped_items g p \<inter> grouped_wanted g = (if gp_subbed p then grouped_items g p else {})"
  proof (intro set_eqI)
    fix x :: "string \<times> 'a"
    show "x \<in> grouped_items g p \<inter> grouped_wanted g \<longleftrightarrow> x \<in> (if gp_subbed p then grouped_items g p else {})"
      using grouped_valid_wanted(2) [OF v, of "snd x"] by (cases x) (auto simp: grouped_items_def)
  qed
  have "delivered (grouped_items g p) (grouped_wanted g) r =
      (if gp_subbed p then r \<union> grouped_items g p else r - grouped_items g p)" for r
    unfolding delivered_def its by auto
  moreover obtain m1 m2 where
    "gf_SubMessage f (gp_topic p) (gp_keys p) = Some m1" "\<forall>r. effect m1 r = r \<union> grouped_items g p"
    "gf_UnsubMessage f (gp_topic p) (gp_keys p) = Some m2" "\<forall>r. effect m2 r = r - grouped_items g p"
    using assms(1) unfolding grouped_formatter_ok_def grouped_items_def by meson
  ultimately show ?thesis by (cases "gp_subbed p") (simp_all add: grouped_payload_def)
qed

interpretation grouped_client: keeper_client "grouped_mode False" grouped_wanted grouped_believed grouped_is_payloads
  grouped_valid grouped_items grouped_confirmed grouped_reset "grouped_ops ordf ordk f" effect good
  "grouped_formatter_ok f effect good \<and> orders_ok ordf \<and> orders_all ordk" for ordf ordk f effect good
proof
  fix g :: "'a grouped_keeper"
  assume ok: "grouped_formatter_ok f effect good \<and> orders_ok ordf \<and> orders_all ordk" and mode: "grouped_mode False g"
  then have inv: "grouped_inv g" and ord: "range_order (gk_subs g) (ordf (gk_subs g))"
    by (simp_all add: grouped_mode_def orders_ok_def grouped_inv_def)
  show "grouped_is_payloads g (fst (ko_payloads (grouped_ops ordf ordk f) g))"
    using ord ok by (auto simp: grouped_is_payloads_def grouped_ops_def)
  show "grouped_mode False (ko_reset (grouped_ops ordf ordk f) g) \<and>
      grouped_wanted (ko_reset (grouped_ops ordf ordk f) g) = grouped_wanted g \<and>
      grouped_believed (ko_reset (grouped_ops ordf ordk f) g) = {}"
    using grouped_reset_correct [OF inv _ ord, of ordk] ok mode by (simp add: grouped_ops_def grouped_mode_def)
  fix p d
  assume v: "grouped_valid g p"
  show "\<exists>m. ko_payload (grouped_ops ordf ordk f) p g = (Some m, True) \<and>
      (\<forall>r. effect m r = delivered (grouped_items g p) (grouped_wanted g) r)"
    using grouped_payload_effect [of f effect good g p] ok v mode by (simp add: grouped_ops_def grouped_mode_def)
  assume "good d"
  then show "ko_confirm (grouped_ops ordf ordk f) p d g = grouped_confirmed g p"
    using ok by (simp add: grouped_ops_def grouped_formatter_ok_def grouped_confirm_payload_def grouped_confirmed_def)
qed

text \<open>
  C34. Resubscription in groups. One run of \<open>process\<close> over a connection on which every payload is
  answered by a good reply, with the keeper of groups: after a lost connection the messages sent make a
  server that knows nothing hold exactly the pairs of topic and key with a positive count; over an open
  connection they bring a server in the believed state there. Afterwards the keeper believes exactly
  what is wanted.
\<close>

theorem grouped_client_resubscribes:
  assumes "grouped_mode False g" and "grouped_formatter_ok f effect good" and "orders_ok ordf" and "orders_all ordk"
    and "\<forall>i m. \<exists>d. net i m = Inr d \<and> good d" and "\<forall>i. \<not> intr i"
    and "process (grouped_ops ordf ordk f) net (\<lambda>_ k. k) intr False is_open None c g = (c', g', msgs, fns, trig)"
  shows "grouped_wanted g' = grouped_wanted g \<and> grouped_believed g' = grouped_wanted g \<and>
    fold effect msgs (if is_open then grouped_believed g else {}) = grouped_wanted g \<and> \<not> trig"
  using grouped_client.process_synchronises [OF _ assms(1,5,6,7) refl] assms(2,3,4) by blast

text \<open>A formatter whose messages are the keys with their topic, tagged.\<close>

definition sample_group_formatter :: "(nat, (string \<times> nat) list + (string \<times> nat) list, unit) grouped_formatter" where
  "sample_group_formatter =
     \<lparr>gf_SubMessage = (\<lambda>t ks. Some (Inl (map (Pair t) ks))), gf_UnsubMessage = (\<lambda>t ks. Some (Inr (map (Pair t) ks))),
      gf_ConfirmSub = (\<lambda>_ _ _. True), gf_ConfirmUnsub = (\<lambda>_ _ _. True)\<rparr>"

definition sample_group_effect :: "'a list + 'a list \<Rightarrow> 'a set \<Rightarrow> 'a set" where
  "sample_group_effect m r = (case m of Inl ps \<Rightarrow> r \<union> set ps | Inr ps \<Rightarrow> r - set ps)"

lemma sample_group_formatter_ok: "grouped_formatter_ok sample_group_formatter sample_group_effect (\<lambda>_. True)"
  by (auto simp: grouped_formatter_ok_def sample_group_formatter_def sample_group_effect_def)

lemma sample_grouped_mode: "grouped_mode False sample_grouped"
proof -
  have "gk_manualConfirm sample_grouped = gk_manualConfirm empty_grouped"
    unfolding sample_grouped_def grouped_subscribe_def Let_def by (simp split: prod.split option.split)
  then show ?thesis
    unfolding grouped_mode_def using sample_grouped_facts(1) by (simp add: empty_grouped_def new_grouped_sub_keeper_def)
qed

theorem grouped_client_resubscribes_witness:
  "\<exists>c' g' msgs fns. process (grouped_ops gm_keys gm_keys sample_group_formatter) (\<lambda>_ _. Inr ()) (\<lambda>_ k. k) (\<lambda>_. False)
     False False None sample_client sample_grouped = (c', g', msgs, fns, False) \<and>
     fold sample_group_effect msgs {} = {(''trades'', 1), (''trades'', 2)}"
proof -
  obtain c' g' msgs fns trig where p: "process (grouped_ops gm_keys gm_keys sample_group_formatter) (\<lambda>_ _. Inr ())
     (\<lambda>_ k. k) (\<lambda>_. False) False False None sample_client sample_grouped = (c', g', msgs, fns, trig)" by (metis prod_cases5)
  have "grouped_wanted sample_grouped = {(''trades'', 1), (''trades'', 2)}"
  proof (intro set_eqI)
    fix x :: "string \<times> nat"
    show "x \<in> grouped_wanted sample_grouped \<longleftrightarrow> x \<in> {(''trades'', 1), (''trades'', 2)}"
      by (cases x) (simp add: grouped_wanted_def sample_grouped_facts(2) del: char.inject)
  qed
  moreover have "fold sample_group_effect msgs (if False then grouped_believed sample_grouped else {}) =
      grouped_wanted sample_grouped \<and> \<not> trig"
    by (rule grouped_client_resubscribes [where net = "\<lambda>_ _. Inr ()" and good = "\<lambda>_. True" and intr = "\<lambda>_. False",
      OF sample_grouped_mode sample_group_formatter_ok orders_ok_keys orders_all_keys _ _ p, THEN conjunct2, THEN conjunct2]) simp_all
  ultimately have "fold sample_group_effect msgs {} = {(''trades'', 1), (''trades'', 2)}" "\<not> trig"
    unfolding if_False by metis+
  with p show ?thesis by simp
qed

end
