(* ===== verification/Ws_Shards_Client.thy ===== *)
theory Ws_Shards_Client
  imports Ws_Shards Ws_Reconn_Grouped Ws_Client
begin

text \<open>
  The sharded client (\<^verbatim>\<open>wsclient/wsshards/client.go\<close>): one reconnecting client per keeper of a store. It
  shows how the parts compose: the connections together carry exactly what the store wants, each topic on
  one of them.
\<close>

section \<open>Construction\<close>

text \<open>
  The loop of \<^verbatim>\<open>NewClient\<close> over the keepers, with the clients it has opened, each with its connection
  number. \<open>open_res\<close> is what opening each connection gives. On an error the clients opened so far are
  closed: they are the second part of the result.
\<close>

fun open_shards ::
  "('k, 'p, 'm, 'd) keeper_ops \<Rightarrow> (nat \<Rightarrow> nat) \<Rightarrow> (nat \<Rightarrow> go_error option) \<Rightarrow> client_options \<Rightarrow>
   nat \<Rightarrow> 'k list \<Rightarrow> (nat \<times> client) list \<Rightarrow> (go_error \<times> (nat \<times> client) list + (nat \<times> client) list) \<times> 'k list" where
  "open_shards ops trigger open_res opts i [] ws = (Inr ws, [])"
| "open_shards ops trigger open_res opts i (keeper # ks) ws =
     (case new_client ops (trigger (i + 1)) (open_res (i + 1)) opts keeper of
        (Inl err, keeper') \<Rightarrow> (Inl (err, ws), keeper' # ks)
      | (Inr rc, keeper') \<Rightarrow>
          let (res, ks') = open_shards ops trigger open_res opts (Suc i) ks (ws @ [(i + 1, rc)])
          in (res, keeper' # ks'))"

definition new_shards_client ::
  "('k, 'p, 'm, 'd) keeper_ops \<Rightarrow> (nat \<Rightarrow> nat) \<Rightarrow> (nat \<Rightarrow> go_error option) \<Rightarrow> client_options \<Rightarrow>
   'k list \<Rightarrow> (go_error \<times> (nat \<times> client) list + (nat \<times> client) list) \<times> 'k list" where
  "new_shards_client ops trigger open_res opts keepers = open_shards ops trigger open_res opts 0 keepers []"

text \<open>\<^verbatim>\<open>OnRead\<close> forwards the function to the socket client of every shard.\<close>

definition shards_on_read :: "nat \<Rightarrow> 'j ws_client list \<Rightarrow> 'j ws_client list" where
  "shards_on_read fn ws = map (ws_on_read fn) ws"

lemma open_shards_outcome:
  "open_shards ops trigger open_res opts i ks ws = (res, ks') \<Longrightarrow>
   length ks' = length ks \<and>
   (case res of
      Inr ws' \<Rightarrow> (\<forall>j < length ks. open_res (Suc (i + j)) = None) \<and> map fst ws' = map fst ws @ map (\<lambda>j. Suc (i + j)) [0..<length ks] \<and>
        (\<forall>j < length ks. ks' ! j = ko_on_change ops (trigger (Suc (i + j))) (ks ! j))
    | Inl (err, closed) \<Rightarrow> \<exists>n < length ks. open_res (Suc (i + n)) = Some err \<and> (\<forall>j < n. open_res (Suc (i + j)) = None) \<and>
        map fst closed = map fst ws @ map (\<lambda>j. Suc (i + j)) [0..<n] \<and> (\<forall>j < length ks. n \<le> j \<longrightarrow> ks' ! j = ks ! j))"
proof (induction ks arbitrary: i ws ks')
  case Nil
  then have "res = Inr ws" "ks' = []" by auto
  then show ?case by simp
next
  case (Cons k ks)
  show ?case
  proof (cases "open_res (Suc i)")
    case (Some err)
    then show ?thesis using Cons.prems by (auto simp: new_client_def Let_def intro!: exI [of _ 0])
  next
    case None
    let ?c = "\<lparr>rc_opts = default_options opts, rc_attempts = Suc 0, rc_writes = 0, rc_reconnFns = []\<rparr>"
    let ?k = "ko_on_change ops (trigger (Suc i)) k"
    obtain ks1 where r: "open_shards ops trigger open_res opts (Suc i) ks (ws @ [(Suc i, ?c)]) = (res, ks1)" "ks' = ?k # ks1"
      using Cons.prems None by (auto simp: new_client_def Let_def split: prod.splits)
    have up: "map (\<lambda>j. Suc (i + j)) [0..<Suc n] = Suc i # map (\<lambda>j. Suc (Suc i + j)) [0..<n]" for n
      by (simp add: upt_conv_Cons map_Suc_upt [symmetric] del: upt_Suc)
    note ih = Cons.IH [OF r(1)]
    show ?thesis
    proof (cases res)
      case (Inr ws')
      then show ?thesis using ih None by (auto simp: r(2) less_Suc_eq_0_disj up simp del: upt_Suc)
    next
      case (Inl p)
      obtain err closed where p: "p = (err, closed)" by (cases p)
      obtain n where n: "n < length ks" "open_res (Suc (Suc i + n)) = Some err" "\<forall>j < n. open_res (Suc (Suc i + j)) = None"
        "map fst closed = (map fst ws @ [Suc i]) @ map (\<lambda>j. Suc (Suc i + j)) [0..<n]" "\<forall>j < length ks. n \<le> j \<longrightarrow> ks1 ! j = ks ! j"
        using ih Inl p by auto
      show ?thesis unfolding Inl p
        using ih [THEN conjunct1] n None
        by (simp add: r(2), intro exI [of _ "Suc n"]) (simp add: All_less_Suc2 up del: upt_Suc)
    qed
  qed
qed

text \<open>
  Either all connections are open and numbered from one, and every keeper notifies its client; or the
  first one that fails decides: the result is its error, and exactly the clients before it are closed.
\<close>

lemma new_shards_client_outcome:
  assumes "new_shards_client ops trigger open_res opts ks = (res, ks')"
  shows "case res of
      Inr ws \<Rightarrow> (\<forall>j < length ks. open_res (Suc j) = None) \<and> map fst ws = map Suc [0..<length ks] \<and>
        (\<forall>j < length ks. ks' ! j = ko_on_change ops (trigger (Suc j)) (ks ! j))
    | Inl (err, closed) \<Rightarrow> \<exists>n < length ks. open_res (Suc n) = Some err \<and> (\<forall>j < n. open_res (Suc j) = None) \<and>
        map fst closed = map Suc [0..<n] \<and> (\<forall>j < length ks. n \<le> j \<longrightarrow> ks' ! j = ks ! j)"
  using open_shards_outcome [OF assms [unfolded new_shards_client_def]] by (auto split: sum.splits)

section \<open>All shards together\<close>

text \<open>One run of \<^verbatim>\<open>process\<close> for every shard.\<close>

definition process_shards ::
  "('k, 'p, 'm, 'd) keeper_ops \<Rightarrow> (nat \<Rightarrow> nat \<Rightarrow> 'm \<Rightarrow> go_error + 'd) \<Rightarrow> (nat \<Rightarrow> nat \<Rightarrow> bool) \<Rightarrow> (nat \<Rightarrow> bool) \<Rightarrow>
   client list \<Rightarrow> 'k list \<Rightarrow> (client \<times> 'k \<times> 'm list \<times> nat list \<times> bool) list" where
  "process_shards ops net intr is_open cs ks =
     map (\<lambda>j. process ops (net j) (\<lambda>_ k. k) (intr j) False (is_open j) None (cs ! j) (ks ! j)) [0..<length ks]"

definition run_keeper :: "client \<times> 'k \<times> 'm list \<times> nat list \<times> bool \<Rightarrow> 'k" where
  "run_keeper x = fst (snd x)"

definition run_messages :: "client \<times> 'k \<times> 'm list \<times> nat list \<times> bool \<Rightarrow> 'm list" where
  "run_messages x = fst (snd (snd x))"

definition auto_confirmed :: "solo_store \<Rightarrow> bool" where
  "auto_confirmed ks \<longleftrightarrow> (\<forall>s \<in> set ks. \<not> sk_manualConfirm s)"

text \<open>
  C27. The sharded client as a whole. When every shard runs \<open>process\<close> once over a healthy connection,
  old or reopened, the connections together hold exactly the topics that the store wants; no topic is on
  two connections, and each is on the connection of the keeper that the store chooses for it. The store
  stays well-formed, wants the same, and believes what is true.
\<close>

theorem shards_resubscribe:
  assumes "solo_store_ok ks" and "auto_confirmed ks" and "solo_formatter_ok f effect good" and "orders_ok ordf"
    and "\<forall>j i m. \<exists>d. net j i m = Inr d \<and> good d" and "\<forall>j i. \<not> intr j i"
    and "runs = process_shards (solo_ops ordf f) net intr is_open cs ks"
    and "remote = (\<lambda>j. fold effect (run_messages (runs ! j)) (if is_open j then solo_believed (ks ! j) else {}))"
  shows "(\<Union>j < length ks. remote j) = fst (solo_store_abs ks) \<and>
    (\<forall>j < length ks. \<forall>t \<in> remote j. topic_home (length ks) t = j) \<and>
    solo_store_ok (map run_keeper runs) \<and>
    solo_store_abs (map run_keeper runs) = (fst (solo_store_abs ks), fst (solo_store_abs ks))"
proof -
  let ?n = "length ks" let ?view = "shards_view solo_view (False, False) (topic_home ?n)"
  have ok: "shards_ok solo_inv solo_view (False, False) (topic_home ?n) ks" using assms(1) by (simp add: solo_store_ok_def)
  have len: "length runs = ?n" using assms(7) by (simp add: process_shards_def)
  have run: "solo_mode False (run_keeper (runs ! j)) \<and> solo_wanted (run_keeper (runs ! j)) = solo_wanted (ks ! j) \<and>
      solo_believed (run_keeper (runs ! j)) = solo_wanted (ks ! j) \<and> remote j = solo_wanted (ks ! j)" if "j < ?n" for j
  proof -
    have mode: "solo_mode False (ks ! j)" using ok assms(2) that by (auto simp: solo_mode_def auto_confirmed_def shards_ok_def)
    obtain c' s' msgs fns trig where p: "process (solo_ops ordf f) (net j) (\<lambda>_ k. k) (intr j) False (is_open j) None (cs ! j) (ks ! j) =
        (c', s', msgs, fns, trig)" by (metis prod_cases5)
    have x: "runs ! j = (c', s', msgs, fns, trig)" using assms(7) that p by (simp add: process_shards_def)
    have "\<forall>i m. \<exists>d. net j i m = Inr d \<and> good d" "\<forall>i. \<not> intr j i" using assms(5,6) by simp_all
    from solo_client.process_synchronises [OF _ mode this p refl] solo_client.process_safe [OF _ mode _ p] assms(3,4)
    show ?thesis by (simp add: x run_keeper_def run_messages_def assms(8))
  qed
  let ?ks = "map run_keeper runs"
  have view: "solo_view (?ks ! j) t = (fst (solo_view (ks ! j) t), fst (solo_view (ks ! j) t))" if "j < ?n" for j t
    using run [OF that] that len by (simp add: solo_view_def)
  have inv: "solo_inv (?ks ! j)" if "j < ?n" for j using run [OF that] that len by (simp add: solo_mode_def)
  note all = solo_shards.update_all [OF ok, of ?ks "\<lambda>v. (fst v, fst v)"]
  have ok': "solo_store_ok ?ks" using all(1) view inv len by (simp add: solo_store_ok_def)
  have "?view ?ks t = (fst (?view ks t), fst (?view ks t))" for t using all(2) view inv len by simp
  then have abs: "solo_store_abs ?ks = (fst (solo_store_abs ks), fst (solo_store_abs ks))"
    using len by (simp add: solo_store_abs_def)
  have home: "topic_home ?n t = j" if "j < ?n" "t \<in> remote j" for j t
    using solo_shards.known_somewhere(2) [OF ok that(1), of t] run [OF that(1)] that(2) by (auto simp: solo_view_def)
  have "(\<Union>j < ?n. remote j) = fst (solo_store_abs ks)"
    using run home by (auto simp: solo_store_abs_def shards_view_def solo_view_def)
  then show ?thesis using home ok' abs by blast
qed

text \<open>A store of two keepers, with a topic whose bytes have an odd sum, both connections lost and reopened.\<close>

definition sample_store :: solo_store where
  "sample_store =
     [new_solo_sub_keeper \<lparr>mx_subs = 0, mx_sub_confirmations = 0, mx_unsub_confirmations = 0\<rparr> 0 False, sample_solo]"

lemma sample_store_facts:
  "solo_store_ok sample_store" "auto_confirmed sample_store" "solo_store_abs sample_store = ({''btc''}, {})"
proof -
  have len: "length sample_store = 2" by (simp add: sample_store_def)
  have home: "topic_home 2 ''btc'' = 1" by (simp add: topic_home_def)
  have view: "solo_view sample_solo t = (t = ''btc'', False)" for t
    using sample_solo_facts(2) by (simp add: solo_view_def solo_abs_def)
  have nth: "sample_store ! 1 = sample_solo" "solo_inv (sample_store ! 0)" "solo_view (sample_store ! 0) t = (False, False)" for t
    by (simp_all add: sample_store_def solo_new solo_view_def)
  have two: "(\<forall>i < (2 :: nat). P i) \<longleftrightarrow> P 0 \<and> P 1" for P
    by (auto simp: less_2_cases_iff)
  show "solo_store_ok sample_store"
    unfolding solo_store_ok_def shards_ok_def len two using nth sample_solo_facts(1) view home by auto
  show "auto_confirmed sample_store"
    using sample_solo_mode by (simp add: auto_confirmed_def sample_store_def solo_mode_def new_solo_sub_keeper_def)
  have "topic_home 2 t < 2" for t by (simp add: topic_home_def)
  then have "shards_view solo_view (False, False) (topic_home 2) sample_store t = (t = ''btc'', False)" for t
    using nth view home by (cases "topic_home 2 t = 1") (auto simp: shards_view_def len less_2_cases_iff)
  then show "solo_store_abs sample_store = ({''btc''}, {})" by (simp add: solo_store_abs_def len)
qed

theorem shards_resubscribe_witness:
  "\<exists>runs. runs = process_shards (solo_ops gm_keys sample_formatter) (\<lambda>_ _ _. Inr ()) (\<lambda>_ _. False) (\<lambda>_. False)
       [sample_client, sample_client] sample_store \<and>
     (\<Union>j < length sample_store. fold sample_effect (run_messages (runs ! j)) {}) = {''btc''}"
proof -
  from shards_resubscribe [OF sample_store_facts(1,2) sample_formatter_ok orders_ok_keys, where intr = "\<lambda>_ _. False"
      and is_open = "\<lambda>_. False" and cs = "[sample_client, sample_client]" and net = "\<lambda>_ _ _. Inr ()", OF _ _ refl refl]
  show ?thesis using sample_store_facts(3) by auto
qed

end
