(* ===== verification/Ws_Topic_Filters.thy ===== *)
theory Ws_Topic_Filters
  imports Ws_Topic_Pub
begin

text \<open>
  Concurrent publishing on one topic (\<^verbatim>\<open>PublishMany\<close> of \<^verbatim>\<open>wsserver/topic.go\<close>), with the memory of the
  slice of middlewares. Publishers hold the read lock of the topic together; each appends its filter to
  the shared slice, and its goroutines read the result later. An \<^verbatim>\<open>append\<close> to a slice with spare capacity
  writes into the shared array. Where it never does, every publisher behaves as \<open>publish_many\<close>, in every
  interleaving; where it does, an event can reach a connection that its filter rejects.
\<close>

section \<open>Slices\<close>

text \<open>
  An array is a list as long as its capacity; a slice starts at the beginning of its array. The array
  that a growing \<^verbatim>\<open>append\<close> allocates is known to its caller only, so its spare capacity does not matter.
\<close>

record slice =
  sl_arr :: nat
  sl_len :: nat
  sl_cap :: nat

definition slice_elems :: "'a list list \<Rightarrow> slice \<Rightarrow> 'a list" where
  "slice_elems mem s = take (sl_len s) (mem ! sl_arr s)"

definition go_append :: "'a list list \<Rightarrow> slice \<Rightarrow> 'a \<Rightarrow> 'a list list \<times> slice" where
  "go_append mem s x =
     (if sl_len s < sl_cap s
      then (mem[sl_arr s := (mem ! sl_arr s)[sl_len s := x]], s\<lparr>sl_len := Suc (sl_len s)\<rparr>)
      else (mem @ [slice_elems mem s @ [x]], \<lparr>sl_arr = length mem, sl_len = Suc (sl_len s), sl_cap = Suc (sl_len s)\<rparr>))"

definition slice_ok :: "'a list list \<Rightarrow> slice \<Rightarrow> bool" where
  "slice_ok mem s \<longleftrightarrow> sl_arr s < length mem \<and> sl_len s \<le> sl_cap s \<and> length (mem ! sl_arr s) = sl_cap s"

text \<open>The appended slice alone is what it should be.\<close>

lemma go_append_elems:
  "slice_ok mem s \<Longrightarrow> go_append mem s x = (mem', s') \<Longrightarrow> slice_elems mem' s' = slice_elems mem s @ [x] \<and> slice_ok mem' s'"
  by (auto simp: go_append_def slice_ok_def slice_elems_def take_Suc_conv_app_nth nth_append split: if_splits)

lemma go_append_full:
  "sl_cap s = sl_len s \<Longrightarrow> go_append mem s x = (mem', s') \<Longrightarrow> \<exists>a. mem' = mem @ [a]"
  by (auto simp: go_append_def)

section \<open>Publishers\<close>

text \<open>A call of \<^verbatim>\<open>PublishMany\<close>: its payload, its filter, and the order in which its goroutines run.\<close>

record 'p pub_request =
  rq_payload :: 'p
  rq_filter :: "middleware option"
  rq_sched :: "(conn \<times> params) list \<Rightarrow> (conn \<times> params) list"

text \<open>
  \<open>Publishing rq mw jobs presets calls\<close>: the slice of middlewares is built, \<open>jobs\<close> are the goroutines that
  have not run yet.
\<close>

datatype 'p publisher =
    Asked "'p pub_request"
  | Publishing "'p pub_request" slice "(conn \<times> params) list" "(string, go_error + string) gomap" "pub_call list"
  | Finished "'p pub_request" "pub_call list"

definition pub_pattern :: "topic \<Rightarrow> pattern" where
  "pub_pattern t = with_topic_descriptor (t_pattern t) descriptor_pub"

definition pub_data :: "'p pub_request \<Rightarrow> 'p data" where
  "pub_data rq = [(''payload'', JPayload (rq_payload rq))]"

text \<open>One goroutine of \<^verbatim>\<open>publish\<close>, with the middlewares it reads.\<close>

definition publish_job ::
  "'p marshal \<Rightarrow> (conn \<Rightarrow> bool) \<Rightarrow> pattern \<Rightarrow> 'p data \<Rightarrow> middleware list \<Rightarrow> conn \<times> params \<Rightarrow>
   (string, go_error + string) gomap \<Rightarrow> pub_call list \<Rightarrow> (string, go_error + string) gomap \<times> pub_call list" where
  "publish_job marshal accept ptrn data middlewares job presets calls =
     (let subCtx = new_topic_params_context (c_ctx (fst job)) (snd job);
          rawTopic = pattern_format ptrn (snd job)
      in if \<not> list_all (\<lambda>mfn. mfn subCtx rawTopic) middlewares then (presets, calls)
         else
           let (ev, presets', enc) = preset_data marshal data presets rawTopic
           in (presets', calls @ [conn_publish accept (fst job) ev]))"

text \<open>One step of a publisher of topic \<open>t\<close>, whose middlewares are the slice \<open>mw\<close>.\<close>

fun publisher_step ::
  "'p marshal \<Rightarrow> (conn \<Rightarrow> bool) \<Rightarrow> topic \<Rightarrow> slice \<Rightarrow> middleware list list \<Rightarrow> 'p publisher \<Rightarrow> middleware list list \<times> 'p publisher" where
  "publisher_step marshal accept t mw mem (Asked rq) =
     (let jobs = rq_sched rq (jobs_of (t_subs t))
      in case rq_filter rq of
           None \<Rightarrow> (mem, Publishing rq mw jobs [] [])
         | Some f \<Rightarrow> let (mem', mw') = go_append mem mw f in (mem', Publishing rq mw' jobs [] []))"
| "publisher_step marshal accept t mw mem (Publishing rq sl [] presets calls) = (mem, Finished rq calls)"
| "publisher_step marshal accept t mw mem (Publishing rq sl (job # jobs) presets calls) =
     (let (presets', calls') = publish_job marshal accept (pub_pattern t) (pub_data rq) (slice_elems mem sl) job presets calls
      in (mem, Publishing rq sl jobs presets' calls'))"
| "publisher_step marshal accept t mw mem (Finished rq calls) = (mem, Finished rq calls)"

text \<open>A run: which publisher makes the next step.\<close>

fun publishers_run ::
  "'p marshal \<Rightarrow> (conn \<Rightarrow> bool) \<Rightarrow> topic \<Rightarrow> slice \<Rightarrow> nat list \<Rightarrow> middleware list list \<times> 'p publisher list \<Rightarrow>
   middleware list list \<times> 'p publisher list" where
  "publishers_run marshal accept t mw [] s = s"
| "publishers_run marshal accept t mw (i # is) (mem, ps) =
     (if i < length ps
      then let (mem', p) = publisher_step marshal accept t mw mem (ps ! i)
           in publishers_run marshal accept t mw is (mem', ps[i := p])
      else publishers_run marshal accept t mw is (mem, ps))"

lemma publish_job_jobs:
  "publish_job marshal accept ptrn data mws job presets calls = (presets', calls') \<Longrightarrow>
   calls @ fst (publish_jobs marshal accept ptrn data mws presets (job # jobs)) =
   calls' @ fst (publish_jobs marshal accept ptrn data mws presets' jobs)"
  by (cases job) (auto simp: publish_job_def Let_def split: if_splits prod.splits)

section \<open>Isolation\<close>

definition mws_of :: "topic \<Rightarrow> 'p pub_request \<Rightarrow> middleware list" where
  "mws_of t rq = t_middlewares t @ (case rq_filter rq of None \<Rightarrow> [] | Some f \<Rightarrow> [f])"

text \<open>What a publisher has done and will do is what \<open>publish_many\<close> does.\<close>

fun publisher_ok :: "'p marshal \<Rightarrow> (conn \<Rightarrow> bool) \<Rightarrow> topic \<Rightarrow> middleware list list \<Rightarrow> 'p publisher \<Rightarrow> bool" where
  "publisher_ok marshal accept t mem (Asked rq) = True"
| "publisher_ok marshal accept t mem (Publishing rq sl jobs presets calls) =
     (sl_arr sl < length mem \<and> slice_elems mem sl = mws_of t rq \<and>
      calls @ fst (publish_jobs marshal accept (pub_pattern t) (pub_data rq) (mws_of t rq) presets jobs) =
        fst (publish_many marshal accept (rq_sched rq) t (rq_payload rq) (rq_filter rq)))"
| "publisher_ok marshal accept t mem (Finished rq calls) =
     (calls = fst (publish_many marshal accept (rq_sched rq) t (rq_payload rq) (rq_filter rq)))"

lemma publish_many_jobs:
  "fst (publish_many marshal accept sched t payload filt) =
   fst (publish_jobs marshal accept (pub_pattern t) [(''payload'', JPayload payload)]
     (t_middlewares t @ (case filt of None \<Rightarrow> [] | Some f \<Rightarrow> [f])) [] (sched (jobs_of (t_subs t))))"
  by (simp add: publish_many_def publish_def pub_pattern_def)

lemma publisher_ok_grow: "publisher_ok marshal accept t mem p \<Longrightarrow> publisher_ok marshal accept t (mem @ [a]) p"
  by (cases p) (auto simp: slice_elems_def nth_append)

lemma publisher_step_ok:
  assumes mw: "slice_ok mem mw" "slice_elems mem mw = t_middlewares t" "sl_cap mw = sl_len mw"
    and ok: "publisher_ok marshal accept t mem p" and st: "publisher_step marshal accept t mw mem p = (mem', p')"
  shows "publisher_ok marshal accept t mem' p' \<and> (mem' = mem \<or> (\<exists>a. mem' = mem @ [a]))"
proof (cases p)
  case (Asked rq)
  show ?thesis
  proof (cases "rq_filter rq")
    case None
    then show ?thesis using st Asked mw
      by (auto simp: mws_of_def pub_data_def publish_many_jobs slice_ok_def)
  next
    case (Some f)
    obtain mem1 sl where a: "go_append mem mw f = (mem1, sl)" by (cases "go_append mem mw f")
    have "slice_elems mem1 sl = t_middlewares t @ [f]" "sl_arr sl < length mem1"
      using go_append_elems [OF mw(1) a] mw(2) by (simp_all add: slice_ok_def)
    then show ?thesis using st Asked Some a go_append_full [OF mw(3) a]
      by (auto simp: mws_of_def pub_data_def publish_many_jobs)
  qed
next
  case (Publishing rq sl jobs presets calls)
  show ?thesis
  proof (cases jobs)
    case Nil
    then show ?thesis using st ok Publishing by auto
  next
    case (Cons job js)
    then show ?thesis using st ok Publishing
      by (auto simp: publish_job_jobs [symmetric] split: prod.splits)
  qed
qed (use st ok in auto)

lemma slice_grow:
  "slice_ok mem s \<Longrightarrow> slice_ok (mem @ [a]) s" "slice_ok mem s \<Longrightarrow> slice_elems (mem @ [a]) s = slice_elems mem s"
  by (auto simp: slice_ok_def slice_elems_def nth_append)

lemma publishers_run_ok:
  assumes "slice_ok mem mw" and "slice_elems mem mw = t_middlewares t" and "sl_cap mw = sl_len mw"
    and "\<forall>p \<in> set ps. publisher_ok marshal accept t mem p"
    and "publishers_run marshal accept t mw is (mem, ps) = (mem', ps')"
  shows "\<forall>p \<in> set ps'. publisher_ok marshal accept t mem' p"
  using assms
proof (induction "is" arbitrary: mem ps)
  case (Cons i "is")
  show ?case
  proof (cases "i < length ps")
    case True
    obtain mem1 p where p: "publisher_step marshal accept t mw mem (ps ! i) = (mem1, p)"
      by (cases "publisher_step marshal accept t mw mem (ps ! i)")
    have s: "publisher_ok marshal accept t mem1 p" "mem1 = mem \<or> (\<exists>a. mem1 = mem @ [a])"
      using publisher_step_ok [OF Cons.prems(1-3) _ p] Cons.prems(4) True by simp_all
    have mw: "slice_ok mem1 mw" "slice_elems mem1 mw = t_middlewares t"
      using s(2) slice_grow [OF Cons.prems(1)] Cons.prems(1,2) by auto
    have "\<forall>q \<in> set ps. publisher_ok marshal accept t mem1 q"
      using s(2) Cons.prems(4) publisher_ok_grow by blast
    then have "\<forall>q \<in> set (ps[i := p]). publisher_ok marshal accept t mem1 q"
      using s(1) set_update_subset_insert [of ps i p] by blast
    from Cons.IH [OF mw Cons.prems(3) this] show ?thesis using Cons.prems(5) p True by simp
  qed (use Cons in auto)
qed simp

text \<open>Publishers keep their requests and finish.\<close>

fun request_of :: "'p publisher \<Rightarrow> 'p pub_request" where
  "request_of (Asked rq) = rq"
| "request_of (Publishing rq sl jobs presets calls) = rq"
| "request_of (Finished rq calls) = rq"

fun steps_left :: "topic \<Rightarrow> 'p publisher \<Rightarrow> nat" where
  "steps_left t (Asked rq) = length (rq_sched rq (jobs_of (t_subs t))) + 2"
| "steps_left t (Publishing rq sl jobs presets calls) = length jobs + 1"
| "steps_left t (Finished rq calls) = 0"

lemma publisher_step_left:
  "publisher_step marshal accept t mw mem p = (mem', p') \<Longrightarrow>
   request_of p' = request_of p \<and> steps_left t p' = steps_left t p - 1"
  by (cases "(marshal, accept, t, mw, mem, p)" rule: publisher_step.cases)
    (auto simp: Let_def split: option.splits prod.splits)

lemma publishers_run_left:
  "publishers_run marshal accept t mw is (mem, ps) = (mem', ps') \<Longrightarrow> i < length ps \<Longrightarrow>
   length ps' = length ps \<and> request_of (ps' ! i) = request_of (ps ! i) \<and>
   steps_left t (ps' ! i) = steps_left t (ps ! i) - count_list is i"
proof (induction "is" arbitrary: mem ps)
  case (Cons j "is")
  show ?case
  proof (cases "j < length ps")
    case True
    obtain mem1 p where p: "publisher_step marshal accept t mw mem (ps ! j) = (mem1, p)"
      by (cases "publisher_step marshal accept t mw mem (ps ! j)")
    note s = publisher_step_left [OF p]
    show ?thesis using Cons.IH [of mem1 "ps[j := p]"] Cons.prems True p s by (cases "i = j") auto
  qed (use Cons in auto)
qed simp

text \<open>
  C8. Concurrent publishing with filters. When the slice of a topic's middlewares has no spare capacity,
  as after a registration with the middlewares written out, every interleaving of any number of
  publishers gives each of them exactly the calls of PublishMany run alone, with its own filter, although
  they share the slice and hold the lock only for reading; and each finishes after as many steps as it
  has subscribers, and two.
\<close>

theorem publishers_isolated:
  assumes "slice_ok mem mw" and "slice_elems mem mw = t_middlewares t" and "sl_cap mw = sl_len mw"
    and "publishers_run marshal accept t mw is (mem, map Asked rqs) = (mem', ps)" and "i < length rqs"
  shows "(\<forall>rq calls. ps ! i = Finished rq calls \<longrightarrow> rq = rqs ! i \<and>
      calls = fst (publish_many marshal accept (rq_sched rq) t (rq_payload rq) (rq_filter rq))) \<and>
    (length (rq_sched (rqs ! i) (jobs_of (t_subs t))) + 2 \<le> count_list is i \<longrightarrow>
      (\<exists>calls. ps ! i = Finished (rqs ! i) calls))"
proof -
  have "\<forall>p \<in> set (map Asked rqs). publisher_ok marshal accept t mem p" by auto
  note ok = publishers_run_ok [OF assms(1-3) this assms(4)]
  have left: "length ps = length rqs" "request_of (ps ! i) = rqs ! i"
    "steps_left t (ps ! i) = length (rq_sched (rqs ! i) (jobs_of (t_subs t))) + 2 - count_list is i"
    using publishers_run_left [OF assms(4), of i] assms(5) by simp_all
  have "publisher_ok marshal accept t mem' (ps ! i)" using ok left(1) assms(5) by simp
  then show ?thesis using left(2,3) by (cases "ps ! i") auto
qed

section \<open>Shared filters\<close>

text \<open>\<^verbatim>\<open>PublishOne\<close> for the connection with an id, as a request.\<close>

definition one_request :: "string \<Rightarrow> 'p \<Rightarrow> 'p pub_request" where
  "one_request ident payload =
     \<lparr>rq_payload = payload, rq_filter = Some (\<lambda>c _. ctx_value c WsCtxID = Some (StrVal ident)), rq_sched = (\<lambda>jobs. jobs)\<rparr>"

lemma one_request_is_publish_one:
  "ctx_value c WsCtxID = Some (StrVal ident) \<Longrightarrow>
   publish_one marshal accept (\<lambda>jobs. jobs) t c payload =
   publish_many marshal accept (rq_sched (one_request ident payload)) t payload (rq_filter (one_request ident payload))"
  by (simp add: publish_one_def one_request_def)

definition two_subscribers :: topic where
  "two_subscribers = fst (add_sub (fst (add_sub sample_topic (sample_conn 1 ''a'') (sample_params ''btc'')))
     (sample_conn 2 ''b'') (sample_params ''btc''))"

definition text_marshal :: "string marshal" where
  "text_marshal data = (case gm_get data ''payload'' of Some (JPayload p) \<Rightarrow> Inr p | _ \<Rightarrow> Inl (Plain EOF))"

fun calls_of :: "'p publisher \<Rightarrow> pub_call list" where
  "calls_of (Finished rq calls) = calls"
| "calls_of p = []"

text \<open>No middlewares, in a slice with room for one.\<close>

definition roomy :: slice where
  "roomy = \<lparr>sl_arr = 0, sl_len = 0, sl_cap = 1\<rparr>"

lemma add_sub_middlewares: "t_middlewares (fst (add_sub t c ps)) = t_middlewares t"
  by (simp add: add_sub_def Let_def)

lemma sample_middlewares: "t_middlewares sample_topic = []"
  by (simp add: sample_topic_def on_last_unsub_def on_first_sub_def on_unsub_def on_sub_def new_topic_def)


text \<open>The same publishers over a slice without spare capacity, taking turns.\<close>

theorem publishers_isolated_witness:
  "let ps = snd (publishers_run text_marshal (\<lambda>_. True) two_subscribers \<lparr>sl_arr = 0, sl_len = 0, sl_cap = 0\<rparr>
       [0, 1, 0, 1, 0, 1, 0, 1] ([[]], map Asked [one_request ''a'' ''secret'', one_request ''b'' ''other'']))
   in \<exists>calls. ps ! 0 = Finished (one_request ''a'' ''secret'') calls"
proof -
  let ?mw = "\<lparr>sl_arr = 0, sl_len = 0, sl_cap = 0\<rparr> :: slice"
  let ?rqs = "[one_request ''a'' ''secret'', one_request ''b'' ''other'']"
  obtain mem ps where r: "publishers_run text_marshal (\<lambda>_. True) two_subscribers ?mw [0, 1, 0, 1, 0, 1, 0, 1]
      ([[]], map Asked ?rqs) = (mem, ps)" by force
  have ok: "slice_ok [[]] ?mw" "slice_elems [[]] ?mw = t_middlewares two_subscribers"
    by (simp_all add: slice_ok_def slice_elems_def two_subscribers_def add_sub_middlewares sample_middlewares)
  have n: "length (rq_sched (?rqs ! 0) (jobs_of (t_subs two_subscribers))) + 2 \<le> count_list [0, 1, 0, 1, 0, 1, 0, 1] (0 :: nat)"
    by code_simp
  from publishers_isolated [OF ok _ r, of 0] n r show ?thesis by (simp add: Let_def)
qed

end
