(* ===== verification/Ws_Server_Conn.thy ===== *)
theory Ws_Server_Conn
  imports Ws_Topic_Filters Ws_Errors
begin

text \<open>
  Connections at work (\<^verbatim>\<open>startWriter\<close>, \<^verbatim>\<open>conn.publish\<close> and the responses of \<^verbatim>\<open>startReader\<close> in
  \<^verbatim>\<open>wsserver/server.go\<close>), and the lock of a topic that publishers hold meanwhile (\<^verbatim>\<open>wsserver/topic.go\<close>).
  A connection has one writer and a channel without a buffer; whoever has something for the connection
  offers it until the writer takes it, the connection is closed, or its own context ends. All of them
  are interleaved steps.
\<close>

section \<open>Connections\<close>

text \<open>
  The writer waits in its select, is inside a write of the socket, has left its loop, or has run its
  deferred closing of the connection. \<open>lk_done\<close>: the context of the connection is cancelled; \<open>lk_taken\<close>
  and \<open>lk_writes\<close> record what the writer received from the channel and how its writes ended.
\<close>

datatype conn_writer = Waiting | Writing string | Leaving | Left

record link =
  lk_done :: bool
  lk_writer :: conn_writer
  lk_taken :: "string list"
  lk_writes :: "(string \<times> go_error option) list"

definition new_link :: link where
  "new_link = \<lparr>lk_done = False, lk_writer = Waiting, lk_taken = [], lk_writes = []\<rparr>"

text \<open>
  A goroutine with data for a connection: \<open>Offering c data expired\<close> is in its select, with its own context
  (of the publisher, or with the timeout of responses) ended or not.
\<close>

datatype sender = Offering nat string bool | Handed nat string | GivenUp nat string

fun ended :: "sender \<Rightarrow> bool" where
  "ended (Offering c d e) = False"
| "ended _ = True"

text \<open>
  The two sides of the channel. A sender in its select may give up when its own context has ended or the
  connection's is cancelled; a writer in its select receives; its write returns, and only an error that
  means a closed connection ends its loop.
\<close>

definition may_give_up :: "bool \<Rightarrow> link \<Rightarrow> bool" where
  [simp]: "may_give_up expired l \<longleftrightarrow> expired \<or> lk_done l"

definition receive :: "string \<Rightarrow> link \<Rightarrow> link option" where
  [simp]: "receive d l = (if lk_writer l = Waiting then Some (l\<lparr>lk_writer := Writing d, lk_taken := lk_taken l @ [d]\<rparr>) else None)"

definition write_returned :: "close_status \<Rightarrow> go_error option \<Rightarrow> link \<Rightarrow> link option" where
  [simp]: "write_returned cs err l =
     (case lk_writer l of
        Writing d \<Rightarrow>
          Some (l\<lparr>lk_writes := lk_writes l @ [(d, err)],
                  lk_writer := (case err of None \<Rightarrow> Waiting | Some e \<Rightarrow> if is_closure cs e [] then Leaving else Waiting)\<rparr>)
      | _ \<Rightarrow> None)"

text \<open>What the calls of \<open>publish\<close> offer, when their data can be encoded.\<close>

fun offers :: "pub_call list \<Rightarrow> (nat \<times> string) list" where
  "offers [] = []"
| "offers (Sent c d # calls) = (c_ptr c, d) # offers calls"
| "offers (_ # calls) = offers calls"

section \<open>A topic and its connections\<close>

text \<open>Operations that hold the lock of the topic alone. Dropping publishes while it holds the lock.\<close>

datatype topic_change =
    AddSub conn params
  | RemoveSub conn params
  | RemoveConn conn
  | DropSubs "conn list" string "middleware option"

fun apply_change :: "'p marshal \<Rightarrow> topic_change \<Rightarrow> topic \<Rightarrow> topic \<times> pub_call list option" where
  "apply_change marshal (AddSub c ps) t = (fst (add_sub t c ps), None)"
| "apply_change marshal (RemoveSub c ps) t = (fst (remove_sub t c ps), None)"
| "apply_change marshal (RemoveConn c) t = (fst (remove_conn t c), None)"
| "apply_change marshal (DropSubs ord reason filt) t =
     (let (t', evs, calls) = drop_many marshal (\<lambda>_. True) (\<lambda>jobs. jobs) ord t reason filt in (t', Some calls))"

text \<open>
  \<open>nt_pubs\<close>: the publications that wait for their goroutines, each a list of indices of senders; they hold the lock
  for reading, or the one of a drop alone (\<open>nt_excl\<close>). \<open>nt_pending\<close>: a call of \<^verbatim>\<open>Lock\<close> that waits for readers to
  end, and keeps new ones out.
\<close>

record net =
  nt_topic :: topic
  nt_links :: "link list"
  nt_senders :: "sender list"
  nt_pubs :: "nat list list"
  nt_excl :: bool
  nt_pending :: "topic_change option"

definition new_net :: "topic \<Rightarrow> net" where
  "new_net t = \<lparr>nt_topic = t, nt_links = [], nt_senders = [], nt_pubs = [], nt_excl = False, nt_pending = None\<rparr>"

definition set_link :: "nat \<Rightarrow> link \<Rightarrow> net \<Rightarrow> net" where
  "set_link c l s = s\<lparr>nt_links := (nt_links s)[c := l]\<rparr>"

definition set_sender :: "nat \<Rightarrow> sender \<Rightarrow> net \<Rightarrow> net" where
  "set_sender i x s = s\<lparr>nt_senders := (nt_senders s)[i := x]\<rparr>"

definition start_publication :: "pub_call list \<Rightarrow> net \<Rightarrow> net" where
  "start_publication calls s =
     (let os = offers calls; n = length (nt_senders s)
      in s\<lparr>nt_senders := nt_senders s @ map (\<lambda>(c, d). Offering c d False) os,
           nt_pubs := nt_pubs s @ [[n..<n + length os]]\<rparr>)"

definition remove_pub :: "nat \<Rightarrow> net \<Rightarrow> net" where
  "remove_pub k s = s\<lparr>nt_pubs := take k (nt_pubs s) @ drop (Suc k) (nt_pubs s), nt_excl := False\<rparr>"

text \<open>
  \<open>Respond\<close>: the reader has a response; \<open>Expire\<close>: the own context of a sender ends; \<open>Take c i\<close>: the writer of \<open>c\<close>
  receives from sender \<open>i\<close>; \<open>WriteResult\<close>: a write of the socket returns; \<open>WriterDone\<close>: the writer sees the
  cancelled context; \<open>WriterCloses\<close>: its deferred \<^verbatim>\<open>closeConn\<close> cancels the context; \<open>CloseLink\<close>: another
  goroutine's does; \<open>PubDone\<close>: the wait for the goroutines of a publication ends and its lock is released.
\<close>

datatype 'p net_act =
    OpenLink
  | Publish 'p "middleware option"
  | Respond nat string
  | Expire nat
  | GiveUp nat
  | Take nat nat
  | WriteResult nat "go_error option"
  | WriterDone nat
  | WriterCloses nat
  | CloseLink nat
  | PubDone nat
  | LockCall topic_change
  | LockGot

fun change_ok :: "net \<Rightarrow> topic_change \<Rightarrow> bool" where
  "change_ok s (AddSub c ps) = (c_ptr c < length (nt_links s))"
| "change_ok s (DropSubs ord reason filt) = range_order (t_subs (nt_topic s)) ord"
| "change_ok s _ = True"

fun net_step :: "'p marshal \<Rightarrow> close_status \<Rightarrow> 'p net_act \<Rightarrow> net \<Rightarrow> net option" where
  "net_step marshal cs OpenLink s = Some (s\<lparr>nt_links := nt_links s @ [new_link]\<rparr>)"
| "net_step marshal cs (Publish payload filt) s =
     (if nt_excl s \<or> nt_pending s \<noteq> None then None
      else Some (start_publication (fst (publish_many marshal (\<lambda>_. True) (\<lambda>jobs. jobs) (nt_topic s) payload filt)) s))"
| "net_step marshal cs (Respond c d) s =
     (if c < length (nt_links s) then Some (s\<lparr>nt_senders := nt_senders s @ [Offering c d False]\<rparr>) else None)"
| "net_step marshal cs (Expire i) s =
     (if i < length (nt_senders s)
      then case nt_senders s ! i of Offering c d e \<Rightarrow> Some (set_sender i (Offering c d True) s) | _ \<Rightarrow> None
      else None)"
| "net_step marshal cs (GiveUp i) s =
     (if i < length (nt_senders s)
      then case nt_senders s ! i of
             Offering c d e \<Rightarrow> if may_give_up e (nt_links s ! c) then Some (set_sender i (GivenUp c d) s) else None
           | _ \<Rightarrow> None
      else None)"
| "net_step marshal cs (Take c i) s =
     (if i < length (nt_senders s) \<and> c < length (nt_links s)
      then case nt_senders s ! i of
             Offering c' d e \<Rightarrow>
               (if c' \<noteq> c then None
                else case receive d (nt_links s ! c) of
                       None \<Rightarrow> None
                     | Some l \<Rightarrow> Some (set_link c l (set_sender i (Handed c d) s)))
           | _ \<Rightarrow> None
      else None)"
| "net_step marshal cs (WriteResult c err) s =
     (if c < length (nt_links s)
      then case write_returned cs err (nt_links s ! c) of None \<Rightarrow> None | Some l \<Rightarrow> Some (set_link c l s)
      else None)"
| "net_step marshal cs (WriterDone c) s =
     (if c < length (nt_links s) \<and> lk_done (nt_links s ! c) \<and> lk_writer (nt_links s ! c) = Waiting
      then Some (set_link c ((nt_links s ! c)\<lparr>lk_writer := Leaving\<rparr>) s) else None)"
| "net_step marshal cs (WriterCloses c) s =
     (if c < length (nt_links s) \<and> lk_writer (nt_links s ! c) = Leaving
      then Some (set_link c ((nt_links s ! c)\<lparr>lk_done := True, lk_writer := Left\<rparr>) s) else None)"
| "net_step marshal cs (CloseLink c) s =
     (if c < length (nt_links s) then Some (set_link c ((nt_links s ! c)\<lparr>lk_done := True\<rparr>) s) else None)"
| "net_step marshal cs (PubDone k) s =
     (if k < length (nt_pubs s) \<and> list_all (\<lambda>i. ended (nt_senders s ! i)) (nt_pubs s ! k)
      then Some (remove_pub k s) else None)"
| "net_step marshal cs (LockCall ch) s =
     (if nt_excl s \<or> nt_pending s \<noteq> None \<or> \<not> change_ok s ch then None else Some (s\<lparr>nt_pending := Some ch\<rparr>))"
| "net_step marshal cs LockGot s =
     (if nt_pubs s \<noteq> [] then None
      else case nt_pending s of
             None \<Rightarrow> None
           | Some ch \<Rightarrow>
               let (t, calls) = apply_change marshal ch (nt_topic s); s' = s\<lparr>nt_topic := t, nt_pending := None\<rparr>
               in Some (case calls of None \<Rightarrow> s' | Some cl \<Rightarrow> start_publication cl (s'\<lparr>nt_excl := True\<rparr>)))"

fun net_run :: "'p marshal \<Rightarrow> close_status \<Rightarrow> 'p net_act list \<Rightarrow> net \<Rightarrow> net option" where
  "net_run marshal cs [] s = Some s"
| "net_run marshal cs (a # as) s = (case net_step marshal cs a s of None \<Rightarrow> None | Some s' \<Rightarrow> net_run marshal cs as s')"

fun_cases net_stepE: "net_step marshal cs a s = Some s'"

lemma net_run_invariant:
  "net_run marshal cs as s = Some s' \<Longrightarrow> P s \<Longrightarrow>
   (\<And>a u u'. net_step marshal cs a u = Some u' \<Longrightarrow> a \<in> set as \<Longrightarrow> P u \<Longrightarrow> P u') \<Longrightarrow> P s'"
proof (induction as arbitrary: s)
  case (Cons a as)
  then obtain u where u: "net_step marshal cs a s = Some u" "net_run marshal cs as u = Some s'" by (auto split: option.splits)
  show ?case
    by (rule Cons.IH [OF u(2)]) (use Cons.prems(2) u(1) in \<open>auto intro: Cons.prems(3)\<close>)
qed simp

section \<open>Well-formed states\<close>

definition within :: "nat \<Rightarrow> topic \<Rightarrow> bool" where
  "within n t \<longleftrightarrow> (\<forall>c \<in> set (gm_keys (t_subs t)). c_ptr c < n)"

fun sender_within :: "nat \<Rightarrow> sender \<Rightarrow> bool" where
  "sender_within n (Offering c d e) = (c < n)"
| "sender_within n (Handed c d) = (c < n)"
| "sender_within n (GivenUp c d) = (c < n)"

fun change_within :: "nat \<Rightarrow> topic_change \<Rightarrow> bool" where
  "change_within n (AddSub c ps) = (c_ptr c < n)"
| "change_within n _ = True"

definition link_ok :: "link \<Rightarrow> bool" where
  "link_ok l \<longleftrightarrow> (lk_writer l = Left \<longrightarrow> lk_done l)"

definition net_ok :: "net \<Rightarrow> bool" where
  "net_ok s \<longleftrightarrow> within (length (nt_links s)) (nt_topic s) \<and>
     list_all (sender_within (length (nt_links s))) (nt_senders s) \<and>
     list_all (list_all (\<lambda>i. i < length (nt_senders s))) (nt_pubs s) \<and>
     list_all link_ok (nt_links s) \<and>
     pred_option (change_within (length (nt_links s))) (nt_pending s)"

lemma offers_deliver:
  "(c, d) \<in> set (offers (map (deliver marshal (\<lambda>_. True) ptrn data) jobs)) \<Longrightarrow> \<exists>job \<in> set jobs. c = c_ptr (fst job)"
  by (induction jobs) (auto simp: deliver_def conn_publish_def split: sum.splits)

lemma jobs_of_keys: "job \<in> set (jobs_of subs) \<Longrightarrow> fst job \<in> set (gm_keys subs)"
  by (force simp: jobs_of_def gm_keys_def)

lemma offers_publish:
  assumes "(c, d) \<in> set (offers (fst (publish marshal (\<lambda>_. True) (\<lambda>jobs. jobs) ptrn subs data mws)))"
  shows "\<exists>k \<in> set (gm_keys subs). c = c_ptr k"
proof -
  obtain calls encs where p: "publish_jobs marshal (\<lambda>_. True) ptrn data mws [] (jobs_of subs) = (calls, encs)"
    by (cases "publish_jobs marshal (\<lambda>_. True) ptrn data mws [] (jobs_of subs)")
  have "presets_ok marshal data []" by (simp add: presets_ok_def)
  from publish_jobs_correct [OF this p] have "calls = map (deliver marshal (\<lambda>_. True) ptrn data) (filter (admitted ptrn mws) (jobs_of subs))"
    by simp
  then have "(c, d) \<in> set (offers (map (deliver marshal (\<lambda>_. True) ptrn data) (filter (admitted ptrn mws) (jobs_of subs))))"
    using assms p by (simp add: publish_def)
  from offers_deliver [OF this] show ?thesis using jobs_of_keys by auto
qed

lemma gm_keys_changes:
  "set (gm_keys (gm_set m k v)) = insert k (set (gm_keys m))"
  "set (gm_keys (gm_del m k)) = set (gm_keys m) - {k}"
  by (auto simp: gm_keys_iff split: if_splits)

lemma drop_conns_keys:
  "drop_conns t filt subs dropped ord = (subs', dropped', calls) \<Longrightarrow>
   set (gm_keys subs') \<subseteq> set (gm_keys subs) \<union> set (gm_keys (t_subs t)) \<and>
   set (gm_keys dropped') \<subseteq> set (gm_keys dropped) \<union> set (gm_keys (t_subs t))"
proof (induction ord arbitrary: subs dropped subs' dropped' calls)
  case (Cons sub ord)
  let ?pp = "case gm_get (t_subs t) sub of None \<Rightarrow> [] | Some pp \<Rightarrow> pp"
  obtain dr re ev where p: "drop_params t filt sub ?pp = (dr, re, ev)" by (metis prod_cases3)
  let ?dropped = "if 0 < length dr then gm_set dropped sub dr else dropped"
  let ?subs = "if length re = 0 then gm_del subs sub else gm_set subs sub re"
  obtain s2 d2 ev2 where r: "drop_conns t filt ?subs ?dropped ord = (s2, d2, ev2)" by (metis prod_cases3)
  have e: "s2 = subs'" "d2 = dropped'" using Cons.prems p r by (auto simp: Let_def drop_conns.simps simp del: length_greater_0_conv length_0_conv)
  have k: "sub \<in> set (gm_keys (t_subs t)) \<or> dr = [] \<and> re = []"
    using p by (cases "gm_get (t_subs t) sub") (auto simp: gm_keys_iff)
  have "set (gm_keys ?subs) \<subseteq> set (gm_keys subs) \<union> set (gm_keys (t_subs t))"
    "set (gm_keys ?dropped) \<subseteq> set (gm_keys dropped) \<union> set (gm_keys (t_subs t))"
    using k by (auto simp: gm_keys_changes)
  then show ?case using Cons.IH [OF r] unfolding e by blast
qed simp

lemma apply_change_within:
  assumes "apply_change marshal ch t = (t', calls)" and "within n t" and "change_within n ch"
  shows "within n t' \<and> (\<forall>cl c d. calls = Some cl \<longrightarrow> (c, d) \<in> set (offers cl) \<longrightarrow> c < n)"
proof (cases ch)
  case (AddSub c ps)
  then show ?thesis using assms by (auto simp: within_def add_sub_def Let_def gm_keys_changes split: if_splits)
next
  case (RemoveSub c ps)
  then show ?thesis using assms
    by (auto simp: within_def remove_sub_def Let_def gm_keys_changes gm_keys_iff split: option.splits if_splits)
next
  case (RemoveConn c)
  then show ?thesis using assms
    by (auto simp: within_def remove_conn_def Let_def gm_keys_changes split: option.splits)
next
  case (DropSubs ord reason filt)
  obtain subs' dropped ev where d: "drop_conns t filt (t_subs t) [] ord = (subs', dropped, ev)" by (metis prod_cases3)
  have k: "set (gm_keys subs') \<subseteq> set (gm_keys (t_subs t))" "set (gm_keys dropped) \<subseteq> set (gm_keys (t_subs t))"
    using drop_conns_keys [OF d] by (auto simp: gm_keys_def)
  have "\<exists>key \<in> set (gm_keys dropped). c = c_ptr key" if "calls = Some cl" "(c, e) \<in> set (offers cl)" for cl c e
    using assms(1) DropSubs that d offers_publish by (fastforce simp: drop_many_def Let_def)
  moreover have "t_subs t' = subs'" using assms(1) DropSubs d by (auto simp: drop_many_def Let_def)
  ultimately show ?thesis using k assms(2) unfolding within_def by blast
qed

lemma set_fields [simp]:
  "nt_topic (set_link c l s) = nt_topic s" "nt_senders (set_link c l s) = nt_senders s"
  "nt_pubs (set_link c l s) = nt_pubs s" "nt_pending (set_link c l s) = nt_pending s" "nt_excl (set_link c l s) = nt_excl s"
  "nt_links (set_link c l s) = (nt_links s)[c := l]"
  "nt_topic (set_sender i x s) = nt_topic s" "nt_links (set_sender i x s) = nt_links s"
  "nt_pubs (set_sender i x s) = nt_pubs s" "nt_pending (set_sender i x s) = nt_pending s" "nt_excl (set_sender i x s) = nt_excl s"
  "nt_senders (set_sender i x s) = (nt_senders s)[i := x]"
  "nt_topic (remove_pub k s) = nt_topic s" "nt_links (remove_pub k s) = nt_links s"
  "nt_senders (remove_pub k s) = nt_senders s" "nt_pending (remove_pub k s) = nt_pending s"
  by (simp_all add: set_link_def set_sender_def remove_pub_def)

lemma start_fields [simp]:
  "nt_topic (start_publication calls s) = nt_topic s" "nt_links (start_publication calls s) = nt_links s"
  "nt_pending (start_publication calls s) = nt_pending s"
  "nt_senders (start_publication calls s) = nt_senders s @ map (\<lambda>(c, d). Offering c d False) (offers calls)"
  "nt_pubs (start_publication calls s) = nt_pubs s @ [[length (nt_senders s)..<length (nt_senders s) + length (offers calls)]]"
  by (simp_all add: start_publication_def Let_def)

lemma list_all_update: "list_all P xs \<Longrightarrow> P x \<Longrightarrow> list_all P (xs[i := x])"
  by (metis list_all_iff insertE set_update_subset_insert subsetD)

lemma list_all_nthD: "list_all P xs \<Longrightarrow> i < length xs \<Longrightarrow> P (xs ! i)"
  by (simp add: list_all_length)

lemma within_mono: "within n t \<Longrightarrow> n \<le> m \<Longrightarrow> within m t"
  by (auto simp: within_def)

lemma sender_within_mono: "list_all (sender_within n) ss \<Longrightarrow> n \<le> m \<Longrightarrow> list_all (sender_within m) ss"
proof (induction ss)
  case (Cons x ss)
  then show ?case by (cases x) auto
qed simp

lemma net_ok_senders:
  "net_ok s \<Longrightarrow> sender_within (length (nt_links s)) x \<Longrightarrow> net_ok (set_sender i x s)"
  by (auto simp: net_ok_def list_all_update)

lemma net_ok_links: "net_ok s \<Longrightarrow> link_ok l \<Longrightarrow> net_ok (set_link c l s)"
  by (auto simp: net_ok_def list_all_update)

lemma net_ok_pub: "net_ok s \<Longrightarrow> net_ok (remove_pub k s)"
  by (auto simp: net_ok_def remove_pub_def list_all_iff dest!: in_set_takeD in_set_dropD)

lemma net_ok_start:
  assumes "net_ok s" and "\<forall>c d. (c, d) \<in> set (offers calls) \<longrightarrow> c < length (nt_links s)"
  shows "net_ok (start_publication calls s)"
proof -
  have "list_all (list_all (\<lambda>i. i < length (nt_senders s) + k)) (nt_pubs s)" for k
    using assms(1) by (fastforce simp: net_ok_def list_all_iff)
  then show ?thesis using assms by (auto simp: net_ok_def list_all_iff)
qed

lemma net_ok_sender: "net_ok s \<Longrightarrow> i < length (nt_senders s) \<Longrightarrow> sender_within (length (nt_links s)) (nt_senders s ! i)"
  by (simp add: net_ok_def list_all_nthD)

lemma net_ok_link: "net_ok s \<Longrightarrow> c < length (nt_links s) \<Longrightarrow> link_ok (nt_links s ! c)"
  by (simp add: net_ok_def list_all_nthD)

lemma net_step_ok:
  assumes "net_step marshal cs a s = Some s'" and "net_ok s"
  shows "net_ok s'"
proof (cases a)
  case OpenLink
  have "pred_option (change_within (Suc (length (nt_links s)))) (nt_pending s)"
  proof (cases "nt_pending s")
    case (Some ch)
    then show ?thesis using assms(2) by (cases ch) (auto simp: net_ok_def)
  qed simp
  then show ?thesis using assms OpenLink
    by (auto simp: net_ok_def link_ok_def new_link_def intro: within_mono sender_within_mono)
next
  case (Publish payload filt)
  have "within (length (nt_links s)) (nt_topic s)" using assms(2) by (simp add: net_ok_def)
  then have "\<forall>c d. (c, d) \<in> set (offers (fst (publish_many marshal (\<lambda>_. True) (\<lambda>jobs. jobs) (nt_topic s) payload filt))) \<longrightarrow>
      c < length (nt_links s)"
    using offers_publish by (fastforce simp: publish_many_def Let_def within_def)
  then show ?thesis using assms Publish net_ok_start by (auto split: if_splits)
next
  case (Respond c d)
  have "list_all (list_all (\<lambda>i. i < Suc (length (nt_senders s)))) (nt_pubs s)"
    using assms(2) by (fastforce simp: net_ok_def list_all_iff)
  then show ?thesis using assms Respond by (auto simp: net_ok_def split: if_splits)
next
  case (Expire i)
  then show ?thesis using assms net_ok_sender [OF assms(2), of i]
    by (auto split: if_splits sender.splits intro!: net_ok_senders)
next
  case (GiveUp i)
  then show ?thesis using assms net_ok_sender [OF assms(2), of i]
    by (auto split: if_splits sender.splits intro!: net_ok_senders)
next
  case (Take c i)
  then show ?thesis using assms net_ok_sender [OF assms(2), of i]
    by (auto simp: Let_def link_ok_def split: if_splits sender.splits intro!: net_ok_senders net_ok_links)
next
  case (LockCall ch)
  then show ?thesis using assms by (cases ch) (auto simp: net_ok_def split: if_splits)
next
  case LockGot
  then obtain ch t calls where ch: "nt_pending s = Some ch" "apply_change marshal ch (nt_topic s) = (t, calls)"
    using assms(1) by (cases "nt_pending s") (auto split: if_splits prod.splits)
  have w: "within (length (nt_links s)) t"
    "calls = Some cl \<Longrightarrow> (c, d) \<in> set (offers cl) \<Longrightarrow> c < length (nt_links s)" for cl c d
    using apply_change_within [OF ch(2)] assms(2) ch(1) by (auto simp: net_ok_def)
  have "net_ok (s\<lparr>nt_topic := t, nt_pending := None\<rparr>)" "net_ok (s\<lparr>nt_topic := t, nt_pending := None, nt_excl := True\<rparr>)"
    using assms(2) w(1) by (auto simp: net_ok_def)
  then show ?thesis using assms(1) LockGot ch w(2)
    by (auto simp: Let_def split: if_splits option.splits intro!: net_ok_start)
qed (use assms in \<open>auto simp: link_ok_def Let_def net_ok_pub split: if_splits conn_writer.splits option.splits
    intro!: net_ok_links\<close>)

lemma net_ok_new: "t_subs t = [] \<Longrightarrow> net_ok (new_net t)"
  by (simp add: net_ok_def new_net_def within_def gm_keys_def)

lemma net_run_ok:
  assumes "net_run marshal cs as (new_net t) = Some s" and "t_subs t = []"
  shows "net_ok s"
  by (rule net_run_invariant [OF assms(1), of net_ok]) (use net_ok_new [OF assms(2)] net_step_ok in blast)+

section \<open>Nobody waits for good\<close>

text \<open>
  The steps that the program makes on its own, when nothing new comes: every publisher and writer goes
  on, and writes of the socket return. A step that is not of this kind starts something, closes a
  connection, or ends a context.
\<close>

fun internal :: "'p net_act \<Rightarrow> bool" where
  "internal (GiveUp i) = True"
| "internal (Take c i) = True"
| "internal (WriteResult c err) = True"
| "internal (WriterCloses c) = True"
| "internal (PubDone k) = True"
| "internal LockGot = True"
| "internal _ = False"

fun sender_work :: "sender \<Rightarrow> nat" where
  "sender_work (Offering c d e) = 3"
| "sender_work _ = 0"

fun writer_work :: "conn_writer \<Rightarrow> nat" where
  "writer_work (Writing d) = 2"
| "writer_work Leaving = 1"
| "writer_work _ = 0"

definition pending_work :: "'p marshal \<Rightarrow> net \<Rightarrow> nat" where
  "pending_work marshal s =
     (case nt_pending s of
        None \<Rightarrow> 0
      | Some ch \<Rightarrow>
          (case snd (apply_change marshal ch (nt_topic s)) of None \<Rightarrow> 1 | Some calls \<Rightarrow> 2 + 3 * length (offers calls)))"

definition work :: "'p marshal \<Rightarrow> net \<Rightarrow> nat" where
  "work marshal s =
     sum_list (map sender_work (nt_senders s)) + sum_list (map (\<lambda>l. writer_work (lk_writer l)) (nt_links s)) +
     length (nt_pubs s) + pending_work marshal s"

lemma sum_list_map_update:
  "i < length xs \<Longrightarrow> sum_list (map f (xs[i := x])) + f (xs ! i) = sum_list (map f xs) + (f x :: nat)"
proof (induction xs arbitrary: i)
  case (Cons a xs)
  then show ?case by (cases i) (fastforce simp: ac_simps)+
qed simp

lemma offered_work: "sum_list (map (sender_work \<circ> (\<lambda>(c, d). Offering c d False)) os) = 3 * length os"
  by (induction os) auto

lemma pending_work_cong:
  "nt_pending s' = nt_pending s \<Longrightarrow> nt_topic s' = nt_topic s \<Longrightarrow> pending_work marshal s' = pending_work marshal s"
  by (cases "nt_pending s") (simp_all add: pending_work_def)

lemma work_sender:
  "i < length (nt_senders s) \<Longrightarrow>
   work marshal (set_sender i x s) + sender_work (nt_senders s ! i) = work marshal s + sender_work x"
  using sum_list_map_update [of i "nt_senders s" sender_work x] pending_work_cong [of "set_sender i x s" s marshal]
  by (simp add: work_def)

lemma work_link:
  "c < length (nt_links s) \<Longrightarrow>
   work marshal (set_link c l s) + writer_work (lk_writer (nt_links s ! c)) = work marshal s + writer_work (lk_writer l)"
  using sum_list_map_update [of c "nt_links s" "\<lambda>l. writer_work (lk_writer l)" l]
    pending_work_cong [of "set_link c l s" s marshal]
  by (simp add: work_def)

lemma internal_step_work:
  assumes "net_step marshal cs a s = Some s'" and "internal a"
  shows "Suc (work marshal s') \<le> work marshal s"
proof (cases a)
  case (GiveUp i)
  then obtain c d e where x: "i < length (nt_senders s)" "nt_senders s ! i = Offering c d e" "s' = set_sender i (GivenUp c d) s"
    using assms(1) by (auto split: if_splits sender.splits)
  then show ?thesis using work_sender [OF x(1), of marshal "GivenUp c d"] by simp
next
  case (Take c i)
  then obtain d e where x: "i < length (nt_senders s)" "c < length (nt_links s)" "nt_senders s ! i = Offering c d e"
    "lk_writer (nt_links s ! c) = Waiting"
    "s' = set_link c ((nt_links s ! c)\<lparr>lk_writer := Writing d, lk_taken := lk_taken (nt_links s ! c) @ [d]\<rparr>) (set_sender i (Handed c d) s)"
    using assms(1) by (auto simp: Let_def split: if_splits sender.splits)
  then show ?thesis
    using work_sender [OF x(1), of marshal "Handed c d"]
      work_link [of c "set_sender i (Handed c d) s" marshal "(nt_links s ! c)\<lparr>lk_writer := Writing d, lk_taken := lk_taken (nt_links s ! c) @ [d]\<rparr>"]
    by simp
next
  case (WriteResult c err)
  let ?w = "case err of None \<Rightarrow> Waiting | Some e \<Rightarrow> if is_closure cs e [] then Leaving else Waiting"
  let ?l = "\<lambda>d. (nt_links s ! c)\<lparr>lk_writes := lk_writes (nt_links s ! c) @ [(d, err)], lk_writer := ?w\<rparr>"
  obtain d where x: "c < length (nt_links s)" "lk_writer (nt_links s ! c) = Writing d" "s' = set_link c (?l d) s"
    using assms(1) WriteResult by (auto simp: Let_def split: if_splits conn_writer.splits)
  have "writer_work ?w \<le> 1" by (simp split: option.split)
  then show ?thesis using work_link [OF x(1), of marshal "?l d"] x(2,3) by simp
next
  case (WriterCloses c)
  then show ?thesis
    using assms(1) work_link [of c s marshal "(nt_links s ! c)\<lparr>lk_done := True, lk_writer := Left\<rparr>"]
    by (auto split: if_splits)
next
  case (PubDone k)
  then have "s' = remove_pub k s" "k < length (nt_pubs s)" using assms(1) by (auto split: if_splits)
  moreover from this have "Suc (length (nt_pubs s')) = length (nt_pubs s)" by (simp add: remove_pub_def)
  ultimately show ?thesis using pending_work_cong [of s' s marshal] by (simp add: work_def)
next
  case LockGot
  then show ?thesis using assms(1)
    by (auto simp: work_def pending_work_def offered_work split: if_splits option.splits prod.splits)
qed (use assms in auto)

lemma internal_run_work:
  "net_run marshal cs bs s = Some s' \<Longrightarrow> list_all internal bs \<Longrightarrow> length bs + work marshal s' \<le> work marshal s"
proof (induction bs arbitrary: s)
  case (Cons b bs)
  then obtain u where u: "net_step marshal cs b s = Some u" "net_run marshal cs bs u = Some s'" by (auto split: option.splits)
  show ?case using internal_step_work [OF u(1)] Cons.IH [OF u(2)] Cons.prems(2) by simp
qed simp

lemma all_ended:
  assumes "net_ok s" and stuck: "\<And>b. internal b \<Longrightarrow> net_step marshal cs b s = None"
  shows "list_all ended (nt_senders s)"
  unfolding list_all_length
proof (intro allI impI)
  fix i assume i: "i < length (nt_senders s)"
  show "ended (nt_senders s ! i)"
  proof (cases "nt_senders s ! i")
    case (Offering c d e)
    then have c: "c < length (nt_links s)" using net_ok_sender [OF assms(1) i] by simp
    show ?thesis
    proof (cases "lk_writer (nt_links s ! c)")
      case Waiting
      then show ?thesis using stuck [of "Take c i"] Offering i c by (simp add: Let_def)
    next
      case (Writing x)
      then show ?thesis using stuck [of "WriteResult c None"] c by (simp add: Let_def)
    next
      case Leaving
      then show ?thesis using stuck [of "WriterCloses c"] c by simp
    next
      case Left
      then have "lk_done (nt_links s ! c)" using net_ok_link [OF assms(1) c] by (simp add: link_ok_def)
      then show ?thesis using stuck [of "GiveUp i"] Offering i by simp
    qed
  qed simp_all
qed

lemma no_publications:
  assumes "net_ok s" and "list_all ended (nt_senders s)" and "\<And>b. internal b \<Longrightarrow> net_step marshal cs b s = None"
  shows "nt_pubs s = []"
proof (rule ccontr)
  assume ne: "nt_pubs s \<noteq> []"
  then have "list_all (\<lambda>i. ended (nt_senders s ! i)) (nt_pubs s ! 0)"
    using assms(1,2) by (cases "nt_pubs s") (auto simp: net_ok_def list_all_length)
  then show False using assms(3) [of "PubDone 0"] ne by simp
qed

lemma no_pending:
  assumes "nt_pubs s = []" and "\<And>b. internal b \<Longrightarrow> net_step marshal cs b s = None"
  shows "nt_pending s = None"
proof (cases "nt_pending s")
  case (Some ch)
  then show ?thesis using assms(2) [of LockGot] assms(1) by (simp add: Let_def split: prod.splits)
qed simp

text \<open>
  C17. Publishing ends, and nobody waits for good. From every state that connections, publishers,
  responses, subscribers and closings can bring about, in every interleaving, the steps that remain when
  nothing new comes are bounded, whatever their order and whatever the writes return; and when none of
  them is left, every goroutine with data has handed it to a writer or has given up, every publication
  has released the lock of the topic, and every operation that waited for the lock has run. A writer that
  ends wakes its senders, because it cancels the context of its connection.
\<close>

theorem publishing_terminates:
  assumes "net_run marshal cs as (new_net t) = Some s" and "t_subs t = []"
    and "net_run marshal cs bs s = Some s'" and "list_all internal bs"
  shows "length bs \<le> work marshal s \<and>
    ((\<forall>b. internal b \<longrightarrow> net_step marshal cs b s' = None) \<longrightarrow>
       list_all ended (nt_senders s') \<and> nt_pubs s' = [] \<and> nt_pending s' = None)"
proof -
  have ok: "net_ok s'"
    by (rule net_run_invariant [OF assms(3), of net_ok]) (use net_run_ok [OF assms(1,2)] net_step_ok in blast)+
  have "list_all ended (nt_senders s') \<and> nt_pubs s' = [] \<and> nt_pending s' = None"
    if "\<forall>b. internal b \<longrightarrow> net_step marshal cs b s' = None"
    using all_ended [OF ok] no_publications [OF ok] no_pending that by blast
  then show ?thesis using internal_run_work [OF assms(3,4)] by auto
qed

section \<open>What is written\<close>

fun handed_to :: "nat \<Rightarrow> sender list \<Rightarrow> string list" where
  "handed_to c [] = []"
| "handed_to c (Handed c' d # ss) = (if c' = c then d # handed_to c ss else handed_to c ss)"
| "handed_to c (_ # ss) = handed_to c ss"

fun in_hand :: "conn_writer \<Rightarrow> string list" where
  "in_hand (Writing d) = [d]"
| "in_hand _ = []"

lemma handed_to_append: "handed_to c (xs @ ys) = handed_to c xs @ handed_to c ys"
  by (induction c xs rule: handed_to.induct) auto

lemma handed_to_offered [simp]: "handed_to c (map (\<lambda>(c, d). Offering c d False) os) = []"
  by (induction os) auto

lemma handed_to_update:
  "i < length ss \<Longrightarrow> ss ! i = Offering c' d e \<Longrightarrow>
   mset (handed_to c (ss[i := x])) = mset (handed_to c [x]) + mset (handed_to c ss)"
proof (induction ss arbitrary: i)
  case (Cons y ss)
  have cons: "mset (handed_to c (z # zs)) = mset (handed_to c [z]) + mset (handed_to c zs)" for z zs
    by (cases z) auto
  show ?case
  proof (cases i)
    case 0
    then show ?thesis using Cons.prems cons [of x ss] by simp
  next
    case (Suc j)
    then show ?thesis using Cons cons [of y ss] cons [of y "ss[j := x]"] by (simp add: ac_simps)
  qed
qed simp

lemma handed_to_none: "list_all (sender_within n) ss \<Longrightarrow> handed_to n ss = []"
  by (induction n ss rule: handed_to.induct) auto

definition link_log :: "net \<Rightarrow> nat \<Rightarrow> bool" where
  "link_log s c \<longleftrightarrow>
     (let l = nt_links s ! c
      in map fst (lk_writes l) @ in_hand (lk_writer l) = lk_taken l \<and>
         mset (lk_taken l) = mset (handed_to c (nt_senders s)))"

definition grows :: "net \<Rightarrow> net \<Rightarrow> bool" where
  "grows s s' \<longleftrightarrow> length (nt_links s) \<le> length (nt_links s') \<and>
     (\<forall>c < length (nt_links s). \<exists>zs. lk_taken (nt_links s' ! c) = lk_taken (nt_links s ! c) @ zs)"

lemma grows_refl: "grows s s"
  by (simp add: grows_def)

lemma grows_trans: "grows s u \<Longrightarrow> grows u s' \<Longrightarrow> grows s s'"
  unfolding grows_def by (metis append.assoc order_less_le_trans order_trans)

lemma grows_same: "map lk_taken (nt_links s') = map lk_taken (nt_links s) \<Longrightarrow> grows s s'"
  unfolding grows_def by (metis append_Nil2 length_map nth_map order_refl)

lemma grows_link: "lk_taken l = lk_taken (nt_links s ! c) @ zs \<Longrightarrow> grows s (set_link c l s)"
  by (cases "c < length (nt_links s)") (auto simp: grows_def nth_list_update)


lemma link_log_link:
  "link_log s c \<Longrightarrow> lk_taken l = lk_taken (nt_links s ! c') \<Longrightarrow>
   map fst (lk_writes l) @ in_hand (lk_writer l) = map fst (lk_writes (nt_links s ! c')) @ in_hand (lk_writer (nt_links s ! c')) \<Longrightarrow>
   link_log (set_link c' l s) c"
  by (cases "c' = c"; cases "c < length (nt_links s)") (auto simp: link_log_def Let_def list_update_beyond)

lemma link_log_sender:
  "link_log s c \<Longrightarrow> i < length (nt_senders s) \<Longrightarrow> nt_senders s ! i = Offering c' d e \<Longrightarrow> handed_to c [x] = [] \<Longrightarrow>
   link_log (set_sender i x s) c"
  using handed_to_update [of i "nt_senders s" c' d e c x] by (simp add: link_log_def Let_def)

lemma link_log_take:
  assumes "link_log s c" and "i < length (nt_senders s)" and "c' < length (nt_links s)" and "nt_senders s ! i = Offering c' d e"
    and "lk_writer (nt_links s ! c') = Waiting"
  shows "link_log (set_link c' ((nt_links s ! c')\<lparr>lk_writer := Writing d, lk_taken := lk_taken (nt_links s ! c') @ [d]\<rparr>)
      (set_sender i (Handed c' d) s)) c"
  using assms handed_to_update [of i "nt_senders s" c' d e c "Handed c' d"]
  by (cases "c' = c") (auto simp: link_log_def Let_def)

lemma link_log_cong:
  "link_log s c \<Longrightarrow> nt_links s' = nt_links s \<Longrightarrow> nt_senders s' = nt_senders s @ map (\<lambda>(c, d). Offering c d False) os \<Longrightarrow>
   link_log s' c"
  by (simp add: link_log_def Let_def handed_to_append)

lemma link_log_start: "link_log s c \<Longrightarrow> link_log (start_publication calls s) c"
  by (rule link_log_cong) simp_all

lemma link_log_respond: "link_log s c \<Longrightarrow> link_log (s\<lparr>nt_senders := nt_senders s @ [Offering c' d False]\<rparr>) c"
  by (rule link_log_cong [where os = "[(c', d)]"]) simp_all

lemma link_log_fields [simp]:
  "link_log (s\<lparr>nt_topic := t\<rparr>) c = link_log s c" "link_log (s\<lparr>nt_pending := p\<rparr>) c = link_log s c"
  "link_log (s\<lparr>nt_excl := x\<rparr>) c = link_log s c" "link_log (remove_pub k s) c = link_log s c"
  by (simp_all add: link_log_def Let_def)

definition logs_ok :: "net \<Rightarrow> bool" where
  "logs_ok s \<longleftrightarrow> (\<forall>c < length (nt_links s). link_log s c)"

lemma net_step_log:
  assumes "net_step marshal cs a s = Some s'" and "net_ok s" and "logs_ok s"
  shows "logs_ok s' \<and> grows s s'"
proof (cases a)
  case OpenLink
  then have s': "s' = s\<lparr>nt_links := nt_links s @ [new_link]\<rparr>" using assms(1) by simp
  have "handed_to (length (nt_links s)) (nt_senders s) = []" using assms(2) by (simp add: net_ok_def handed_to_none)
  then have "link_log s' c" if "c < Suc (length (nt_links s))" for c
    using assms(3) that by (cases "c = length (nt_links s)") (auto simp: s' logs_ok_def link_log_def Let_def nth_append new_link_def)
  then show ?thesis by (auto simp: s' logs_ok_def grows_def nth_append)
next
  case (Publish payload filt)
  then show ?thesis using assms(1,3)
    by (auto simp: logs_ok_def split: if_splits intro: link_log_start grows_same)
next
  case (Respond c d)
  then show ?thesis using assms(1,3)
    by (auto simp: logs_ok_def split: if_splits intro: link_log_respond grows_same)
next
  case (Expire i)
  then show ?thesis using assms(1,3)
    by (auto simp: logs_ok_def split: if_splits sender.splits intro: link_log_sender grows_same)
next
  case (GiveUp i)
  then show ?thesis using assms(1,3)
    by (auto simp: logs_ok_def split: if_splits sender.splits intro: link_log_sender grows_same)
next
  case (Take c i)
  then obtain d e where x: "i < length (nt_senders s)" "c < length (nt_links s)" "nt_senders s ! i = Offering c d e"
    "lk_writer (nt_links s ! c) = Waiting"
    "s' = set_link c ((nt_links s ! c)\<lparr>lk_writer := Writing d, lk_taken := lk_taken (nt_links s ! c) @ [d]\<rparr>) (set_sender i (Handed c d) s)"
    using assms(1) by (auto simp: Let_def split: if_splits sender.splits)
  have "logs_ok s'" using link_log_take [OF _ x(1,2,3,4)] assms(3) by (simp add: logs_ok_def x(5))
  have "grows s (set_sender i (Handed c d) s)" "grows (set_sender i (Handed c d) s) s'"
    by (auto simp: x(5) intro: grows_same grows_link [where zs = "[d]"])
  then have "grows s s'" by (rule grows_trans)
  with \<open>logs_ok s'\<close> show ?thesis by simp
next
  case (WriteResult c err)
  then show ?thesis using assms(1,3)
    by (auto simp: logs_ok_def Let_def split: if_splits conn_writer.splits option.splits
        intro!: link_log_link grows_link [where zs = "[]"])
next
  case (LockGot)
  then show ?thesis using assms(1,3)
    by (auto simp: logs_ok_def Let_def split: if_splits option.splits prod.splits
        intro!: link_log_start grows_same)
qed (use assms(1,3) in \<open>auto simp: logs_ok_def Let_def split: if_splits
    intro!: link_log_link grows_link [where zs = "[]"] intro: grows_same\<close>)


lemma net_run_log:
  "net_run marshal cs as s = Some s' \<Longrightarrow> net_ok s \<Longrightarrow> logs_ok s \<Longrightarrow> logs_ok s' \<and> grows s s'"
proof (induction as arbitrary: s)
  case (Cons a as)
  then obtain u where u: "net_step marshal cs a s = Some u" "net_run marshal cs as u = Some s'" by (auto split: option.splits)
  note st = net_step_log [OF u(1) Cons.prems(2,3)]
  have "logs_ok s' \<and> grows u s'" using Cons.IH [OF u(2) net_step_ok [OF u(1) Cons.prems(2)]] st by blast
  then show ?case using st grows_trans by blast
qed (simp add: grows_refl)

text \<open>
  C18. What a connection receives. In every interleaving: what the writer of a connection took from its
  channel is what the senders handed to it, each exactly once; it writes these in the order in which it
  took them, each exactly once, and has at most one in its hand; and later steps only append to them. So
  nothing is lost, doubled or reordered between a sender that was not given up and the socket, and what
  is published after a publication has ended comes after it.
\<close>

theorem written_in_order:
  assumes "net_run marshal cs as (new_net t) = Some s" and "t_subs t = []"
    and "net_run marshal cs bs s = Some s'" and "c < length (nt_links s)"
  shows "map fst (lk_writes (nt_links s' ! c)) @ in_hand (lk_writer (nt_links s' ! c)) = lk_taken (nt_links s' ! c) \<and>
    mset (lk_taken (nt_links s' ! c)) = mset (handed_to c (nt_senders s')) \<and>
    (\<exists>zs. lk_taken (nt_links s' ! c) = lk_taken (nt_links s ! c) @ zs)"
proof -
  have "logs_ok (new_net t)" by (simp add: logs_ok_def new_net_def)
  then have "logs_ok s" using net_run_log [OF assms(1) net_ok_new [OF assms(2)]] by blast
  from net_run_log [OF assms(3) net_run_ok [OF assms(1,2)] this]
  have "link_log s' c" "grows s s'" using assms(4) by (auto simp: logs_ok_def grows_def)
  then show ?thesis using assms(4) by (auto simp: link_log_def Let_def grows_def)
qed

section \<open>A client that does not read\<close>

text \<open>The steps that would end a write of connection \<open>c\<close>, or the wait of sender \<open>i\<close> for it.\<close>

fun releases :: "nat \<Rightarrow> nat \<Rightarrow> 'p net_act \<Rightarrow> bool" where
  "releases c i (WriteResult c' err) = (c' = c)"
| "releases c i (CloseLink c') = (c' = c)"
| "releases c i (Expire j) = (j = i)"
| "releases c i _ = False"

fun is_publish :: "'p net_act \<Rightarrow> bool" where
  "is_publish (Publish payload filt) = True"
| "is_publish _ = False"

definition held_up :: "nat \<Rightarrow> nat \<Rightarrow> string \<Rightarrow> string \<Rightarrow> net \<Rightarrow> bool" where
  "held_up c i x d s \<longleftrightarrow> c < length (nt_links s) \<and> lk_writer (nt_links s ! c) = Writing x \<and> \<not> lk_done (nt_links s ! c) \<and>
     i < length (nt_senders s) \<and> nt_senders s ! i = Offering c d False \<and> (\<exists>ks \<in> set (nt_pubs s). i \<in> set ks)"

lemma held_up_link: "held_up c i x d s \<Longrightarrow> c' \<noteq> c \<Longrightarrow> held_up c i x d (set_link c' l s)"
  by (simp add: held_up_def)

lemma held_up_sender: "held_up c i x d s \<Longrightarrow> j \<noteq> i \<Longrightarrow> held_up c i x d (set_sender j y s)"
  by (simp add: held_up_def)

lemma held_up_start: "held_up c i x d s \<Longrightarrow> held_up c i x d (start_publication calls s)"
  by (auto simp: held_up_def nth_append)

lemma held_up_remove:
  assumes "held_up c i x d s" and k: "k < length (nt_pubs s)" and e: "list_all (\<lambda>i. ended (nt_senders s ! i)) (nt_pubs s ! k)"
  shows "held_up c i x d (remove_pub k s)"
proof -
  obtain ks where ks: "ks \<in> set (nt_pubs s)" "i \<in> set ks" using assms(1) by (auto simp: held_up_def)
  have ne: "ks \<noteq> nt_pubs s ! k" using e ks(2) assms(1) by (auto simp: held_up_def list_all_iff)
  have "set (nt_pubs s) = insert (nt_pubs s ! k) (set (nt_pubs (remove_pub k s)))"
    by (subst id_take_nth_drop [OF k]) (auto simp: remove_pub_def)
  then have "ks \<in> set (nt_pubs (remove_pub k s))" using ks(1) ne by blast
  then show ?thesis using assms(1) ks(2) by (auto simp: held_up_def)
qed

lemma held_up_step:
  assumes "net_step marshal cs a s = Some s'" and h: "held_up c i x d s" and "\<not> releases c i a"
  shows "held_up c i x d s' \<and> nt_topic s' = nt_topic s \<and> (nt_pending s \<noteq> None \<longrightarrow> nt_pending s' = nt_pending s \<and> \<not> is_publish a)"
proof (cases a)
  case (Take c' j)
  then have "c' \<noteq> c" using assms(1) h by (auto simp: held_up_def Let_def split: if_splits sender.splits)
  moreover have "j \<noteq> i" using assms(1) h Take calculation by (auto simp: held_up_def Let_def split: if_splits sender.splits)
  ultimately show ?thesis using assms(1) h Take
    by (auto simp: Let_def split: if_splits sender.splits intro!: held_up_link held_up_sender)
next
  case (GiveUp j)
  then have "j \<noteq> i" using assms(1) h by (auto simp: held_up_def split: if_splits)
  then show ?thesis using assms(1) h GiveUp by (auto split: if_splits sender.splits intro!: held_up_sender)
next
  case (Expire j)
  then show ?thesis using assms by (auto split: if_splits sender.splits intro!: held_up_sender)
next
  case (WriteResult c' err)
  then show ?thesis using assms by (auto simp: Let_def split: if_splits conn_writer.splits intro!: held_up_link)
next
  case (WriterDone c')
  then have "c' \<noteq> c" using assms(1) h by (auto simp: held_up_def split: if_splits)
  then show ?thesis using assms(1) h WriterDone by (auto split: if_splits intro!: held_up_link)
next
  case (WriterCloses c')
  then have "c' \<noteq> c" using assms(1) h by (auto simp: held_up_def split: if_splits)
  then show ?thesis using assms(1) h WriterCloses by (auto split: if_splits intro!: held_up_link)
next
  case (CloseLink c')
  then show ?thesis using assms by (auto split: if_splits intro!: held_up_link)
next
  case (PubDone k)
  then show ?thesis using assms by (auto split: if_splits intro!: held_up_remove)
next
  case LockGot
  then show ?thesis using assms(1) h by (auto simp: held_up_def split: if_splits)
next
  case (Publish payload filt)
  then show ?thesis using assms(1) h by (auto split: if_splits intro!: held_up_start)
qed (use assms in \<open>auto simp: held_up_def nth_append split: if_splits\<close>)

text \<open>
  C19. A client that does not read can stop a topic for everybody. While a write to its connection does
  not return (a write of the server has no time limit) and a publisher has another event for it, then
  whatever anybody else does: the publication does not end, the subscribers of the topic stay as they are,
  and once somebody wants to subscribe or unsubscribe, or a connection is being closed, nothing is published on
  the topic any more. Only closing that connection, or the end of the publisher's context, ends this.
\<close>

theorem slow_client_blocks:
  assumes "lk_writer (nt_links s ! c) = Writing x" and "c < length (nt_links s)" and "\<not> lk_done (nt_links s ! c)"
    and "nt_senders s ! i = Offering c d False" and "i < length (nt_senders s)" and "\<exists>ks \<in> set (nt_pubs s). i \<in> set ks"
    and "net_run marshal cs as s = Some s'" and "\<forall>a \<in> set as. \<not> releases c i a"
  shows "nt_pubs s' \<noteq> [] \<and> nt_topic s' = nt_topic s \<and>
    (nt_pending s \<noteq> None \<longrightarrow> nt_pending s' = nt_pending s \<and> (\<forall>a \<in> set as. \<not> is_publish a))"
proof -
  have "held_up c i x d s' \<and> nt_topic s' = nt_topic s \<and>
      (nt_pending s \<noteq> None \<longrightarrow> nt_pending s' = nt_pending s \<and> (\<forall>a \<in> set as. \<not> is_publish a))"
    if "net_run marshal cs as s = Some s'" "held_up c i x d s" "\<forall>a \<in> set as. \<not> releases c i a" for as s
    using that
  proof (induction as arbitrary: s)
    case (Cons a as)
    then obtain u where u: "net_step marshal cs a s = Some u" "net_run marshal cs as u = Some s'" by (auto split: option.splits)
    have st: "held_up c i x d u \<and> nt_topic u = nt_topic s \<and>
        (nt_pending s \<noteq> None \<longrightarrow> nt_pending u = nt_pending s \<and> \<not> is_publish a)"
      using held_up_step [OF u(1) Cons.prems(2)] Cons.prems(3) by simp
    show ?case using Cons.IH [OF u(2)] st Cons.prems(3) by (auto simp: set_ConsD)
  qed simp
  note all = this
  have "held_up c i x d s" using assms(1-6) by (simp add: held_up_def)
  from all [OF assms(7) this assms(8)] show ?thesis by (auto simp: held_up_def)
qed

section \<open>Runs\<close>

text \<open>
  Two clients are connected and the first subscribes; two events are published, its socket is given the
  first one, and the second client wants to subscribe.
\<close>

definition stalled :: "string net_act list" where
  "stalled = [OpenLink, OpenLink,
     LockCall (AddSub (sample_conn 0 ''a'') (sample_params ''btc'')), LockGot,
     Publish ''one'' None, Take 0 0, PubDone 0, Publish ''two'' None,
     LockCall (AddSub (sample_conn 1 ''b'') (sample_params ''btc''))]"

definition net_view :: "net \<Rightarrow> (bool \<times> conn_writer \<times> string list) list \<times> sender list \<times> nat list list \<times> bool" where
  "net_view s =
     (map (\<lambda>l. (lk_done l, lk_writer l, map fst (lk_writes l))) (nt_links s), nt_senders s, nt_pubs s, nt_pending s = None)"

lemma net_view_lengths:
  "net_view s = (ls, ss, ps, b) \<Longrightarrow> length (nt_links s) = length ls \<and> nt_senders s = ss \<and> nt_pubs s = ps \<and> (nt_pending s = None) = b"
  by (auto simp: net_view_def)

lemma net_view_link:
  "net_view s = (ls, ss, ps, b) \<Longrightarrow> c < length ls \<Longrightarrow>
   ls ! c = (lk_done (nt_links s ! c), lk_writer (nt_links s ! c), map fst (lk_writes (nt_links s ! c)))"
  by (auto simp: net_view_def)

definition no_status :: close_status where
  "no_status e = -1"

lemma stalled_run:
  "\<exists>s. net_run text_marshal no_status stalled (new_net sample_topic) = Some s \<and> work text_marshal s = 7 \<and>
     net_view s = ([(False, Writing ''one'', []), (False, Waiting, [])], [Handed 0 ''one'', Offering 0 ''two'' False], [[1]], False)"
proof -
  have "map_option (\<lambda>s. (work text_marshal s, net_view s)) (net_run text_marshal no_status stalled (new_net sample_topic)) =
    Some (7, [(False, Writing ''one'', []), (False, Waiting, [])], [Handed 0 ''one'', Offering 0 ''two'' False], [[1]], False)"
    by code_simp
  then show ?thesis by (auto simp: map_option_eq_Some)
qed

text \<open>The first write returns after all, and everybody finishes.\<close>

definition finishing :: "string net_act list" where
  "finishing = [WriteResult 0 None, Take 0 1, PubDone 0, LockGot, WriteResult 0 None]"

lemma finishing_run:
  assumes "net_run text_marshal no_status stalled (new_net sample_topic) = Some s"
  shows "\<exists>s'. net_run text_marshal no_status finishing s = Some s' \<and>
    net_view s' = ([(False, Waiting, [''one'', ''two'']), (False, Waiting, [])], [Handed 0 ''one'', Handed 0 ''two''], [], True)"
proof -
  have "map_option (\<lambda>s'. net_view s') (Option.bind (net_run text_marshal no_status stalled (new_net sample_topic))
      (net_run text_marshal no_status finishing)) =
    Some ([(False, Waiting, [''one'', ''two'']), (False, Waiting, [])], [Handed 0 ''one'', Handed 0 ''two''], [], True)"
    by code_simp
  then show ?thesis using assms by (auto simp: map_option_eq_Some)
qed

lemma sample_topic_empty: "t_subs sample_topic = []"
  by (simp add: sample_topic_def on_last_unsub_def on_first_sub_def on_unsub_def on_sub_def new_topic_def)

theorem publishing_terminates_witness:
  "\<exists>s s'. net_run text_marshal no_status stalled (new_net sample_topic) = Some s \<and> net_run text_marshal no_status finishing s = Some s' \<and>
     length finishing \<le> work text_marshal s \<and> nt_pending s' = None"
proof -
  obtain s where s: "net_run text_marshal no_status stalled (new_net sample_topic) = Some s" using stalled_run by blast
  obtain s' where s': "net_run text_marshal no_status finishing s = Some s'"
    "net_view s' = ([(False, Waiting, [''one'', ''two'']), (False, Waiting, [])], [Handed 0 ''one'', Handed 0 ''two''], [], True)"
    using finishing_run [OF s] by blast
  have "list_all internal finishing" by (simp add: finishing_def)
  from publishing_terminates [OF s sample_topic_empty s'(1) this] s s'(1) net_view_lengths [OF s'(2)]
  show ?thesis by blast
qed

theorem written_in_order_witness:
  "\<exists>s s'. net_run text_marshal no_status stalled (new_net sample_topic) = Some s \<and> net_run text_marshal no_status finishing s = Some s' \<and>
     lk_taken (nt_links s' ! 0) = [''one'', ''two''] \<and> (\<exists>zs. lk_taken (nt_links s' ! 0) = lk_taken (nt_links s ! 0) @ zs)"
proof -
  obtain s where s: "net_run text_marshal no_status stalled (new_net sample_topic) = Some s"
    "net_view s = ([(False, Writing ''one'', []), (False, Waiting, [])], [Handed 0 ''one'', Offering 0 ''two'' False], [[1]], False)"
    using stalled_run by blast
  obtain s' where s': "net_run text_marshal no_status finishing s = Some s'"
    "net_view s' = ([(False, Waiting, [''one'', ''two'']), (False, Waiting, [])], [Handed 0 ''one'', Handed 0 ''two''], [], True)"
    using finishing_run [OF s(1)] by blast
  have "0 < length (nt_links s)" using net_view_lengths [OF s(2)] by simp
  from written_in_order [OF s(1) sample_topic_empty s'(1) this] net_view_link [OF s'(2), of 0] s(1) s'(1)
  show ?thesis by auto
qed

text \<open>The first write does not return; a third client connects and the second one gets a response.\<close>

theorem slow_client_blocks_witness:
  "\<exists>s s'. net_run text_marshal no_status stalled (new_net sample_topic) = Some s \<and>
     net_run text_marshal no_status [OpenLink, Respond 1 ''ok'', Take 1 2, WriteResult 1 None] s = Some s' \<and>
     nt_topic s' = nt_topic s \<and> nt_pending s' \<noteq> None \<and> nt_pubs s' \<noteq> []"
proof -
  let ?acts = "[OpenLink, Respond 1 ''ok'', Take 1 2, WriteResult 1 None] :: string net_act list"
  obtain s where s: "net_run text_marshal no_status stalled (new_net sample_topic) = Some s"
    "net_view s = ([(False, Writing ''one'', []), (False, Waiting, [])], [Handed 0 ''one'', Offering 0 ''two'' False], [[1]], False)"
    using stalled_run by blast
  note v = net_view_lengths [OF s(2)]
  have "Option.bind (net_run text_marshal no_status stalled (new_net sample_topic)) (net_run text_marshal no_status ?acts) \<noteq> None"
    by code_simp
  then obtain s' where s': "net_run text_marshal no_status ?acts s = Some s'" using s(1) by auto
  have w: "lk_writer (nt_links s ! 0) = Writing ''one''" "\<not> lk_done (nt_links s ! 0)" "0 < length (nt_links s)"
    using net_view_link [OF s(2), of 0] v by simp_all
  have "nt_senders s ! 1 = Offering 0 ''two'' False" "1 < length (nt_senders s)" "\<exists>ks \<in> set (nt_pubs s). 1 \<in> set ks"
    using v by simp_all
  from slow_client_blocks [OF w(1,3,2) this s'] s s' v show ?thesis by auto
qed

end
