(* ===== verification/Ws_Close.thy ===== *)
theory Ws_Close
  imports Ws_Client Time_Util
begin

text \<open>
  Closing: \<^verbatim>\<open>Close\<close> of the reconnecting client (\<^verbatim>\<open>wsclient/wsreconn/client.go\<close>), which stops its periodic
  execution and then closes its socket client, and of the sharded client (\<^verbatim>\<open>wsclient/wsshards/client.go\<close>),
  which closes them one after the other. A call that never returns is \<open>None\<close>, or \<open>False\<close> with the state it
  leaves.
\<close>

text \<open>
  \<^verbatim>\<open>Stop\<close> of the periodic execution hands its stop to a running loop, or waits for one; \<^verbatim>\<open>Close\<close> of the socket
  client resets it. The waiting for goroutines that follows both is that of the third-party supervisor.
\<close>

definition pe_stop :: "periodic_exec \<Rightarrow> pe_run \<Rightarrow> pe_run option" where
  [simp]: "pe_stop p s = pe_step p StopCase s"

definition ws_close :: "'j ws_client \<Rightarrow> 'j ws_client \<times> ws_event list" where
  [simp]: "ws_close c = ws_reset c"

text \<open>A shard: the periodic execution of a reconnecting client, its loop, and the socket client.\<close>

record 'j shard =
  sh_exec :: periodic_exec
  sh_run :: pe_run
  sh_ws :: "'j ws_client"

definition reconn_close :: "'j shard \<Rightarrow> ('j shard \<times> ws_event list) option" where
  "reconn_close x =
     (case pe_stop (sh_exec x) (sh_run x) of
        None \<Rightarrow> None
      | Some r \<Rightarrow> let (w, es) = ws_close (sh_ws x) in Some (x\<lparr>sh_run := r, sh_ws := w\<rparr>, es))"

fun shards_close :: "'j shard list \<Rightarrow> 'j shard list \<times> ws_event list \<times> bool" where
  "shards_close [] = ([], [], True)"
| "shards_close (x # xs) =
     (case reconn_close x of
        None \<Rightarrow> (x # xs, [], False)
      | Some (x', es) \<Rightarrow> let (xs', es', ret) = shards_close xs in (x' # xs', es @ es', ret))"

text \<open>A closed shard: nothing runs, nothing is scheduled, no connection is open, and no request is registered.\<close>

definition shard_closed :: "'j shard \<Rightarrow> bool" where
  "shard_closed x \<longleftrightarrow> pr_phase (sh_run x) = Idle \<and> pr_timer (sh_run x) = None \<and> \<not> ws_is_open (sh_ws x)"

definition loop_runs :: "'j shard \<Rightarrow> bool" where
  "loop_runs x \<longleftrightarrow> pr_phase (sh_run x) \<noteq> Idle"

definition open_shards_count :: "'j shard list \<Rightarrow> nat" where
  "open_shards_count xs = length (filter (\<lambda>x. ws_is_open (sh_ws x)) xs)"

definition decrements :: "ws_event list \<Rightarrow> nat" where
  "decrements es = length (filter (\<lambda>e. e = DecWsOpenConnections) es)"

lemma reconn_close_blocks: "\<not> loop_runs x \<Longrightarrow> reconn_close x = None"
  by (simp add: reconn_close_def loop_runs_def)

lemma reconn_close_correct:
  assumes "loop_runs x" and "ws_inv (sh_ws x)"
  shows "\<exists>x' es. reconn_close x = Some (x', es) \<and> shard_closed x' \<and> ws_inv (sh_ws x') \<and> sh_exec x' = sh_exec x \<and>
    pr_execs (sh_run x') = pr_execs (sh_run x) \<and> decrements es = (if ws_is_open (sh_ws x) then 1 else 0)"
  using assms
  by (cases "pr_phase (sh_run x)")
    (auto simp: reconn_close_def loop_runs_def shard_closed_def decrements_def ws_is_open_def ws_reset_inv ws_inv_def gm_wf_def
      gm_keys_def split: option.splits)


definition sample_shard :: "nat \<Rightarrow> unit shard" where
  "sample_shard k = \<lparr>sh_exec = sample_pe, sh_run = pe_start sample_pe (new_pe_run 0),
     sh_ws = fst (snd (ws_open (Inr ''u'') (\<lambda>_. Inr k)
       (new_ws_client \<lparr>wo_URL = ''ws:'', wo_URLFunc = False, wo_ReadLimit = 0, wo_PingInterval = 0, wo_Cron = False,
          wo_RecoveryFunc = None, wo_SerialReads = False\<rparr>)))\<rparr>"


end
