(* ===== verification/Http_Client.thy ===== *)
theory Http_Client
  imports Ctx_Util
begin

text \<open>
  The HTTP client with retries (\<^verbatim>\<open>internal/httpclient/retry.go\<close>). The wrapped round tripper and the
  package \<^verbatim>\<open>github.com/cenkalti/backoff\<close> are not code of the program: they are the parameters \<open>orig\<close> and
  the record \<open>backoff\<close>. What is asked of \<^verbatim>\<open>backoff.Retry\<close> is its documentation (\<open>retry_documented\<close>,
  \<open>default_documented\<close>).
\<close>

record http_response =
  hr_StatusCode :: int
  hr_body :: nat

text \<open>A round tripper takes a request through a state of the world.\<close>

type_synonym ('r, 'w) round_tripper = "'r \<Rightarrow> 'w \<Rightarrow> (go_error + http_response) \<times> 'w"

record ('r, 'w) retry_transport =
  rt_orig :: "('r, 'w) round_tripper"

record ('r, 'w) http_client =
  hc_Timeout :: int
  hc_Transport :: "('r, 'w) retry_transport"

definition new_http_client :: "('r, 'w) round_tripper \<Rightarrow> int \<Rightarrow> ('r, 'w) http_client" where
  "new_http_client default_transport timeout =
     \<lparr>hc_Timeout = timeout, hc_Transport = \<lparr>rt_orig = default_transport\<rparr>\<rparr>"

text \<open>An operation that is retried changes a state and says whether it failed.\<close>

type_synonym 's operation = "'s \<Rightarrow> go_error option \<times> 's"

text \<open>
  Of the package: the assertion that a value is a strategy, the constant strategy without retries, a
  strategy with a context, and \<^verbatim>\<open>Retry\<close>.
\<close>

record ('b, 's) backoff =
  bo_assert :: "ctx_val \<Rightarrow> 'b option"
  bo_no_retries :: 'b
  bo_with_context :: "'b \<Rightarrow> ctx \<Rightarrow> 'b"
  bo_retry :: "'s operation \<Rightarrow> 'b \<Rightarrow> 's \<Rightarrow> go_error option \<times> 's"

definition with_retry_context :: "ctx \<Rightarrow> ctx_val \<Rightarrow> ctx" where
  "with_retry_context c strategy = WithValue c RetryKey strategy"

text \<open>The closure \<^verbatim>\<open>fn\<close> of \<^verbatim>\<open>RoundTrip\<close>; its state is the world and the variable \<^verbatim>\<open>resp\<close>.\<close>

definition round_trip_fn :: "('r, 'w) retry_transport \<Rightarrow> 'r \<Rightarrow> ('w \<times> http_response option) operation" where
  "round_trip_fn rt r s =
     (case rt_orig rt r (fst s) of
        (Inl err, w) \<Rightarrow> (Some err, (w, None))
      | (Inr resp, w) \<Rightarrow>
          if hr_StatusCode resp \<ge> 500
          then (Some (Plain (Other (to_lower (status_text (hr_StatusCode resp))))), (w, None))
          else (None, (w, Some resp)))"

definition strategy_of :: "('b, 's) backoff \<Rightarrow> ctx \<Rightarrow> 'b" where
  "strategy_of bo c =
     bo_with_context bo
       (case ctx_value c RetryKey of
          None \<Rightarrow> bo_no_retries bo
        | Some v \<Rightarrow> (case bo_assert bo v of None \<Rightarrow> bo_no_retries bo | Some b \<Rightarrow> b)) c"

definition round_trip ::
  "('b, 'w \<times> http_response option) backoff \<Rightarrow> ('r, 'w) retry_transport \<Rightarrow> ctx \<Rightarrow> 'r \<Rightarrow> 'w \<Rightarrow>
   (go_error + http_response option) \<times> 'w" where
  "round_trip bo rt c r w =
     (case bo_retry bo (round_trip_fn rt r) (strategy_of bo c) (w, None) of
        (Some err, (w', resp)) \<Rightarrow> (Inl err, w')
      | (None, (w', resp)) \<Rightarrow> (Inr resp, w'))"

section \<open>What Retry documents\<close>

text \<open>The results of an operation that runs \<open>n\<close> times.\<close>

fun attempts :: "'s operation \<Rightarrow> nat \<Rightarrow> 's \<Rightarrow> go_error option list \<times> 's" where
  "attempts op 0 s = ([], s)"
| "attempts op (Suc n) s = (let (e, s1) = op s; (es, s2) = attempts op n s1 in (e # es, s2))"

text \<open>
  \<^verbatim>\<open>Retry\<close> runs the operation at least once, again only after an error, and returns no error exactly
  when the last run had none. Without retries it runs once. (A strategy that never gives up is outside of
  this: then nothing bounds the sendings to a server that never recovers, but the context of the request.)
\<close>

definition retry_documented :: "('b, 's) backoff \<Rightarrow> bool" where
  "retry_documented bo \<longleftrightarrow>
     (\<forall>op b s. \<exists>n es s' err. attempts op (Suc n) s = (es, s') \<and> bo_retry bo op b s = (err, s') \<and>
        None \<notin> set (butlast es) \<and> (err = None \<longleftrightarrow> last es = None))"

definition default_documented :: "('b, 's) backoff \<Rightarrow> bool" where
  "default_documented bo \<longleftrightarrow>
     (\<forall>op c s. snd (bo_retry bo op (bo_with_context bo (bo_no_retries bo) c) s) = snd (op s) \<and>
        (fst (bo_retry bo op (bo_with_context bo (bo_no_retries bo) c) s) = None \<longleftrightarrow> fst (op s) = None))"

section \<open>The result of a round trip\<close>

text \<open>The replies of the wrapped round tripper to a request that is sent \<open>n\<close> times.\<close>

fun replies :: "('r, 'w) round_tripper \<Rightarrow> 'r \<Rightarrow> nat \<Rightarrow> 'w \<Rightarrow> (go_error + http_response) list \<times> 'w" where
  "replies orig r 0 w = ([], w)"
| "replies orig r (Suc n) w = (let (x, w1) = orig r w; (xs, w2) = replies orig r n w1 in (x # xs, w2))"

definition failed :: "go_error + http_response \<Rightarrow> bool" where
  "failed x = (case x of Inl err \<Rightarrow> True | Inr resp \<Rightarrow> hr_StatusCode resp \<ge> 500)"

definition outcome_of :: "go_error + http_response \<Rightarrow> go_error option \<times> http_response option" where
  "outcome_of x =
     (case x of
        Inl err \<Rightarrow> (Some err, None)
      | Inr resp \<Rightarrow>
          if hr_StatusCode resp \<ge> 500 then (Some (Plain (Other (to_lower (status_text (hr_StatusCode resp))))), None)
          else (None, Some resp))"

lemma round_trip_fn_outcome:
  "rt_orig rt r w = (x, w') \<Longrightarrow> round_trip_fn rt r (w, v) = (fst (outcome_of x), (w', snd (outcome_of x)))"
  by (auto simp: round_trip_fn_def outcome_of_def split: sum.splits)

lemma outcome_of_failed: "fst (outcome_of x) = None \<longleftrightarrow> \<not> failed x"
  by (auto simp: outcome_of_def failed_def split: sum.splits)

lemma failed_outcome: "failed x \<longleftrightarrow> fst (outcome_of x) \<noteq> None"
  by (simp add: outcome_of_failed)

lemma attempts_replies:
  "replies (rt_orig rt) r (Suc n) w = (xs, w') \<Longrightarrow>
   length xs = Suc n \<and> attempts (round_trip_fn rt r) (Suc n) (w, v) = (map (fst \<circ> outcome_of) xs, (w', snd (outcome_of (last xs))))"
proof (induction n arbitrary: w v xs)
  case 0
  then show ?case by (auto simp: round_trip_fn_outcome split: prod.splits)
next
  case (Suc n)
  obtain x w1 ys where x: "rt_orig rt r w = (x, w1)" and ys: "replies (rt_orig rt) r (Suc n) w1 = (ys, w')" and xs: "xs = x # ys"
    using Suc.prems by (auto simp del: replies.simps simp: replies.simps(2) [of _ _ "Suc n"] split: prod.splits)
  note ih = Suc.IH [OF ys, of "snd (outcome_of x)"]
  then have "ys \<noteq> []" by auto
  then show ?case
    using ih xs by (simp add: round_trip_fn_outcome [OF x] attempts.simps(2) [of _ "Suc n"] del: attempts.simps)
qed

lemma retry_outcome:
  assumes "replies (rt_orig rt) r (Suc n) w = (xs, w')"
  shows "attempts (round_trip_fn rt r) (Suc n) (w, None) = (map (fst \<circ> outcome_of) xs, (w', snd (outcome_of (last xs))))" "xs \<noteq> []"
  using attempts_replies [OF assms, of None] by auto

text \<open>
  C40. The result of a round trip, for every strategy in the context. The request is sent at least once;
  every sending but the last failed, by an error or a status of 500 or more; the result is the response
  of the last sending if it did not fail, and an error otherwise. So a response is never missing without
  an error, and never has a status of 500 or more. Without a strategy in the context the request is sent
  exactly once.
\<close>

theorem round_trip_result:
  assumes "retry_documented bo" and "default_documented bo" and "round_trip bo rt c r w = (res, w')"
  shows "\<exists>n xs. replies (rt_orig rt) r (Suc n) w = (xs, w') \<and> (\<forall>x \<in> set (butlast xs). failed x) \<and>
    (if failed (last xs) then \<exists>err. res = Inl err else \<exists>resp. last xs = Inr resp \<and> hr_StatusCode resp < 500 \<and> res = Inr (Some resp)) \<and>
    (ctx_value c RetryKey = None \<longrightarrow> (\<exists>x. replies (rt_orig rt) r 1 w = ([x], w') \<and> (failed x \<longleftrightarrow> (\<exists>err. res = Inl err))))"
proof -
  obtain n es s' err where a: "attempts (round_trip_fn rt r) (Suc n) (w, None) = (es, s')"
    "bo_retry bo (round_trip_fn rt r) (strategy_of bo c) (w, None) = (err, s')"
    "None \<notin> set (butlast es)" "err = None \<longleftrightarrow> last es = None"
    using assms(1) [unfolded retry_documented_def, rule_format, where op = "round_trip_fn rt r" and b = "strategy_of bo c" and s = "(w, None)"]
    by (elim exE conjE) (rule that)
  obtain xs v where xs: "replies (rt_orig rt) r (Suc n) w = (xs, v)" by (cases "replies (rt_orig rt) r (Suc n) w")
  note o = retry_outcome [OF xs]
  have es: "es = map (fst \<circ> outcome_of) xs" and s': "s' = (v, snd (outcome_of (last xs)))" using a(1) o(1) by auto
  have res: "(res, w') = (case err of Some e \<Rightarrow> (Inl e, v) | None \<Rightarrow> (Inr (snd (outcome_of (last xs))), v))"
    using assms(3) a(2) s' by (auto simp: round_trip_def split: option.splits)
  have err: "err = None \<longleftrightarrow> \<not> failed (last xs)"
    using a(4) o(2) by (simp add: es last_map outcome_of_failed)
  have "\<forall>x \<in> set (butlast xs). failed x"
    using a(3) unfolding es map_butlast [symmetric] by (force simp: failed_outcome)
  moreover have "if failed (last xs) then \<exists>err. res = Inl err
      else \<exists>resp. last xs = Inr resp \<and> hr_StatusCode resp < 500 \<and> res = Inr (Some resp)"
    using res err by (cases "last xs") (auto simp: failed_def outcome_of_def split: option.splits)
  moreover have "\<exists>x. replies (rt_orig rt) r 1 w = ([x], w') \<and> (failed x \<longleftrightarrow> (\<exists>err. res = Inl err))"
    if "ctx_value c RetryKey = None"
  proof -
    obtain x w1 where x: "rt_orig rt r w = (x, w1)" by (cases "rt_orig rt r w")
    have "bo_retry bo (round_trip_fn rt r) (strategy_of bo c) (w, None) = (err, (w1, snd (outcome_of x)))"
      "err = None \<longleftrightarrow> \<not> failed x"
      using assms(2) a(2) that
      by (auto simp: default_documented_def strategy_of_def round_trip_fn_outcome [OF x] outcome_of_failed split_beta prod_eq_iff)
    then show ?thesis using assms(3) x by (auto simp: round_trip_def split: option.splits)
  qed
  moreover have "v = w'" using res by (auto split: option.splits)
  ultimately show ?thesis using xs by (intro exI [of _ n] exI [of _ xs] conjI impI) (simp_all del: replies.simps)
qed

text \<open>
  A strategy that is a number of retries, the documented behaviour for it, and a server that is
  unavailable twice.
\<close>

fun retry_times :: "'s operation \<Rightarrow> nat \<Rightarrow> 's \<Rightarrow> go_error option \<times> 's" where
  "retry_times op 0 s = op s"
| "retry_times op (Suc n) s = (case op s of (None, s') \<Rightarrow> (None, s') | (Some err, s') \<Rightarrow> retry_times op n s')"

definition sample_backoff :: "(nat, 's) backoff" where
  "sample_backoff =
     \<lparr>bo_assert = (\<lambda>v. case v of OpaqueVal n \<Rightarrow> Some n | _ \<Rightarrow> None), bo_no_retries = 0, bo_with_context = (\<lambda>b c. b),
      bo_retry = retry_times\<rparr>"

lemma retry_times_documented:
  "\<exists>n es s' err. attempts op (Suc n) s = (es, s') \<and> retry_times op b s = (err, s') \<and>
     None \<notin> set (butlast es) \<and> (err = None \<longleftrightarrow> last es = None)"
proof (induction b arbitrary: s)
  case 0
  then show ?case by (intro exI [of _ 0]) (auto split: prod.splits)
next
  case (Suc b)
  obtain e s1 where e: "op s = (e, s1)" by (cases "op s")
  show ?case
  proof (cases e)
    case None
    then show ?thesis using e by (intro exI [of _ 0]) simp
  next
    case (Some err1)
    obtain n es s' err where ih: "attempts op (Suc n) s1 = (es, s')" "retry_times op b s1 = (err, s')"
      "None \<notin> set (butlast es)" "err = None \<longleftrightarrow> last es = None"
      using Suc.IH [of s1] by (elim exE conjE) (rule that)
    then have "es \<noteq> []" by (auto split: prod.splits)
    then show ?thesis
      using ih e Some
      by (intro exI [of _ "Suc n"] exI [of _ "e # es"] exI [of _ s'] exI [of _ err])
        (simp add: attempts.simps(2) [of _ "Suc n"] del: attempts.simps)
  qed
qed

lemma sample_backoff_documented: "retry_documented sample_backoff" "default_documented sample_backoff"
  unfolding retry_documented_def sample_backoff_def default_documented_def
  by (simp_all only: backoff.simps retry_times.simps simp_thms retry_times_documented)

definition sample_transport :: "(unit, nat) retry_transport" where
  "sample_transport =
     \<lparr>rt_orig = (\<lambda>r w. (Inr \<lparr>hr_StatusCode = (if w < 2 then 503 else 200), hr_body = w\<rparr>, Suc w))\<rparr>"

theorem round_trip_result_witness:
  "round_trip sample_backoff sample_transport (with_retry_context Background (OpaqueVal 5)) () 0 =
     (Inr (Some \<lparr>hr_StatusCode = 200, hr_body = 2\<rparr>), 3) \<and>
   (\<exists>n xs. replies (rt_orig sample_transport) () (Suc n) 0 = (xs, 3) \<and> (\<forall>x \<in> set (butlast xs). failed x))"
proof -
  have run: "round_trip sample_backoff sample_transport (with_retry_context Background (OpaqueVal 5)) () 0 =
     (Inr (Some \<lparr>hr_StatusCode = 200, hr_body = 2\<rparr>), 3)"
    by (simp add: round_trip_def sample_backoff_def strategy_of_def with_retry_context_def round_trip_fn_def
        sample_transport_def numeral_eq_Suc)
  show ?thesis
    using run round_trip_result [OF sample_backoff_documented run] by blast
qed


end
