(* ===== verification/Spec2Isabelle.thy ===== *)
theory Spec2Isabelle
  imports Ws_End_To_End Ws_Client_Run Ws_Reconn_Time Ws_Shards_Client Ws_Server_Conn Ws_Close Http_Client
begin

text \<open>
  A verification library for wetsocks, a Go library for WebSocket servers with topics and for clients
  that keep their subscriptions over lost connections.

  THE PROGRAM. A server (\<^verbatim>\<open>wsserver/server.go\<close>) opens connections; each has a reader, which answers
  requests to subscribe and unsubscribe, and a writer. Requests name a topic as a string like
  \<^verbatim>\<open>sub~update@users.7\<close> (\<^verbatim>\<open>wsutil/wsutil.go\<close>); the router (\<^verbatim>\<open>wsserver/topic.go\<close>) finds a registered
  topic whose pattern matches, and the topic keeps its subscribers, calls the application's event
  functions, and publishes to the subscribers or drops them. A client (\<^verbatim>\<open>wsclient/client.go\<close>) has one
  connection at a time, with a reader, a writer and a pinger for each, requests with numbers, and read
  functions. A reconnecting client (\<^verbatim>\<open>wsclient/wsreconn/client.go\<close>) checks its connection periodically
  (\<^verbatim>\<open>internal/timeutil/timeutil.go\<close>), reopens it, and sends what a keeper of subscriptions hands out
  (\<^verbatim>\<open>solo_sub_keeper.go\<close>, \<^verbatim>\<open>grouped_sub_keeper.go\<close>). A sharded client (\<^verbatim>\<open>wsclient/wsshards/\<close>) has several
  of them and a store that spreads subscriptions over their keepers. Errors with a status
  (\<^verbatim>\<open>internal/errutil/\<close>), combined contexts (\<^verbatim>\<open>internal/ctxutil/\<close>) and an HTTP client with retries
  (\<^verbatim>\<open>internal/httpclient/\<close>) serve all of them.

  THE THEORIES. A Go function \<^verbatim>\<open>addSub\<close> is \<open>add_sub\<close> here; a struct is a record, its methods take and
  return the record; a failure is \<open>Err\<close>, \<open>Inl\<close> or an optional error, a panic is \<open>Panic\<close>.

  \<^item> \<open>Go_Prelude\<close>: outcomes of calls, Go maps (association lists; the order of a \<^verbatim>\<open>range\<close> is an argument of
    every loop over a map, and theorems hold for all orders), lists updated by swap-deletion, and the
    locale \<open>lifecycle\<close> for events that must alternate.
  \<^item> \<open>Go_Strings\<close>, \<open>Go_Regexp\<close>, \<open>Go_Errors\<close>: what the program uses of the packages strings, regexp, errors,
    fmt and net/http; strings are lists of bytes.
  \<^item> \<open>Ws_Util\<close>: topic names, their parser and printer. \<open>Ws_Errors\<close>: the classification of connection errors.
    \<open>Err_Util\<close>, \<open>Ctx_Util\<close>, \<open>Http_Client\<close>, \<open>Time_Util\<close>: the internal packages.
  \<^item> \<open>Ws_Topic\<close> (patterns, topics and all their operations), \<open>Ws_Topic_Subs\<close> (subscribing and dropping),
    \<open>Ws_Topic_Pub\<close> (publishing), \<open>Ws_Router\<close>, \<open>Ws_Server\<close>: the server side, from the inside out. Two theories are
    about its concurrency: \<open>Ws_Topic_Filters\<close> (publishers that share the slice of middlewares of a topic, with
    the memory of Go slices) and \<open>Ws_Server_Conn\<close> (writers, publishers and responses that meet at the channels
    of connections, and the lock of a topic).
  \<^item> \<open>Ws_Client\<close> (the critical sections of the client) and \<open>Ws_Client_Run\<close> (its goroutines, as atomic steps
    that a scheduler interleaves).
  \<^item> \<open>Ws_Sub_Keeper\<close>: the interface between the reconnecting client and a keeper, as the locale
    \<open>sub_keeper\<close>; \<open>Ws_Solo_Keeper\<close> and \<open>Ws_Grouped_Keeper\<close> interpret it. \<open>Ws_Reconn\<close>: the reconnecting client
    over this interface (locale \<open>keeper_client\<close>, an extension), interpreted with both keepers there and in
    \<open>Ws_Reconn_Grouped\<close>. \<open>Ws_Reconn_Time\<close>: when it runs.
  \<^item> \<open>Ws_Shards\<close> (locale \<open>sharded\<close>, interpreted on both stores) and \<open>Ws_Shards_Client\<close>. \<open>Ws_Close\<close>: closing
    reconnecting and sharded clients.
  \<^item> \<open>Ws_End_To_End\<close>: the reconnecting client of the library against its server.

  WHAT IS SHOWN. Topics: the abstract state is a set of triples of registered topic, connection and
  parameters, and subscribing, unsubscribing, dropping and closing refine insertion and deletion in it, on
  topics, through the router and through the requests of the server; event functions alternate;
  publishing reaches exactly the matching subscribers with one encoding per topic; routing does not
  depend on the map order exactly when no patterns overlap; a reader answers each request in order,
  cannot touch the subscriptions of others, and leaves nothing behind in any interleaving. Connections
  write what they are handed once and in order, publishing ends in every schedule as long as writes of
  the socket return, and concurrent publishers do not disturb each other where an append does not write
  into shared memory. Client: for
  every interleaving of its goroutines the state stays well-formed, events are processed in the order
  they arrived, a response belongs to its request, the gauge of open connections alternates. Keepers:
  each operation refines a pair of what is wanted and what the other side is believed to hold; one run
  of the reconnecting client over a healthy connection makes the other side hold exactly what is
  wanted, no failure loses a wish, and the same holds for all shards together; runs come in time. With
  the server of the library at the other end, what it holds for the connection are exactly the entries of
  the wanted topics.
  Several theorems are concrete runs in which the code does not do what it means to do.

  BOUNDS AND FUEL. Request numbers and the sum of a topic's bytes are 64-bit words, counts of grouped
  keys are 64-bit with their bound as a hypothesis; the buffer of serial reads holds 512 events. Indices
  of shards use Go's signed remainder. All functions are total and structurally recursive, so nothing
  needs fuel. Concurrent code is a function from a step to a next state, or none when the step would
  block, and a run is a list of steps: theorems about runs hold for all lists. Instants and durations of
  \<open>Time_Util\<close> are unbounded integers in nanoseconds.

  PARAMETERS. The socket package (results of reads, writes, pings and of opening, the close status of an
  error), JSON packages (the id of a message and its encoding), the backoff package and user code
  (formatters, event functions, hashes of keys, middlewares) are arguments. Hypotheses on them are named
  predicates: \<open>solo_formatter_ok\<close> and its grouped counterpart, \<open>retry_documented\<close>, \<open>orders_ok\<close>.

  NOT MODELLED. Generated mocks (\<^verbatim>\<open>wsserver/_mock\<close>, \<^verbatim>\<open>wsclient/wsreconn/_mock\<close>) and test helpers
  (\<^verbatim>\<open>internal/testutil\<close>) hold no logic of the program. The supervisor that starts goroutines and waits for
  them at the end (\<^verbatim>\<open>xync\<close>) is third-party code: a \<open>Close\<close> that first resets and then waits is the reset
  here. Logging is kept only where the code decides what to log. The scheduler of cron jobs is started
  and stopped, what it runs is the user's.
\<close>

end
